(* ===== verification/Prelude.thy ===== *)
theory Prelude
  imports Main "HOL-Library.Word"
begin

text \<open>
  Shared vocabulary of the development: bytes and time stamps, the exceptions of
  \<^verbatim>\<open>src/src/streaming_error.h\<close> and the other ways an operation can fail, stateful
  operations that may fail with their weakest-precondition rules (collection
  \<open>wp\<close>), copies out of byte buffers, and the two contracts that several
  components share: a first-in first-out buffer (locale \<open>fifo\<close>) and a machine
  whose steps keep an invariant (locale \<open>stepper\<close>).
\<close>

section \<open>Bytes, time stamps, failures\<close>

type_synonym byte = "8 word"

text \<open>
  A time stamp (\<^verbatim>\<open>rclcpp::Time\<close>) and a duration (\<^verbatim>\<open>rclcpp::Duration\<close>) are read as the
  count of nanoseconds that their interface exposes.
\<close>

type_synonym stamp = int

text \<open>
  The exception classes: \<open>EncodingError\<close> and \<open>DecodingError\<close> derive from
  \<open>StreamingError\<close>, which derives from \<^verbatim>\<open>std::runtime_error\<close>; \<open>StdException\<close>
  stands for every other class below \<^verbatim>\<open>std::exception\<close>.
\<close>

datatype exn =
    StreamingError string
  | EncodingError string
  | DecodingError string
  | StdException string

primrec what :: "exn \<Rightarrow> string" where
  "what (StreamingError m) = m"
| "what (EncodingError m) = m"
| "what (DecodingError m) = m"
| "what (StdException m) = m"

text \<open>
  An operation fails by throwing, which a handler can catch, or in a way that nothing
  catches: undefined behaviour (a null pointer is dereferenced, memory outside of a buffer
  is accessed, an \<^verbatim>\<open>int\<close> overflows), or a loop that never ends.
\<close>

datatype fault = Throw exn | NullDeref | OutOfBounds | IntOverflow | Diverges

section \<open>Operations on a state that may fail\<close>

text \<open>
  An operation maps a state to its outcome and the state it leaves behind, also when it
  fails: an exception does not undo what was written before it was thrown.
\<close>

type_synonym ('s, 'a) op = "'s \<Rightarrow> (fault + 'a) \<times> 's"

definition ret :: "'a \<Rightarrow> ('s, 'a) op" where
  "ret a = (\<lambda>s. (Inr a, s))"

definition fail :: "fault \<Rightarrow> ('s, 'a) op" where
  "fail e = (\<lambda>s. (Inl e, s))"

text \<open>A computation that does not touch the state.\<close>

definition lift_op :: "fault + 'a \<Rightarrow> ('s, 'a) op" where
  "lift_op r = (\<lambda>s. (r, s))"

definition bnd :: "('s, 'a) op \<Rightarrow> ('a \<Rightarrow> ('s, 'b) op) \<Rightarrow> ('s, 'b) op" where
  "bnd m f = (\<lambda>s. case m s of (Inl e, t) \<Rightarrow> (Inl e, t) | (Inr a, t) \<Rightarrow> f a t)"

definition thn :: "('s, 'a) op \<Rightarrow> ('s, 'b) op \<Rightarrow> ('s, 'b) op" where
  "thn m n = bnd m (\<lambda>_. n)"

definition gets :: "('s \<Rightarrow> 'a) \<Rightarrow> ('s, 'a) op" where
  "gets f = (\<lambda>s. (Inr (f s), s))"

definition upd :: "('s \<Rightarrow> 's) \<Rightarrow> ('s, unit) op" where
  "upd f = (\<lambda>s. (Inr (), f s))"

definition whenb :: "bool \<Rightarrow> ('s, unit) op \<Rightarrow> ('s, unit) op" where
  "whenb b m = (if b then m else ret ())"

text \<open>Going through a pointer that may be null.\<close>

definition deref :: "('s \<Rightarrow> 'a option) \<Rightarrow> ('s, 'a) op" where
  "deref f = (\<lambda>s. case f s of None \<Rightarrow> (Inl NullDeref, s) | Some a \<Rightarrow> (Inr a, s))"

text \<open>A \<^verbatim>\<open>catch (const std::exception&)\<close> block; undefined behaviour passes through it.\<close>

definition handle :: "('s, 'a) op \<Rightarrow> (exn \<Rightarrow> ('s, 'a) op) \<Rightarrow> ('s, 'a) op" where
  "handle m h = (\<lambda>s. case m s of (Inl (Throw e), t) \<Rightarrow> h e t | r \<Rightarrow> r)"

text \<open>
  \<open>wp m Q E s\<close>: started in \<open>s\<close>, the operation ends in a state with \<open>Q\<close> of its
  result, or fails in a state with \<open>E\<close> of the fault.
\<close>

definition wp :: "('s, 'a) op \<Rightarrow> ('a \<Rightarrow> 's \<Rightarrow> bool) \<Rightarrow> (fault \<Rightarrow> 's \<Rightarrow> bool) \<Rightarrow> 's \<Rightarrow> bool" where
  "wp m Q E s \<longleftrightarrow> (case m s of (Inl e, t) \<Rightarrow> E e t | (Inr a, t) \<Rightarrow> Q a t)"

named_theorems wp_rules "weakest preconditions of the operations"

lemma wp_ret [wp_rules]: "wp (ret a) Q E s = Q a s"
  by (simp add: wp_def ret_def)

lemma wp_fail [wp_rules]: "wp (fail e) Q E s = E e s"
  by (simp add: wp_def fail_def)

lemma wp_lift_op [wp_rules]: "wp (lift_op r) Q E s = (case r of Inl e \<Rightarrow> E e s | Inr a \<Rightarrow> Q a s)"
  by (simp add: wp_def lift_op_def split: sum.splits)

lemma wp_bnd [wp_rules]: "wp (bnd m f) Q E s = wp m (\<lambda>a. wp (f a) Q E) E s"
  by (auto simp: wp_def bnd_def split: prod.splits sum.splits)

lemma wp_thn [wp_rules]: "wp (thn m n) Q E s = wp m (\<lambda>_. wp n Q E) E s"
  by (simp add: thn_def wp_bnd)

lemma wp_gets [wp_rules]: "wp (gets f) Q E s = Q (f s) s"
  by (simp add: wp_def gets_def)

lemma wp_upd [wp_rules]: "wp (upd f) Q E s = Q () (f s)"
  by (simp add: wp_def upd_def)

lemma wp_whenb [wp_rules]: "wp (whenb b m) Q E s = (if b then wp m Q E s else Q () s)"
  by (simp add: whenb_def wp_ret)

lemma wp_deref [wp_rules]:
  "wp (deref f) Q E s = (case f s of None \<Rightarrow> E NullDeref s | Some a \<Rightarrow> Q a s)"
  by (simp add: wp_def deref_def split: option.splits)

lemma wp_if [wp_rules]: "wp (if b then m else n) Q E s = (if b then wp m Q E s else wp n Q E s)"
  by simp

lemma wp_handle [wp_rules]:
  "wp (handle m h) Q E s =
     wp m Q (\<lambda>f t. case f of Throw e \<Rightarrow> wp (h e) Q E t | _ \<Rightarrow> E f t) s"
  by (auto simp: wp_def handle_def split: prod.splits sum.splits fault.splits)

lemma wp_mono:
  "wp m Q E s \<Longrightarrow> (\<And>a t. Q a t \<Longrightarrow> Q' a t) \<Longrightarrow> (\<And>e t. E e t \<Longrightarrow> E' e t) \<Longrightarrow> wp m Q' E' s"
  by (auto simp: wp_def split: prod.splits sum.splits)

lemma wp_both:
  "wp m Q E s \<Longrightarrow> wp m Q' E' s \<Longrightarrow> wp m (\<lambda>a t. Q a t \<and> Q' a t) (\<lambda>e t. E e t \<and> E' e t) s"
  by (auto simp: wp_def split: prod.splits sum.splits)

lemma wp_run: "wp m Q E s \<Longrightarrow> wp m (\<lambda>a t. Q a t \<and> m s = (Inr a, t)) E s"
  by (auto simp: wp_def split: prod.splits sum.splits)

lemma wp_result: "wp m Q E s \<Longrightarrow> m s = (Inr a, t) \<Longrightarrow> Q a t"
  by (simp add: wp_def)

lemma wp_fault: "wp m Q E s \<Longrightarrow> m s = (Inl e, t) \<Longrightarrow> E e t"
  by (simp add: wp_def)

lemma wp_state: "wp m (\<lambda>_. I) (\<lambda>_. I) s \<Longrightarrow> I (snd (m s))"
  by (auto simp: wp_def split: prod.splits sum.splits)

abbreviation throws :: "('s \<Rightarrow> bool) \<Rightarrow> fault \<Rightarrow> 's \<Rightarrow> bool" where
  "throws I f t \<equiv> I t \<and> (\<exists>e. f = Throw e)"

text \<open>
  Operations that keep a predicate, and fail in states with \<open>E\<close> only, compose. \<open>never\<close>
  is the \<open>E\<close> of operations that cannot fail.
\<close>

definition keeps :: "('s \<Rightarrow> bool) \<Rightarrow> (fault \<Rightarrow> 's \<Rightarrow> bool) \<Rightarrow> ('s, 'a) op \<Rightarrow> bool" where
  "keeps I E m \<longleftrightarrow> (\<forall>s. I s \<longrightarrow> wp m (\<lambda>_. I) E s)"

abbreviation never :: "fault \<Rightarrow> 's \<Rightarrow> bool" where
  "never f t \<equiv> False"

named_theorems keeps_rules "operations that keep a predicate"

lemma keepsD: "keeps I E m \<Longrightarrow> I s \<Longrightarrow> wp m (\<lambda>_. I) E s"
  by (simp add: keeps_def)

lemma keeps_ret [keeps_rules]: "keeps I E (ret a)"
  by (simp add: keeps_def wp_rules)

lemma keeps_throw [keeps_rules]: "keeps I (throws I) (fail (Throw e))"
  by (simp add: keeps_def wp_rules)

lemma keeps_bnd [keeps_rules]:
  assumes m: "keeps I E m" and f: "\<And>a. keeps I E (f a)"
  shows "keeps I E (bnd m f)"
  unfolding keeps_def wp_bnd
proof (intro allI impI)
  fix s
  assume "I s"
  show "wp m (\<lambda>a. wp (f a) (\<lambda>_. I) E) E s"
    by (rule wp_mono [OF keepsD [OF m \<open>I s\<close>]]) (use f in \<open>auto simp: keeps_def\<close>)
qed

lemma keeps_thn [keeps_rules]: "keeps I E m \<Longrightarrow> keeps I E n \<Longrightarrow> keeps I E (thn m n)"
  by (simp add: thn_def keeps_bnd)

lemma keeps_whenb [keeps_rules]: "keeps I E m \<Longrightarrow> keeps I E (whenb b m)"
  by (simp add: whenb_def keeps_ret)

lemma keeps_if [keeps_rules]: "keeps I E m \<Longrightarrow> keeps I E n \<Longrightarrow> keeps I E (if b then m else n)"
  by simp

lemma keeps_gets [keeps_rules]: "keeps I E (gets f)"
  by (simp add: keeps_def wp_rules)

lemma keeps_upd: "(\<And>s. I s \<Longrightarrow> I (f s)) \<Longrightarrow> keeps I E (upd f)"
  by (simp add: keeps_def wp_rules)

lemmas op_defs = ret_def fail_def lift_op_def bnd_def thn_def gets_def upd_def whenb_def deref_def handle_def

section \<open>Buffers\<close>

text \<open>
  \<^verbatim>\<open>std::copy_n(src + start, n, dst)\<close>: the bytes that arrive in \<open>dst\<close>, or undefined
  behaviour when the source does not have them.
\<close>

definition copy_range :: "byte list \<Rightarrow> nat \<Rightarrow> nat \<Rightarrow> fault + byte list" where
  "copy_range src start n =
     (if start + n \<le> length src then Inr (take n (drop start src)) else Inl OutOfBounds)"

lemma copy_range_ok [simp]:
  "start + n \<le> length src \<Longrightarrow> copy_range src start n = Inr (take n (drop start src))"
  by (simp add: copy_range_def)

text \<open>Subtraction of \<^verbatim>\<open>std::size_t\<close> values wraps around.\<close>

definition size_sub :: "nat \<Rightarrow> nat \<Rightarrow> nat" where
  "size_sub a b = (if b \<le> a then a - b else 2 ^ 64 + a - b)"

lemma size_sub_le [simp]: "b \<le> a \<Longrightarrow> size_sub a b = a - b"
  by (simp add: size_sub_def)

section \<open>Strings\<close>

text \<open>\<^verbatim>\<open>strstr(text, word) != nullptr\<close>.\<close>

primrec contains :: "string \<Rightarrow> string \<Rightarrow> bool" where
  "contains word [] = (word = [])"
| "contains word (c # cs) = (take (length word) (c # cs) = word \<or> contains word cs)"

section \<open>First-in first-out buffers\<close>

text \<open>The loop \<^verbatim>\<open>while (x = pop())\<close>: what it pops until the buffer gives nothing more.\<close>

partial_function (option) pop_all ::
  "('q \<Rightarrow> 'a option \<times> 'q) \<Rightarrow> 'q \<Rightarrow> ('a list \<times> 'q) option" where
  "pop_all pop q =
     (case pop q of
        (None, q') \<Rightarrow> Some ([], q')
      | (Some x, q') \<Rightarrow> Option.bind (pop_all pop q') (\<lambda>(xs, r). Some (x # xs, r)))"

locale fifo =
  fixes contents :: "'q \<Rightarrow> 'a list"
    and push :: "'a \<Rightarrow> 'q \<Rightarrow> 'q"
    and pop :: "'q \<Rightarrow> 'a option \<times> 'q"
  assumes contents_push: "contents (push x q) = contents q @ [x]"
    and pop_empty: "contents q = [] \<Longrightarrow> pop q = (None, q)"
    and pop_front: "contents q = x # xs \<Longrightarrow> fst (pop q) = Some x \<and> contents (snd (pop q)) = xs"
begin

lemma contents_fold_push: "contents (fold push xs q) = contents q @ xs"
  by (induction xs arbitrary: q) (simp_all add: contents_push)

lemma pop_all_empties:
  "\<exists>r. pop_all pop q = Some (contents q, r) \<and> contents r = []"
proof (induction "contents q" arbitrary: q)
  case Nil
  then show ?case by (simp add: pop_all.simps [of pop q] pop_empty)
next
  case (Cons x xs)
  from pop_front [OF Cons.hyps(2) [symmetric]] obtain q' where
    p: "pop q = (Some x, q')" and c: "contents q' = xs"
    by (cases "pop q") auto
  from Cons.hyps(1) [OF c [symmetric]] obtain r where
    "pop_all pop q' = Some (contents q', r)" and "contents r = []" by blast
  with p c Cons.hyps(2) show ?case by (simp add: pop_all.simps [of pop q])
qed

lemma pop_none_iff: "fst (pop q) = None \<longleftrightarrow> contents q = []"
  using pop_empty [of q] pop_front [of q] by (cases "contents q") auto

end

section \<open>Machines that keep an invariant\<close>

locale stepper =
  fixes step :: "'s \<Rightarrow> 'e \<Rightarrow> 's"
    and inv :: "'s \<Rightarrow> bool"
  assumes step_inv: "inv s \<Longrightarrow> inv (step s e)"
begin

lemma run_inv: "inv s \<Longrightarrow> inv (foldl step s es)"
  by (induction es arbitrary: s) (simp_all add: step_inv)

end

text \<open>
  Machines whose actions may end in undefined behaviour, after which nothing is said any
  more: \<open>runs\<close> relates the states before and after allowed actions that came back.
\<close>

inductive runs :: "('e \<Rightarrow> ('s, unit) op) \<Rightarrow> ('e \<Rightarrow> bool) \<Rightarrow> 's \<Rightarrow> 's \<Rightarrow> bool"
  for act allowed where
  runs_none: "runs act allowed s s"
| runs_more: "runs act allowed s t \<Longrightarrow> allowed e \<Longrightarrow> act e t = (Inr (), u) \<Longrightarrow> runs act allowed s u"

locale partial_machine =
  fixes act :: "'e \<Rightarrow> ('s, unit) op"
    and allowed :: "'e \<Rightarrow> bool"
    and inv :: "'s \<Rightarrow> bool"
  assumes act_inv: "inv s \<Longrightarrow> allowed e \<Longrightarrow> act e s = (Inr (), t) \<Longrightarrow> inv t"
begin

lemma runs_inv: "runs act allowed s t \<Longrightarrow> inv s \<Longrightarrow> inv t"
  by (induction rule: runs.induct) (auto intro: act_inv)

end

end
