(* ===== verification/Video_Codec.thy ===== *)
theory Video_Codec
  imports Prelude "HOL-Library.Char_ord"
begin

text \<open>
  The codecs of \<^verbatim>\<open>src/src/video_codec.h\<close> and their names: as displayed
  (\<open>videoCodecName\<close>), in a session description (\<open>fromRTSPCodecName\<close>), and as a
  value of the publisher's \<^verbatim>\<open>codec\<close> parameter (\<open>CODEC_NAMES\<close> and the loop of
  \<^verbatim>\<open>PublisherPlugin::updateParameters\<close> that canonicalises the parameter).
\<close>

section \<open>The codecs\<close>

datatype video_codec = Unknown | H264 | H265 | MPEG4 | VP8 | VP9 | AV1 | MJPEG

primrec codec_value :: "video_codec \<Rightarrow> int" where
  "codec_value Unknown = -1"
| "codec_value H264 = 0"
| "codec_value H265 = 1"
| "codec_value MPEG4 = 2"
| "codec_value VP8 = 3"
| "codec_value VP9 = 4"
| "codec_value AV1 = 5"
| "codec_value MJPEG = 1001"

text \<open>The order of the enumerators, which orders the keys of the \<^verbatim>\<open>std::map\<close>s over codecs.\<close>

instantiation video_codec :: linorder
begin

definition less_eq_video_codec :: "video_codec \<Rightarrow> video_codec \<Rightarrow> bool" where
  "less_eq_video_codec a b \<longleftrightarrow> codec_value a \<le> codec_value b"

definition less_video_codec :: "video_codec \<Rightarrow> video_codec \<Rightarrow> bool" where
  "less_video_codec a b \<longleftrightarrow> codec_value a < codec_value b"

lemma codec_value_inject: "codec_value a = codec_value b \<longleftrightarrow> a = b"
  by (cases a; cases b) simp_all

instance
  by standard
    (auto simp: less_eq_video_codec_def less_video_codec_def codec_value_inject [symmetric])

end

primrec videoCodecName :: "video_codec \<Rightarrow> string" where
  "videoCodecName H264 = ''H.264''"
| "videoCodecName H265 = ''H.265''"
| "videoCodecName MPEG4 = ''MPEG-4''"
| "videoCodecName VP8 = ''VP8''"
| "videoCodecName VP9 = ''VP9''"
| "videoCodecName AV1 = ''AV1''"
| "videoCodecName MJPEG = ''Motion JPEG''"
| "videoCodecName Unknown = ''unsupported codec''"

definition fromRTSPCodecName :: "string \<Rightarrow> video_codec" where
  "fromRTSPCodecName name =
     (if name = ''H264'' then H264
      else if name = ''H265'' then H265
      else if name = ''MP4V-ES'' then MPEG4
      else if name = ''VP8'' then VP8
      else if name = ''VP9'' then VP9
      else if name = ''JPEG'' then MJPEG
      else if name = ''AV1'' then AV1
      else Unknown)"

text \<open>Codecs whose streams are H.26x byte streams, which the code treats in NAL units.\<close>

definition is_h26x :: "video_codec \<Rightarrow> bool" where
  "is_h26x c \<longleftrightarrow> c = H264 \<or> c = H265"

section \<open>The codec parameter of the publisher\<close>

definition CODEC_NAMES :: "(string \<times> video_codec) list" where
  "CODEC_NAMES =
     [(''H264'', H264), (''AVC'', H264), (''H265'', H265), (''HEVC'', H265),
      (''MPEG4'', MPEG4), (''VP8'', VP8), (''VP9'', VP9), (''AV1'', AV1)]"

text \<open>One turn of the canonicalising loop: the characters that it pushes for \<open>ch\<close>.\<close>

definition canon_char :: "char \<Rightarrow> string" where
  "canon_char ch0 =
     (let ch = (if CHR ''a'' \<le> ch0 \<and> ch0 \<le> CHR ''z'' then char_of (of_char ch0 - (32::nat)) else ch0)
      in (if CHR ''A'' \<le> ch \<and> ch \<le> CHR ''Z'' then [ch] else []) @
         (if CHR ''0'' \<le> ch \<and> ch \<le> CHR ''9'' then [ch] else []))"

primrec canon :: "string \<Rightarrow> string" where
  "canon [] = []"
| "canon (ch # cs) = canon_char ch @ canon cs"

definition codec_of_param :: "string \<Rightarrow> video_codec" where
  "codec_of_param codec_str =
     (case map_of CODEC_NAMES (canon codec_str) of Some c \<Rightarrow> c | None \<Rightarrow> Unknown)"

subsection \<open>Canonical names\<close>

lemma char_le_code: "(a \<le> b) = ((of_char a :: nat) \<le> of_char b)"
  by (simp add: less_eq_char_def)

definition canonical :: "char \<Rightarrow> bool" where
  "canonical ch \<longleftrightarrow> CHR ''A'' \<le> ch \<and> ch \<le> CHR ''Z'' \<or> CHR ''0'' \<le> ch \<and> ch \<le> CHR ''9''"

lemma canon_char_canonical: "canonical ch \<Longrightarrow> canon_char ch = [ch]"
  by (auto simp: canonical_def canon_char_def char_le_code)

lemma canon_char_set: "c \<in> set (canon_char ch) \<Longrightarrow> canonical c"
  by (auto simp: canonical_def canon_char_def Let_def split: if_splits)

lemma canon_set: "c \<in> set (canon s) \<Longrightarrow> canonical c"
  by (induction s) (auto dest: canon_char_set)

lemma canon_fixed: "(\<And>c. c \<in> set s \<Longrightarrow> canonical c) \<Longrightarrow> canon s = s"
  by (induction s) (simp_all add: canon_char_canonical)

lemma canon_idem: "canon (canon s) = canon s"
  by (rule canon_fixed) (rule canon_set)

lemma canon_append: "canon (s @ t) = canon s @ canon t"
  by (induction s) simp_all

text \<open>
  The codec parameter is read without regard to case and punctuation, and the name
  that the code displays for a codec is accepted as a parameter value for that codec,
  for exactly the codecs that the publisher can encode.
\<close>

theorem codec_param_roundtrip:
  "codec_of_param (videoCodecName c) = (if c \<in> {H264, H265, MPEG4, VP8, VP9, AV1} then c else Unknown)
   \<and> codec_of_param (canon s) = codec_of_param s"
  by (cases c) (simp_all add: codec_of_param_def CODEC_NAMES_def canon_idem canon_char_def
      char_le_code Let_def)

end
