(* ===== verification/Frame_Data.thy ===== *)
theory Frame_Data
  imports Prelude
begin

text \<open>
  The frames that travel between the parts of the program
  (\<^verbatim>\<open>src/src/frame_data.h\<close>, \<^verbatim>\<open>src/src/frame_data.cpp\<close>): a copy of the payload,
  padded with zero bytes as FFmpeg demands, its length and its time stamp. The padding
  \<^verbatim>\<open>AV_INPUT_BUFFER_PADDING_SIZE\<close> is a constant of FFmpeg and the parameter \<open>pad\<close>.
\<close>

record frame_data =
  fdata :: "byte list"
  flength :: nat
  fstamp :: stamp

text \<open>The constructor copies \<open>n\<close> bytes found at offset \<open>start\<close> of \<open>src\<close>.\<close>

definition FrameData :: "nat \<Rightarrow> byte list \<Rightarrow> nat \<Rightarrow> nat \<Rightarrow> stamp \<Rightarrow> fault + frame_data" where
  "FrameData pad src start n stamp =
     (case copy_range src start n of
        Inl e \<Rightarrow> Inl e
      | Inr bytes \<Rightarrow> Inr \<lparr>fdata = bytes @ replicate pad 0, flength = n, fstamp = stamp\<rparr>)"

definition setStamp :: "stamp \<Rightarrow> frame_data \<Rightarrow> frame_data" where
  "setStamp stamp f = f\<lparr>fstamp := stamp\<rparr>"

text \<open>The bytes that a frame carries, without the padding.\<close>

definition payload :: "frame_data \<Rightarrow> byte list" where
  "payload f = take (flength f) (fdata f)"

text \<open>What the constructor establishes and the program never changes.\<close>

definition frame_ok :: "nat \<Rightarrow> frame_data \<Rightarrow> bool" where
  "frame_ok pad f \<longleftrightarrow> length (fdata f) = flength f + pad \<and> drop (flength f) (fdata f) = replicate pad 0"

definition mk_frame :: "nat \<Rightarrow> byte list \<Rightarrow> stamp \<Rightarrow> frame_data" where
  "mk_frame pad bytes stamp =
     \<lparr>fdata = bytes @ replicate pad 0, flength = length bytes, fstamp = stamp\<rparr>"

lemma payload_mk_frame [simp]: "payload (mk_frame pad bytes stamp) = bytes"
  by (simp add: payload_def mk_frame_def)

lemma stamp_mk_frame [simp]: "fstamp (mk_frame pad bytes stamp) = stamp"
  by (simp add: mk_frame_def)

lemma length_mk_frame [simp]: "flength (mk_frame pad bytes stamp) = length bytes"
  by (simp add: mk_frame_def)

lemma FrameData_eq:
  "FrameData pad src start n stamp =
     (if start + n \<le> length src then Inr (mk_frame pad (take n (drop start src)) stamp)
      else Inl OutOfBounds)"
  by (simp add: FrameData_def mk_frame_def copy_range_def)

lemma frame_ok_mk_frame [simp, intro]: "frame_ok pad (mk_frame pad bytes stamp)"
  by (simp add: frame_ok_def mk_frame_def)

lemma frame_ok_setStamp: "frame_ok pad (setStamp stamp f) = frame_ok pad f"
  by (simp add: frame_ok_def setStamp_def)

lemma length_payload: "frame_ok pad f \<Longrightarrow> length (payload f) = flength f"
  by (simp add: frame_ok_def payload_def)

text \<open>Copying a frame's bytes out again succeeds for every count up to its length.\<close>

lemma copy_frame:
  "frame_ok pad f \<Longrightarrow> n \<le> flength f \<Longrightarrow> copy_range (fdata f) 0 n = Inr (take n (payload f))"
  by (simp add: frame_ok_def payload_def copy_range_def min_absorb1)

end
