(* ===== verification/Nal_Split.thy ===== *)
theory Nal_Split
  imports Frame_Data
begin

text \<open>
  The scanner for H.264/H.265 start codes and the splitter of an encoded packet into NAL
  units (\<^verbatim>\<open>scanForStartCode\<close> and \<^verbatim>\<open>splitNALs\<close> of \<^verbatim>\<open>src/src/stream_encoder.cpp\<close>). Every
  read \<^verbatim>\<open>data[i]\<close> outside of the packet is undefined behaviour and ends the scan with
  \<open>OutOfBounds\<close>; the loop bound \<^verbatim>\<open>length - 4\<close> wraps around for short packets.
\<close>

section \<open>The scanner and the splitter\<close>

datatype scan_result = Found nat nat | NotFound | BadRead

text \<open>One turn of the loop: it ends with a result, or goes on at a later position.\<close>

definition scan_turn :: "byte list \<Rightarrow> nat \<Rightarrow> nat \<Rightarrow> scan_result + nat" where
  "scan_turn d lim i =
     (if i < lim then
        if length d \<le> i + 2 then Inl BadRead
        else if d ! (i + 2) = 1 then
          if d ! i = 0 \<and> d ! (i + 1) = 0 then Inl (Found i 3)
          else Inr (i + 3)
        else if length d \<le> i + 3 then Inl BadRead
        else if d ! (i + 3) = 1 then
          if d ! i = 0 \<and> d ! (i + 1) = 0 \<and> d ! (i + 2) = 0 then Inl (Found i 4)
          else Inr (i + 4)
        else if d ! (i + 3) \<noteq> 0 then Inr (i + 4)
        else if d ! (i + 2) \<noteq> 0 then Inr (i + 3)
        else if d ! (i + 1) \<noteq> 0 then Inr (i + 2)
        else Inr (i + 1)
      else Inl NotFound)"

lemma scan_turn_Inr: "scan_turn d lim i = Inr j \<Longrightarrow> i < j \<and> j \<le> i + 4 \<and> i < lim \<and> j \<le> length d"
  by (auto simp: scan_turn_def split: if_splits)

function scan_loop :: "byte list \<Rightarrow> nat \<Rightarrow> nat \<Rightarrow> scan_result" where
  "scan_loop d lim i =
     (case scan_turn d lim i of Inl r \<Rightarrow> r | Inr j \<Rightarrow> scan_loop d lim j)"
  by pat_completeness auto
termination
  by (relation "measure (\<lambda>(d, lim, i). lim - i)") (auto dest!: scan_turn_Inr)

declare scan_loop.simps [simp del]

definition scanForStartCode :: "byte list \<Rightarrow> nat \<Rightarrow> scan_result" where
  "scanForStartCode d offset = scan_loop d (size_sub (length d) 4) offset"

lemma scan_Inl: "scan_turn d (size_sub (length d) 4) i = Inl r \<Longrightarrow> scanForStartCode d i = r"
  by (simp add: scanForStartCode_def scan_loop.simps [of d _ i])

lemma scan_Inr:
  "scan_turn d (size_sub (length d) 4) i = Inr j \<Longrightarrow> scanForStartCode d i = scanForStartCode d j"
  by (simp add: scanForStartCode_def scan_loop.simps [of d _ i])

text \<open>What a successful scan reports: the position and length of a start code.\<close>

definition code_at :: "byte list \<Rightarrow> nat \<Rightarrow> nat \<Rightarrow> bool" where
  "code_at d p n \<longleftrightarrow> p + n \<le> length d \<and>
     (n = 3 \<and> take 3 (drop p d) = [0, 0, 1] \<or> n = 4 \<and> take 4 (drop p d) = [0, 0, 0, 1])"

lemma code_at_3: "code_at d p 3 \<longleftrightarrow> p + 3 \<le> length d \<and> d ! p = 0 \<and> d ! (p + 1) = 0 \<and> d ! (p + 2) = 1"
  by (auto simp: code_at_def eval_nat_numeral take_Suc_conv_app_nth)

lemma code_at_4:
  "code_at d p 4 \<longleftrightarrow>
     p + 4 \<le> length d \<and> d ! p = 0 \<and> d ! (p + 1) = 0 \<and> d ! (p + 2) = 0 \<and> d ! (p + 3) = 1"
  by (auto simp: code_at_def eval_nat_numeral take_Suc_conv_app_nth)

lemma code_at_length: "code_at d p n \<Longrightarrow> n = 3 \<or> n = 4"
  by (auto simp: code_at_def)

lemma scan_turn_Found: "scan_turn d lim i = Inl (Found p n) \<Longrightarrow> p = i \<and> i < lim \<and> code_at d i n"
  by (auto simp: scan_turn_def code_at_3 code_at_4 split: if_splits)

lemma scan_loop_Found: "scan_loop d lim i = Found p n \<Longrightarrow> i \<le> p \<and> p < lim \<and> code_at d p n"
proof (induction d lim i rule: scan_loop.induct)
  case (1 d lim i)
  show ?case
  proof (cases "scan_turn d lim i")
    case (Inl r)
    with "1.prems" show ?thesis
      by (auto simp: scan_loop.simps [of d lim i] dest: scan_turn_Found)
  next
    case (Inr j)
    with "1.prems" "1.IH" show ?thesis
      by (fastforce simp: scan_loop.simps [of d lim i] dest: scan_turn_Inr)
  qed
qed

lemma scan_Found_bounds:
  "scanForStartCode d off = Found p n \<Longrightarrow> off \<le> p \<and> p + n \<le> length d \<and> 0 < n"
  unfolding scanForStartCode_def by (drule scan_loop_Found) (auto simp: code_at_def)

text \<open>
  \<^verbatim>\<open>splitNALs\<close>: the second loop, entered behind the first start code. The result is the
  container that received the frames and the number of frames; \<open>None\<close> is undefined
  behaviour. Offsets are subtracted as \<^verbatim>\<open>std::size_t\<close> values.
\<close>

function split_loop ::
  "nat \<Rightarrow> byte list \<Rightarrow> stamp \<Rightarrow> nat \<Rightarrow> frame_data list \<Rightarrow> nat \<Rightarrow> (frame_data list \<times> nat) option" where
  "split_loop pad d stamp nal_start out count =
     (case scanForStartCode d nal_start of
        BadRead \<Rightarrow> None
      | Found nal_end sc_len \<Rightarrow>
          (case FrameData pad d nal_start (size_sub nal_end nal_start) stamp of
             Inl _ \<Rightarrow> None
           | Inr f \<Rightarrow> split_loop pad d stamp (nal_end + sc_len) (out @ [f]) (count + 1))
      | NotFound \<Rightarrow>
          (case FrameData pad d nal_start (size_sub (length d) nal_start) stamp of
             Inl _ \<Rightarrow> None
           | Inr f \<Rightarrow> Some (out @ [f], count + 1)))"
  by pat_completeness auto
termination
  by (relation "measure (\<lambda>(pad, d, stamp, nal_start, out, count). length d - nal_start)")
    (auto dest!: scan_Found_bounds)

declare split_loop.simps [simp del]

definition splitNALs ::
  "nat \<Rightarrow> frame_data list \<Rightarrow> byte list \<Rightarrow> stamp \<Rightarrow> (frame_data list \<times> nat) option" where
  "splitNALs pad out d stamp =
     (case scanForStartCode d 0 of
        BadRead \<Rightarrow> None
      | NotFound \<Rightarrow> Some (out, 0)
      | Found nal_start sc_len \<Rightarrow> split_loop pad d stamp (nal_start + sc_len) out 0)"

section \<open>What the scanner finds and what it passes over\<close>

lemma scan_turn_BadRead: "scan_turn d lim i = Inl BadRead \<Longrightarrow> i < lim \<and> length d \<le> i + 3"
  by (auto simp: scan_turn_def split: if_splits)

lemma scan_loop_BadRead: "scan_loop d lim i = BadRead \<Longrightarrow> length d < lim + 3"
proof (induction d lim i rule: scan_loop.induct)
  case (1 d lim i)
  then show ?case
    by (cases "scan_turn d lim i")
      (auto simp: scan_loop.simps [of d lim i] dest: scan_turn_BadRead)
qed

lemma scan_safe: "4 \<le> length d \<Longrightarrow> scanForStartCode d off \<noteq> BadRead"
  by (auto simp: scanForStartCode_def dest: scan_loop_BadRead)

lemma scan_short:
  assumes len: "length d < 4" and ne: "d \<noteq> [0, 0, 1]"
  shows "scanForStartCode d 0 = BadRead"
proof -
  let ?lim = "size_sub (length d) 4"
  have lim: "4 < ?lim" using len by (simp add: size_sub_def)
  show ?thesis
  proof (cases "length d \<le> 2")
    case True
    with lim show ?thesis
      by (simp add: scanForStartCode_def scan_loop.simps [of d _ 0] scan_turn_def)
  next
    case False
    with len have l3: "length d = 3" by simp
    then obtain a b c where d: "d = [a, b, c]" by (auto simp: length_Suc_conv numeral_3_eq_3)
    have "scan_turn d ?lim 3 = Inl BadRead" using lim l3 by (simp add: scan_turn_def)
    moreover have "scan_turn d ?lim 0 = Inl BadRead \<or> scan_turn d ?lim 0 = Inr 3"
      using lim l3 ne by (auto simp: scan_turn_def d numeral_2_eq_2)
    ultimately show ?thesis
      by (auto simp: scanForStartCode_def scan_loop.simps [of d _ 0] scan_loop.simps [of d _ 3])
  qed
qed

text \<open>One turn never jumps over a long start code; it jumps over a short one only behind a
  byte that is not zero.\<close>

lemma code_at_shift:
  "code_at d (i + 1) 3 \<Longrightarrow> d ! (i + 1) = 0 \<and> d ! (i + 2) = 0 \<and> d ! (i + 3) = 1"
  "code_at d (i + 2) 3 \<Longrightarrow> d ! (i + 2) = 0 \<and> d ! (i + 3) = 0"
  "code_at d (i + 3) 3 \<Longrightarrow> d ! (i + 3) = 0"
  "code_at d (i + 1) 4 \<Longrightarrow> d ! (i + 1) = 0 \<and> d ! (i + 2) = 0 \<and> d ! (i + 3) = 0"
  "code_at d (i + 2) 4 \<Longrightarrow> d ! (i + 2) = 0 \<and> d ! (i + 3) = 0"
  "code_at d (i + 3) 4 \<Longrightarrow> d ! (i + 3) = 0"
  unfolding code_at_3 code_at_4 by (simp_all add: numeral_eq_Suc)

lemma scan_turn_skips:
  assumes turn: "scan_turn d lim i = Inr j" and "i \<le> p" and "p < j"
  shows "\<not> code_at d p 4 \<and> (code_at d p 3 \<longrightarrow> i < p \<and> d ! (p - 1) \<noteq> 0)"
proof -
  have "j \<le> i + 4" using scan_turn_Inr [OF turn] by simp
  then consider "p = i" | "p = i + 1" "i + 1 < j" | "p = i + 2" "i + 2 < j" | "p = i + 3" "i + 3 < j"
    using assms by (cases "p - i" rule: nat.exhaust) (auto simp: le_less_Suc_eq, linarith)
  then show ?thesis
  proof cases
    case 1
    with turn show ?thesis by (auto simp: scan_turn_def code_at_3 code_at_4 split: if_splits)
  next
    case 2
    with turn show ?thesis
      using code_at_shift(1,4) [of d i]
      by (auto simp: scan_turn_def code_at_3 [of d i] code_at_4 [of d i] split: if_splits)
  next
    case 3
    with turn show ?thesis
      using code_at_shift(2,5) [of d i] by (auto simp: scan_turn_def split: if_splits)
  next
    case 4
    with turn show ?thesis
      using code_at_shift(3,6) [of d i] by (auto simp: scan_turn_def split: if_splits)
  qed
qed

definition passed_over :: "byte list \<Rightarrow> nat \<Rightarrow> nat \<Rightarrow> bool" where
  "passed_over d off bound \<longleftrightarrow>
     (\<forall>q. off \<le> q \<and> q < bound \<longrightarrow>
        \<not> code_at d q 4 \<and> (code_at d q 3 \<longrightarrow> off < q \<and> d ! (q - 1) \<noteq> 0))"

lemma passed_over_turn:
  assumes turn: "scan_turn d lim i = Inr j" and rest: "passed_over d j p"
  shows "passed_over d i p"
  unfolding passed_over_def
proof (intro allI impI)
  fix q
  assume "i \<le> q \<and> q < p"
  then show "\<not> code_at d q 4 \<and> (code_at d q 3 \<longrightarrow> i < q \<and> d ! (q - 1) \<noteq> 0)"
    using scan_turn_skips [OF turn, of q] scan_turn_Inr [OF turn] rest
    by (cases "q < j") (auto simp: passed_over_def)
qed

lemma scan_loop_passed_over:
  "scan_loop d lim i = r \<Longrightarrow> r \<noteq> BadRead \<Longrightarrow>
     passed_over d i (case r of Found p n \<Rightarrow> p | _ \<Rightarrow> lim)"
proof (induction d lim i rule: scan_loop.induct)
  case (1 d lim i)
  show ?case
  proof (cases "scan_turn d lim i")
    case (Inl r')
    have "passed_over d i i" by (auto simp: passed_over_def)
    moreover have "r' = NotFound \<Longrightarrow> passed_over d i lim"
      using Inl by (auto simp: scan_turn_def passed_over_def split: if_splits)
    ultimately show ?thesis
      using Inl "1.prems" by (auto simp: scan_loop.simps [of d lim i] split: scan_result.splits
          dest!: scan_turn_Found)
  next
    case (Inr j)
    with "1.prems" "1.IH" [OF Inr] show ?thesis
      by (auto simp: scan_loop.simps [of d lim i] intro: passed_over_turn [OF Inr])
  qed
qed

lemma scan_Found:
  "4 \<le> length d \<Longrightarrow> scanForStartCode d off = Found p n \<Longrightarrow>
     off \<le> p \<and> p + 4 < length d \<and> code_at d p n \<and> passed_over d off p"
  using scan_loop_Found [of d "length d - 4" off p n]
    scan_loop_passed_over [of d "length d - 4" off "Found p n"]
  by (auto simp: scanForStartCode_def)

lemma scan_NotFound:
  "4 \<le> length d \<Longrightarrow> scanForStartCode d off = NotFound \<Longrightarrow> passed_over d off (length d - 4)"
  using scan_loop_passed_over [of d "length d - 4" off NotFound]
  by (auto simp: scanForStartCode_def)

lemma code_at_4_3: "code_at d p 4 \<Longrightarrow> code_at d (p + 1) 3"
  unfolding code_at_3 code_at_4 by (simp add: numeral_eq_Suc)

text \<open>A scan that starts on a long code, or meets one, stops at it or before it.\<close>

lemma scan_long_code:
  assumes "code_at d p 4" and "off \<le> p" and "p + 4 < length d"
  obtains q n where "scanForStartCode d off = Found q n" and "q \<le> p"
proof (cases "scanForStartCode d off")
  case (Found q n)
  with assms scan_Found [of d off q n] show ?thesis
    by (intro that [of q n]) (auto simp: passed_over_def not_less [symmetric])
next
  case NotFound
  with assms scan_NotFound [of d off] show ?thesis by (auto simp: passed_over_def)
next
  case BadRead
  with assms scan_safe [of d off] show ?thesis by auto
qed

section \<open>Splitting what was framed\<close>

text \<open>
  NAL units framed with long start codes, the form in which the units of a conforming
  byte stream come back: a unit is not empty, does not end with a zero byte (trailing bits
  end with a one bit) and holds no start code (emulation prevention).
\<close>

definition unit_ok :: "byte list \<Rightarrow> bool" where
  "unit_ok u \<longleftrightarrow> u \<noteq> [] \<and> last u \<noteq> 0 \<and> (\<forall>q < length u. \<not> code_at u q 3)"

definition framed :: "byte list list \<Rightarrow> byte list" where
  "framed us = concat (map (\<lambda>u. [0, 0, 0, 1] @ u) us)"

lemma framed_Nil [simp]: "framed [] = []"
  by (simp add: framed_def)

lemma framed_Cons [simp]: "framed (u # us) = [0, 0, 0, 1] @ u @ framed us"
  by (simp add: framed_def)

lemma code_at_append:
  "code_at (pre @ d) (length pre + q) n = code_at d q n"
  by (auto simp: code_at_def)

lemma code_at_in_unit:
  assumes u: "unit_ok u" and rest: "rest = [] \<or> (\<exists>r. rest = [0, 0, 0, 1] @ r)" and q: "q < length u"
  shows "\<not> code_at (u @ rest) q 3"
proof
  assume c: "code_at (u @ rest) q 3"
  have lastb: "u ! (length u - 1) \<noteq> 0" using u by (auto simp: unit_ok_def last_conv_nth)
  consider "q + 3 \<le> length u" | "q + 2 = length u" | "q + 1 = length u" using q by linarith
  then show False
  proof cases
    case 1
    with c have "code_at u q 3" by (simp add: code_at_3 nth_append)
    with u q show False by (simp add: unit_ok_def)
  next
    case 2
    then have "length u - 1 = q + 1" by simp
    with 2 have "(u @ rest) ! (q + 1) = u ! (length u - 1)" by (auto simp: nth_append)
    with c lastb show False by (simp add: code_at_3)
  next
    case 3
    then have "length u - 1 = q" by simp
    with 3 have "(u @ rest) ! q = u ! (length u - 1)" by (auto simp: nth_append)
    with c lastb show False by (simp add: code_at_3)
  qed
qed

text \<open>A code inside a unit, of either length, would give a short code inside it.\<close>

lemma no_code_in_unit:
  assumes u: "unit_ok u" and rest: "rest = [] \<or> (\<exists>r. rest = [0, 0, 0, 1] @ r)"
    and q: "q < length u" and n: "code_at (u @ rest) q n"
  shows False
proof -
  from code_at_length [OF n] have "code_at (u @ rest) q 3 \<or> code_at (u @ rest) (q + 1) 3"
    using n code_at_4_3 by auto
  moreover have "\<not> code_at (u @ rest) (q + 1) 3"
  proof (cases "q + 1 < length u")
    case True
    with u rest show ?thesis by (rule code_at_in_unit)
  next
    case False
    with q have "q + 1 = length u" by simp
    moreover have "rest = [] \<or> rest ! 2 \<noteq> 1" using rest by auto
    ultimately show ?thesis
      by (auto simp: code_at_3 nth_append)
  qed
  ultimately show False using code_at_in_unit [OF u rest q] by simp
qed

lemma scan_unit:
  assumes u: "unit_ok u" and rest: "rest = [] \<or> (\<exists>r. r \<noteq> [] \<and> rest = [0, 0, 0, 1] @ r)"
    and pre: "4 \<le> length pre"
  shows "scanForStartCode (pre @ u @ rest) (length pre) =
    (if rest = [] then NotFound else Found (length pre + length u) 4)"
proof -
  let ?d = "pre @ u @ rest" and ?p = "length pre + length u"
  have len: "4 \<le> length ?d" using pre by simp
  have rest': "rest = [] \<or> (\<exists>r. rest = [0, 0, 0, 1] @ r)" using rest by blast
  have inside: "\<And>q n. code_at ?d q n \<Longrightarrow> length pre \<le> q \<Longrightarrow> ?p \<le> q"
  proof (rule ccontr)
    fix q n
    assume c: "code_at ?d q n" and "length pre \<le> q" and "\<not> ?p \<le> q"
    then obtain k where q: "q = length pre + k" and k: "k < length u"
      by (metis le_Suc_ex nat_add_left_cancel_less not_le)
    from c have "code_at (u @ rest) k n" unfolding q code_at_append .
    then show False by (rule no_code_in_unit [OF u rest' k])
  qed
  show ?thesis
  proof (cases "rest = []")
    case True
    have "scanForStartCode ?d (length pre) \<noteq> Found q n" for q n
      using scan_Found [OF len, of "length pre" q n] inside [of q n] True by auto
    with scan_safe [OF len, of "length pre"] True show ?thesis
      by (cases "scanForStartCode ?d (length pre)") auto
  next
    case False
    with rest obtain r where r: "rest = [0, 0, 0, 1] @ r" "r \<noteq> []" by blast
    have d: "?d = (pre @ u) @ rest" by simp
    have c4: "code_at ?d ?p 4"
      using code_at_append [of "pre @ u" rest 0 4] r by (simp add: code_at_def)
    have n3: "\<not> code_at ?d ?p 3"
      using code_at_append [of "pre @ u" rest 0 3] r by (simp add: code_at_def)
    obtain q n where f: "scanForStartCode ?d (length pre) = Found q n" and "q \<le> ?p"
      by (rule scan_long_code [OF c4, of "length pre"]) (use r in auto)
    moreover have c: "code_at ?d q n" and "length pre \<le> q" using scan_Found [OF len f] by auto
    ultimately have "q = ?p" using inside [of q n] by simp
    moreover from this c n3 have "n = 4" using code_at_length [OF c] by auto
    ultimately show ?thesis using f False by simp
  qed
qed

text \<open>One turn of the second loop when the scan is known.\<close>

lemma split_loop_Found:
  assumes "scanForStartCode d i = Found e n"
  shows "split_loop pad d stamp i out count =
    split_loop pad d stamp (e + n) (out @ [mk_frame pad (take (e - i) (drop i d)) stamp]) (count + 1)"
  using scan_Found_bounds [OF assms] assms
  by (subst split_loop.simps) (simp add: FrameData_eq)

lemma split_loop_NotFound:
  assumes "scanForStartCode d i = NotFound" and "i \<le> length d"
  shows "split_loop pad d stamp i out count =
    Some (out @ [mk_frame pad (drop i d) stamp], count + 1)"
  using assms by (subst split_loop.simps) (simp add: FrameData_eq)

lemma split_loop_framed:
  assumes "\<forall>u \<in> set (u # us). unit_ok u" and "4 \<le> length pre"
  shows "split_loop pad (pre @ u @ framed us) stamp (length pre) out count =
    Some (out @ map (\<lambda>u. mk_frame pad u stamp) (u # us), count + 1 + length us)"
  using assms
proof (induction us arbitrary: pre u out count)
  case Nil
  then show ?case
    using scan_unit [of u "[]" pre]
    by (simp add: split_loop_NotFound)
next
  case (Cons v us)
  let ?d = "pre @ u @ framed (v # us)"
  have v: "v \<noteq> []" using Cons.prems(1) by (auto simp: unit_ok_def)
  have scan: "scanForStartCode ?d (length pre) = Found (length pre + length u) 4"
    using scan_unit [of u "framed (v # us)" pre] Cons.prems v by auto
  have d: "?d = (pre @ u @ [0, 0, 0, 1]) @ v @ framed us" by simp
  have pos: "length pre + length u + 4 = length (pre @ u @ [0, 0, 0, 1])" by simp
  have "split_loop pad ?d stamp (length pre) out count =
      split_loop pad ?d stamp (length pre + length u + 4) (out @ [mk_frame pad u stamp]) (count + 1)"
    unfolding split_loop_Found [OF scan] by simp
  also have "\<dots> = Some ((out @ [mk_frame pad u stamp]) @
      map (\<lambda>u. mk_frame pad u stamp) (v # us), (count + 1) + 1 + length us)"
    unfolding d pos by (rule Cons.IH) (use Cons.prems in auto)
  finally show ?case by simp
qed

lemma splitNALs_units:
  assumes "us \<noteq> []" and "\<forall>u \<in> set us. unit_ok u"
  shows "splitNALs pad out (framed us) stamp =
    Some (out @ map (\<lambda>u. mk_frame pad u stamp) us, length us)"
proof -
  obtain u vs where us: "us = u # vs" using assms(1) by (cases us) auto
  have u: "u \<noteq> []" using assms(2) us by (auto simp: unit_ok_def)
  have c: "code_at (framed us) 0 4" by (simp add: us code_at_def)
  obtain q n where "scanForStartCode (framed us) 0 = Found q n" and "q \<le> 0"
    by (rule scan_long_code [OF c, of 0]) (use u in \<open>auto simp: us\<close>)
  moreover from this c have "n = 4"
    using scan_Found [of "framed us" 0 q n] code_at_length [of "framed us" q n]
    by (auto simp: us code_at_def)
  ultimately show ?thesis
    using split_loop_framed [of u vs "[0, 0, 0, 1]" pad stamp out 0] assms(2)
    by (simp add: splitNALs_def us numeral_eq_Suc)
qed

text \<open>
  C3: splitting is the inverse of framing. A packet of NAL units framed with four-byte
  start codes is cut into exactly these units, in order, each one frame with the image's
  time stamp, appended to the frames that wait already; the reported count is their number.
\<close>

theorem splitNALs_framed:
  assumes "us \<noteq> []" and "\<forall>u \<in> set us. unit_ok u"
  shows "splitNALs pad out (framed us) stamp =
    Some (out @ map (\<lambda>u. mk_frame pad u stamp) us, length us)"
  by (rule splitNALs_units [OF assms])

theorem splitNALs_framed_witness:
  "splitNALs 2 [] (framed [[0x67, 0x42], [0x68], [0x65, 0, 3, 1]]) 7 =
    Some (map (\<lambda>u. mk_frame 2 u 7) [[0x67, 0x42], [0x68], [0x65, 0, 3, 1]], 3)"
proof -
  have "\<forall>u \<in> set [[0x67, 0x42], [0x68], [0x65, 0, 3, 1 :: byte]]. unit_ok u"
    by (auto simp: unit_ok_def code_at_def less_Suc_eq)
  from splitNALs_framed [OF _ this, of 2 "[]" 7] show ?thesis by simp
qed

section \<open>Any packet\<close>

text \<open>
  How a packet of any shape is to be cut from a position on: at a start code, with at least one
  byte behind it, before which none was passed over that the scanner has to report; and so on
  behind that code, until no such code is left, where the last unit extends to the end of the
  packet.
\<close>

inductive cut_from :: "byte list \<Rightarrow> nat \<Rightarrow> byte list list \<Rightarrow> bool" where
  last_unit: "passed_over d i (length d - 4) \<Longrightarrow> cut_from d i [drop i d]"
| unit_before: "i \<le> e \<Longrightarrow> e + 4 < length d \<Longrightarrow> code_at d e n \<Longrightarrow> passed_over d i e \<Longrightarrow> cut_from d (e + n) us \<Longrightarrow>
    cut_from d i (take (e - i) (drop i d) # us)"

text \<open>The whole packet: nothing is cut out of it, or all from the first code on.\<close>

definition cut_packet :: "byte list \<Rightarrow> byte list list \<Rightarrow> bool" where
  "cut_packet d us \<longleftrightarrow>
     (if us = [] then passed_over d 0 (length d - 4)
      else \<exists>p n. p + 4 < length d \<and> code_at d p n \<and> passed_over d 0 p \<and> cut_from d (p + n) us)"

lemma split_loop_cuts:
  assumes "4 \<le> length d" and "i \<le> length d"
  shows "\<exists>us. split_loop pad d stamp i out count =
      Some (out @ map (\<lambda>u. mk_frame pad u stamp) us, count + length us) \<and> us \<noteq> [] \<and> cut_from d i us"
  using assms
proof (induction pad d stamp i out count rule: split_loop.induct)
  case (1 pad d stamp i out count)
  show ?case
  proof (cases "scanForStartCode d i")
    case BadRead
    with scan_safe [OF "1.prems"(1)] show ?thesis by simp
  next
    case NotFound
    have "cut_from d i [drop i d]" by (rule last_unit [OF scan_NotFound [OF "1.prems"(1) NotFound]])
    with NotFound show ?thesis
      using "1.prems" by (intro exI [of _ "[drop i d]"]) (simp add: split_loop_NotFound)
  next
    case (Found e n)
    from scan_Found [OF "1.prems"(1) Found] have i: "i \<le> e"
      and code: "e + 4 < length d" "code_at d e n" "passed_over d i e" by auto
    from scan_Found_bounds [OF Found] have e: "e + n \<le> length d" by simp
    let ?f = "mk_frame pad (take (e - i) (drop i d)) stamp"
    have frame: "FrameData pad d i (size_sub e i) stamp = Inr ?f"
      using i e by (simp add: FrameData_eq)
    from "1.IH" [OF Found frame "1.prems"(1) e] obtain us where
      eq: "split_loop pad d stamp (e + n) (out @ [?f]) (count + 1) =
        Some ((out @ [?f]) @ map (\<lambda>u. mk_frame pad u stamp) us, count + 1 + length us)"
      and us: "us \<noteq> []" "cut_from d (e + n) us" by blast
    from unit_before [OF i code us(2)] eq show ?thesis
      unfolding split_loop_Found [OF Found]
      by (intro exI [of _ "take (e - i) (drop i d) # us"]) simp
  qed
qed

text \<open>From the first code on, a packet that is cut like this is codes and units in turn.\<close>

definition codes_ok :: "byte list list \<Rightarrow> bool" where
  "codes_ok cs \<longleftrightarrow> set cs \<subseteq> {[0, 0, 1], [0, 0, 0, 1]}"

lemma code_bytes: "code_at d p n \<Longrightarrow> codes_ok [take n (drop p d)]"
  by (auto simp: code_at_def codes_ok_def)

lemma drop_code: "i \<le> e \<Longrightarrow> drop i d = take (e - i) (drop i d) @ take n (drop e d) @ drop (e + n) d"
  by (metis append_take_drop_id drop_drop le_add_diff_inverse2 add.commute)

lemma cut_from_bytes:
  "cut_from d i us \<Longrightarrow> \<exists>cs. length us = Suc (length cs) \<and> codes_ok cs \<and>
    drop i d = hd us @ concat (map2 (@) cs (tl us))"
proof (induction rule: cut_from.induct)
  case (last_unit d i)
  then show ?case by (intro exI [of _ "[]"]) (simp add: codes_ok_def)
next
  case (unit_before i e d n us)
  then obtain cs where cs: "length us = Suc (length cs)" "codes_ok cs"
    "drop (e + n) d = hd us @ concat (map2 (@) cs (tl us))" by blast
  then show ?case using drop_code [OF unit_before(1), of d n] code_bytes [OF unit_before(3)]
    by (intro exI [of _ "take n (drop e d) # cs"]) (cases us, simp_all add: codes_ok_def)
qed

lemma cut_packet_bytes:
  assumes "cut_packet d us"
  shows "\<exists>cs prefix. length cs = length us \<and> codes_ok cs \<and> (us \<noteq> [] \<longrightarrow> d = prefix @ concat (map2 (@) cs us))"
proof (cases "us = []")
  case True
  then show ?thesis by (intro exI [of _ "[]"]) (simp add: codes_ok_def)
next
  case False
  with assms obtain p n where c: "code_at d p n" and rest: "cut_from d (p + n) us" by (auto simp: cut_packet_def)
  from cut_from_bytes [OF rest] obtain cs where cs: "length us = Suc (length cs)" "codes_ok cs"
    "drop (p + n) d = hd us @ concat (map2 (@) cs (tl us))" by blast
  then show ?thesis using drop_code [of 0 p d n] code_bytes [OF c]
    by (intro exI [of _ "take n (drop p d) # cs"] exI [of _ "take p d"]) (cases us, simp_all add: codes_ok_def)
qed

text \<open>Whatever the packet looks like, well-formed frames are appended and counted.\<close>

lemma split_loop_appends:
  "split_loop pad d stamp i out count = Some (out', n) \<Longrightarrow>
    \<exists>us. out' = out @ map (\<lambda>u. mk_frame pad u stamp) us \<and> n = count + length us"
proof (induction pad d stamp i out count rule: split_loop.induct)
  case (1 pad d stamp i out count)
  show ?case
  proof (cases "scanForStartCode d i")
    case (Found e k)
    let ?u = "take (e - i) (drop i d)"
    have i: "i \<le> e" and e: "e + k \<le> length d" using scan_Found_bounds [OF Found] by auto
    then have frame: "FrameData pad d i (size_sub e i) stamp = Inr (mk_frame pad ?u stamp)"
      by (simp add: FrameData_eq)
    from "1.prems" have "split_loop pad d stamp (e + k) (out @ [mk_frame pad ?u stamp]) (count + 1) =
        Some (out', n)" by (simp add: split_loop_Found [OF Found])
    from "1.IH" [OF Found frame this] obtain us where
      "out' = (out @ [mk_frame pad ?u stamp]) @ map (\<lambda>u. mk_frame pad u stamp) us"
      "n = count + 1 + length us" by blast
    then show ?thesis by (intro exI [of _ "?u # us"]) simp
  next
    case BadRead
    with "1.prems" show ?thesis by (simp add: split_loop.simps)
  next
    case NotFound
    have "size_sub (length d) i = length d - i \<or> \<not> i \<le> length d" by auto
    with NotFound "1.prems" show ?thesis
      by (intro exI [of _ "[take (size_sub (length d) i) (drop i d)]"])
        (simp add: split_loop.simps FrameData_eq split: if_splits)
  qed
qed

lemma splitNALs_appends:
  "splitNALs pad out d stamp = Some (out', n) \<Longrightarrow>
    \<exists>us. out' = out @ map (\<lambda>u. mk_frame pad u stamp) us \<and> n = length us"
  using split_loop_appends [of pad d stamp _ out 0 out' n]
  by (fastforce simp: splitNALs_def split: scan_result.splits)

lemma splitNALs_cut:
  assumes "4 \<le> length d"
  shows "\<exists>us. splitNALs pad out d stamp = Some (out @ map (\<lambda>u. mk_frame pad u stamp) us, length us) \<and> cut_packet d us"
proof (cases "scanForStartCode d 0")
  case BadRead
  with scan_safe [OF assms] show ?thesis by simp
next
  case NotFound
  from scan_NotFound [OF assms NotFound] NotFound show ?thesis
    by (intro exI [of _ "[]"]) (simp add: splitNALs_def cut_packet_def)
next
  case (Found p n)
  from scan_Found_bounds [OF Found] have "p + n \<le> length d" by simp
  from split_loop_cuts [OF assms this, of pad stamp out 0] obtain us where
    "split_loop pad d stamp (p + n) out 0 = Some (out @ map (\<lambda>u. mk_frame pad u stamp) us, length us)"
    "us \<noteq> []" "cut_from d (p + n) us" by auto
  with scan_Found [OF assms Found] Found show ?thesis
    by (intro exI [of _ us]) (auto simp: splitNALs_def cut_packet_def)
qed

text \<open>
  C4: how a packet is cut, whatever it looks like. For every packet of at least four bytes the
  splitter returns normally. The frames that it appends, whose number is the reported count,
  are the units between the start codes, from the first one that it finds to the end of the packet:
  the bytes before that code and the codes themselves are left out, all others are in exactly one
  frame, in their order. No four-byte code that has a byte behind it is passed over, and a three-byte one
  only where a byte other than zero precedes it, or within the last four bytes; these, and
  nothing else, may be left inside of a unit, or in front of the first one. If nothing is
  appended, then there is no code but those in the whole packet.
\<close>

theorem splitNALs_cuts:
  assumes "4 \<le> length d"
  shows "\<exists>us cs prefix.
    splitNALs pad out d stamp =
      Some (out @ map (\<lambda>u. mk_frame pad u stamp) us, length us) \<and>
    cut_packet d us \<and>
    length cs = length us \<and> codes_ok cs \<and> (us \<noteq> [] \<longrightarrow> d = prefix @ concat (map2 (@) cs us))"
  using splitNALs_cut [OF assms] cut_packet_bytes by metis

theorem splitNALs_cuts_witness:
  "\<exists>us cs prefix.
    splitNALs 2 [] [0, 0, 1, 5, 6, 7, 0, 0, 0, 1, 8, 9] 3 =
      Some (map (\<lambda>u. mk_frame 2 u 3) us, length us) \<and> length us = 2 \<and>
    cut_packet [0, 0, 1, 5, 6, 7, 0, 0, 0, 1, 8, 9] us \<and> length cs = 2 \<and>
    [0, 0, 1, 5, 6, 7, 0, 0, 0, 1, 8, 9] = prefix @ concat (map2 (@) cs us)"
proof -
  have "map_option snd (splitNALs 2 [] [0, 0, 1, 5, 6, 7, 0, 0, 0, 1, 8, 9] 3) = Some 2" by code_simp
  with splitNALs_cuts [of "[0, 0, 1, 5, 6, 7, 0, 0, 0, 1, 8, 9]" 2 "[]" 3] show ?thesis by fastforce
qed

text \<open>
  What the scanner reports, and what it may miss. On a packet of at least four bytes
  the scan ends regularly. A reported position is the position of a start code of the
  reported length at or behind the offset, with at least one byte behind it. Before that
  position (before the last four bytes when nothing is reported) the scan passed over no
  four-byte start code, and over a three-byte one only where the byte before it is not
  zero.
\<close>

theorem scan_correct:
  assumes "4 \<le> length d"
  shows "case scanForStartCode d off of
      Found p n \<Rightarrow> off \<le> p \<and> p + 4 < length d \<and> code_at d p n \<and> passed_over d off p
    | NotFound \<Rightarrow> passed_over d off (length d - 4)
    | BadRead \<Rightarrow> False"
  using scan_safe [OF assms, of off] scan_Found [OF assms, of off] scan_NotFound [OF assms, of off]
  by (auto split: scan_result.split)

theorem scan_correct_witness:
  "case scanForStartCode [7, 0, 0, 0, 1, 9] 0 of
      Found p n \<Rightarrow> 0 \<le> p \<and> p + 4 < 6 \<and> code_at [7, 0, 0, 0, 1, 9] p n \<and>
        passed_over [7, 0, 0, 0, 1, 9] 0 p
    | NotFound \<Rightarrow> passed_over [7, 0, 0, 0, 1, 9] 0 2
    | BadRead \<Rightarrow> False"
  using scan_correct [of "[7, 0, 0, 0, 1, 9]" 0]
  by (simp add: numeral_eq_Suc split: scan_result.splits)

text \<open>
  Memory safety of the scan, exactly. A scan from the start of a packet reads outside
  of it exactly when the packet has fewer than four bytes and is not the bare three-byte
  start code: the loop bound \<^verbatim>\<open>length - 4\<close> wraps around.
\<close>

theorem scan_out_of_bounds_iff:
  "scanForStartCode d 0 = BadRead \<longleftrightarrow> length d < 4 \<and> d \<noteq> [0, 0, 1]"
proof -
  have "scanForStartCode [0, 0, 1] 0 = Found 0 3"
    by (simp add: scanForStartCode_def scan_loop.simps [of "[0, 0, 1]"] scan_turn_def size_sub_def)
  then show ?thesis using scan_short [of d] scan_safe [of d 0]
    by (cases "4 \<le> length d") auto
qed

lemma scan_no_zero_bytes:
  assumes "4 \<le> length d" and "\<And>q. off \<le> q \<Longrightarrow> q < length d \<Longrightarrow> d ! q \<noteq> 0"
  shows "scanForStartCode d off = NotFound"
proof (cases "scanForStartCode d off")
  case (Found p n)
  from scan_Found [OF assms(1) Found] have "off \<le> p" "p + 4 < length d" "code_at d p n" by auto
  moreover from this have "d ! p = 0"
    using code_at_length [of d p n] by (auto simp: code_at_3 code_at_4)
  ultimately show ?thesis using assms(2) [of p] by simp
qed (use scan_safe [OF assms(1), of off] in auto)

text \<open>
  A three-byte start code can be missed. A one-byte unit followed by a three-byte
  start code and a further unit is not cut at that start code: the scanner meets the byte
  \<^verbatim>\<open>0x01\<close> as the fourth byte of its window, finds that the window is no four-byte code
  and skips all of it, although a three-byte code starts at its second byte. Both units end
  up in one frame, with the start code between them.
\<close>

theorem short_code_missed:
  assumes "x \<noteq> 0" and "ys \<noteq> []" and "0 \<notin> set ys"
  shows "code_at ([0, 0, 0, 1, x, 0, 0, 1] @ ys) 5 3 \<and>
    splitNALs pad out ([0, 0, 0, 1, x, 0, 0, 1] @ ys) stamp =
      Some (out @ [mk_frame pad ([x, 0, 0, 1] @ ys) stamp], 1)"
proof -
  let ?d = "[0, 0, 0, 1, x, 0, 0, 1] @ ys"
  have len: "4 \<le> length ?d" "4 < length ?d - 4" "size_sub (length ?d) 4 = length ?d - 4"
    using assms(2) by auto
  have tail: "scanForStartCode ?d 8 = NotFound"
    by (rule scan_no_zero_bytes [OF len(1)])
      (use assms(3) in \<open>auto simp: nth_append numeral_eq_Suc in_set_conv_nth\<close>)
  have "scan_turn ?d (length ?d - 4) 4 = Inr 8"
    using assms(1,2) by (simp add: scan_turn_def numeral_eq_Suc)
  with tail len(3) have second: "scanForStartCode ?d 4 = NotFound"
    by (metis scan_Inr)
  have "scan_turn ?d (length ?d - 4) 0 = Inl (Found 0 4)"
    using assms(2) by (simp add: scan_turn_def numeral_eq_Suc)
  with len(3) have first: "scanForStartCode ?d 0 = Found 0 4"
    by (metis scan_Inl)
  have "drop 4 ?d = [x, 0, 0, 1] @ ys" by (simp add: numeral_eq_Suc)
  with second first len show ?thesis
    by (simp add: splitNALs_def split_loop_NotFound code_at_def numeral_eq_Suc)
qed

theorem short_code_missed_witness:
  "splitNALs 0 [] [0, 0, 0, 1, 0x09, 0, 0, 1, 0x65, 0x88] 0 =
    Some ([mk_frame 0 [0x09, 0, 0, 1, 0x65, 0x88] 0], 1)"
  using short_code_missed [of "0x09" "[0x65, 0x88]" 0 "[]" 0] by simp

end
