(* ===== verification/Frame_Injector.thy ===== *)
theory Frame_Injector
  imports Frame_Data
begin

text \<open>
  The server side end of a stream (\<^verbatim>\<open>src/src/frame_injector.h\<close>,
  \<^verbatim>\<open>src/src/frame_injector.cpp\<close>): a queue of encoded frames that is filled by the
  publisher's thread and emptied by the event loop of live555. The members inherited from
  \<^verbatim>\<open>FramedSource\<close> that the code reads and writes are fields of the state; the calls
  \<^verbatim>\<open>afterGetting\<close> and \<^verbatim>\<open>handleClosure\<close> of the base class are results of the
  operations, and what live555 documents of them is written down in the section on the
  event loop.
\<close>

section \<open>The class\<close>

record injector =
  is_shutdown :: bool
  frame_queue :: "frame_data list"
  trigger_pending :: bool
  awaiting :: bool
  fMaxSize :: nat
  fFrameSize :: nat
  fNumTruncatedBytes :: nat
  fPresentationTime :: "nat \<times> nat"
  fTo :: "byte list"

datatype base_call = AfterGetting | HandleClosure

definition new_injector :: injector where
  "new_injector =
     \<lparr>is_shutdown = False, frame_queue = [], trigger_pending = False, awaiting = False,
      fMaxSize = 0, fFrameSize = 0, fNumTruncatedBytes = 0, fPresentationTime = (0, 0), fTo = []\<rparr>"

definition inj_shutdown :: "injector \<Rightarrow> injector" where
  "inj_shutdown j = j\<lparr>is_shutdown := True, frame_queue := []\<rparr>"

definition injectFrame :: "frame_data \<Rightarrow> injector \<Rightarrow> injector" where
  "injectFrame frame j =
     (if is_shutdown j then j
      else j\<lparr>frame_queue := frame_queue j @ [frame], trigger_pending := True\<rparr>)"

text \<open>The time stamp as \<^verbatim>\<open>struct timeval\<close>, computed on unsigned 64-bit nanoseconds.\<close>

definition presentation_time :: "stamp \<Rightarrow> nat \<times> nat" where
  "presentation_time t =
     (let nsec = unat (word_of_int t :: 64 word)
      in (nsec div 1000000000, nsec mod 1000000000 div 1000))"

definition inj_deliverFrame :: "injector \<Rightarrow> injector \<times> base_call list" where
  "inj_deliverFrame j =
     (if \<not> awaiting j then (j, [])
      else case frame_queue j of
        [] \<Rightarrow> (j, [])
      | frame # rest \<Rightarrow>
          let j1 = j\<lparr>frame_queue := rest\<rparr>;
              j2 = (if flength frame \<le> fMaxSize j1
                    then j1\<lparr>fFrameSize := flength frame\<rparr>
                    else j1\<lparr>fFrameSize := fMaxSize j1,
                            fNumTruncatedBytes := (flength frame - fMaxSize j1) mod 2 ^ 32\<rparr>);
              j3 = j2\<lparr>fPresentationTime := presentation_time (fstamp frame)\<rparr>;
              j4 = j3\<lparr>fTo := take (fFrameSize j3) (fdata frame)\<rparr>
          in (j4, [AfterGetting]))"

definition doGetNextFrame :: "injector \<Rightarrow> injector \<times> base_call list" where
  "doGetNextFrame j =
     (if \<not> is_shutdown j then inj_deliverFrame j else (j, [HandleClosure]))"

definition deliverFrameEvent :: "injector \<Rightarrow> injector \<times> base_call list" where
  "deliverFrameEvent j = inj_deliverFrame j"

section \<open>What one delivery hands over\<close>

record delivery =
  d_bytes :: "byte list"
  d_truncated :: nat
  d_time :: "nat \<times> nat"

definition delivery_of :: "nat \<Rightarrow> frame_data \<Rightarrow> delivery" where
  "delivery_of m frame =
     \<lparr>d_bytes = take m (payload frame), d_truncated = (flength frame - m) mod 2 ^ 32,
      d_time = presentation_time (fstamp frame)\<rparr>"

definition delivered :: "injector \<Rightarrow> delivery" where
  "delivered j =
     \<lparr>d_bytes = fTo j, d_truncated = fNumTruncatedBytes j, d_time = fPresentationTime j\<rparr>"

lemma deliverFrame_idle [simp]:
  "\<not> awaiting j \<Longrightarrow> inj_deliverFrame j = (j, [])"
  "frame_queue j = [] \<Longrightarrow> inj_deliverFrame j = (j, [])"
  by (simp_all add: inj_deliverFrame_def)

text \<open>The copy stays inside of a frame that the constructor of \<open>FrameData\<close> built.\<close>

lemma deliver_copy_in_bounds:
  "frame_ok pad f \<Longrightarrow> copy_range (fdata f) 0 (min (flength f) m) = Inr (take m (payload f))"
  by (subst copy_frame) (auto simp: payload_def min.commute)

lemma take_min_payload: "take (min (flength f) m) (fdata f) = take m (payload f)"
  by (simp add: payload_def min.commute)

text \<open>
  A delivery hands over the frame at the front of the queue, cut to the size that the
  consumer asked for, with the number of bytes cut off; live555 resets that number before
  each request.
\<close>

lemma deliverFrame_front:
  assumes "awaiting j" and "frame_queue j = f # fs" and "fNumTruncatedBytes j = 0"
  shows "snd (inj_deliverFrame j) = [AfterGetting] \<and>
    delivered (fst (inj_deliverFrame j)) = delivery_of (fMaxSize j) f \<and>
    fFrameSize (fst (inj_deliverFrame j)) = min (flength f) (fMaxSize j) \<and>
    frame_queue (fst (inj_deliverFrame j)) = fs"
  using assms take_min_payload [of f "fMaxSize j"]
  by (auto simp: inj_deliverFrame_def delivered_def delivery_of_def Let_def payload_def min_def)

lemma deliverFrame_frame [simp]:
  "is_shutdown (fst (inj_deliverFrame j)) = is_shutdown j"
  "awaiting (fst (inj_deliverFrame j)) = awaiting j"
  "trigger_pending (fst (inj_deliverFrame j)) = trigger_pending j"
  "fMaxSize (fst (inj_deliverFrame j)) = fMaxSize j"
  by (auto simp: inj_deliverFrame_def Let_def split: list.splits)

lemma deliverFrame_queue:
  "frame_queue (fst (inj_deliverFrame j)) =
     (if awaiting j then tl (frame_queue j) else frame_queue j)"
  by (auto simp: inj_deliverFrame_def Let_def split: list.splits)

lemma deliverFrame_calls:
  "snd (inj_deliverFrame j) = (if awaiting j \<and> frame_queue j \<noteq> [] then [AfterGetting] else [])"
  by (auto simp: inj_deliverFrame_def Let_def split: list.splits)

section \<open>The event loop around the injector\<close>

text \<open>
  live555, as documented: \<^verbatim>\<open>getNextFrame\<close> may be called when no request is outstanding; it
  stores the buffer size, resets the truncation count, marks the source as awaiting data and
  calls \<^verbatim>\<open>doGetNextFrame\<close>. \<^verbatim>\<open>afterGetting\<close> clears the mark and passes the frame to the
  consumer; \<^verbatim>\<open>handleClosure\<close> clears it and tells the consumer that the source ended. A
  triggered event runs its handler once, however often it was triggered before.
\<close>

record inj_sys =
  inj :: injector
  consumed :: "(nat \<times> delivery) list"
  closed :: bool

datatype inj_event = Inject frame_data | Request nat | TriggerFires | Shutdown

definition apply_call :: "inj_sys \<Rightarrow> base_call \<Rightarrow> inj_sys" where
  "apply_call s c =
     (case c of
        AfterGetting \<Rightarrow>
          s\<lparr>inj := (inj s)\<lparr>awaiting := False\<rparr>,
            consumed := consumed s @ [(fMaxSize (inj s), delivered (inj s))]\<rparr>
      | HandleClosure \<Rightarrow> s\<lparr>inj := (inj s)\<lparr>awaiting := False\<rparr>, closed := True\<rparr>)"

definition run_handler :: "(injector \<Rightarrow> injector \<times> base_call list) \<Rightarrow> inj_sys \<Rightarrow> inj_sys" where
  "run_handler h s = (case h (inj s) of (j, calls) \<Rightarrow> foldl apply_call (s\<lparr>inj := j\<rparr>) calls)"

definition inj_step :: "inj_sys \<Rightarrow> inj_event \<Rightarrow> inj_sys" where
  "inj_step s e =
     (case e of
        Inject f \<Rightarrow> s\<lparr>inj := injectFrame f (inj s)\<rparr>
      | Shutdown \<Rightarrow> s\<lparr>inj := inj_shutdown (inj s)\<rparr>
      | TriggerFires \<Rightarrow>
          if trigger_pending (inj s)
          then run_handler deliverFrameEvent (s\<lparr>inj := (inj s)\<lparr>trigger_pending := False\<rparr>\<rparr>)
          else s
      | Request m \<Rightarrow>
          if awaiting (inj s) \<or> closed s then s
          else run_handler doGetNextFrame
            (s\<lparr>inj := (inj s)\<lparr>awaiting := True, fMaxSize := m, fNumTruncatedBytes := 0\<rparr>\<rparr>))"

definition inj_init :: inj_sys where
  "inj_init = \<lparr>inj = new_injector, consumed = [], closed = False\<rparr>"

abbreviation inj_run :: "inj_event list \<Rightarrow> inj_sys" where
  "inj_run es \<equiv> foldl inj_step inj_init es"

section \<open>Invariant of the event loop\<close>

text \<open>
  A consumer that waits while frames are queued always has a pending trigger; a source
  that was shut down has an empty queue; only such a source is closed.
\<close>

definition inj_inv :: "inj_sys \<Rightarrow> bool" where
  "inj_inv s \<longleftrightarrow>
     (awaiting (inj s) \<and> frame_queue (inj s) \<noteq> [] \<longrightarrow> trigger_pending (inj s)) \<and>
     (is_shutdown (inj s) \<longrightarrow> frame_queue (inj s) = []) \<and>
     (awaiting (inj s) \<longrightarrow> fNumTruncatedBytes (inj s) = 0) \<and>
     (closed s \<longrightarrow> is_shutdown (inj s) \<and> \<not> awaiting (inj s))"

text \<open>The two handlers in the event loop, by cases.\<close>

lemma run_deliver:
  "run_handler inj_deliverFrame s =
     (if awaiting (inj s) \<and> frame_queue (inj s) \<noteq> []
      then s\<lparr>inj := (fst (inj_deliverFrame (inj s)))\<lparr>awaiting := False\<rparr>,
             consumed := consumed s @
               [(fMaxSize (inj s), delivered (fst (inj_deliverFrame (inj s))))]\<rparr>
      else s)"
  using deliverFrame_calls [of "inj s"] deliverFrame_frame(4) [of "inj s"]
  by (cases "inj_deliverFrame (inj s)") (auto simp: run_handler_def apply_call_def)

lemma run_doGetNextFrame:
  "run_handler doGetNextFrame s =
     (if is_shutdown (inj s) then s\<lparr>inj := (inj s)\<lparr>awaiting := False\<rparr>, closed := True\<rparr>
      else run_handler inj_deliverFrame s)"
  by (simp add: run_handler_def doGetNextFrame_def apply_call_def)

lemmas handler_runs = run_doGetNextFrame run_deliver deliverFrameEvent_def [abs_def]

lemma inj_inv_init: "inj_inv inj_init"
  by (simp add: inj_inv_def inj_init_def new_injector_def)

lemma inj_step_inv: "inj_inv s \<Longrightarrow> inj_inv (inj_step s e)"
  by (cases e)
    (auto simp: inj_inv_def inj_step_def injectFrame_def inj_shutdown_def handler_runs
      deliverFrame_queue)

interpretation inj_machine: stepper inj_step inj_inv
  by unfold_locales (rule inj_step_inv)

lemma inj_run_inv: "inj_inv (inj_run es)"
  by (rule inj_machine.run_inv [OF inj_inv_init])

section \<open>Order and completeness of delivery\<close>

text \<open>The frames that the publisher injects, and the requests that the consumer makes.\<close>

fun injected :: "inj_event list \<Rightarrow> frame_data list" where
  "injected [] = []"
| "injected (Inject f # es) = f # injected es"
| "injected (_ # es) = injected es"

lemma injected_append: "injected (es @ fs) = injected es @ injected fs"
  by (induction es rule: injected.induct) simp_all

definition fifo_inv :: "frame_data list \<Rightarrow> inj_sys \<Rightarrow> bool" where
  "fifo_inv fs s \<longleftrightarrow>
     \<not> is_shutdown (inj s) \<and>
     frame_queue (inj s) = drop (length (consumed s)) fs \<and>
     length (consumed s) \<le> length fs \<and>
     map snd (consumed s) =
       map2 delivery_of (map fst (consumed s)) (take (length (consumed s)) fs)"

lemma fifo_inv_init: "fifo_inv [] inj_init"
  by (simp add: fifo_inv_def inj_init_def new_injector_def)

lemma fifo_inv_deliver:
  assumes fifo: "fifo_inv fs s" and trunc: "awaiting (inj s) \<Longrightarrow> fNumTruncatedBytes (inj s) = 0"
  shows "fifo_inv fs (run_handler inj_deliverFrame s)"
proof (cases "awaiting (inj s) \<and> frame_queue (inj s) \<noteq> []")
  case True
  let ?n = "length (consumed s)"
  from fifo True have n: "?n < length fs" and q: "frame_queue (inj s) = fs ! ?n # drop (Suc ?n) fs"
    by (auto simp: fifo_inv_def Cons_nth_drop_Suc)
  with True trunc have "delivered (fst (inj_deliverFrame (inj s))) = delivery_of (fMaxSize (inj s)) (fs ! ?n)"
    and "frame_queue (fst (inj_deliverFrame (inj s))) = drop (Suc ?n) fs"
    using deliverFrame_front [of "inj s" "fs ! ?n"] by simp_all
  with fifo True n show ?thesis
    by (simp add: fifo_inv_def run_deliver take_Suc_conv_app_nth)
next
  case False
  with fifo show ?thesis by (auto simp: run_deliver)
qed

lemma fifo_inv_step:
  assumes "inj_inv s" and "fifo_inv fs s" and "e \<noteq> Shutdown"
  shows "fifo_inv (fs @ injected [e]) (inj_step s e)"
proof (cases e)
  case (Inject f)
  with assms show ?thesis by (simp add: inj_step_def fifo_inv_def injectFrame_def)
next
  case (Request m)
  let ?t = "s\<lparr>inj := (inj s)\<lparr>awaiting := True, fMaxSize := m, fNumTruncatedBytes := 0\<rparr>\<rparr>"
  have "fifo_inv fs ?t" using assms(2) by (simp add: fifo_inv_def)
  then have "fifo_inv fs (run_handler inj_deliverFrame ?t)" by (rule fifo_inv_deliver) simp
  with assms(2) Request show ?thesis
    by (simp add: inj_step_def run_doGetNextFrame) (simp add: fifo_inv_def)
next
  case TriggerFires
  let ?t = "s\<lparr>inj := (inj s)\<lparr>trigger_pending := False\<rparr>\<rparr>"
  have "fifo_inv fs ?t" using assms(2) by (simp add: fifo_inv_def)
  then have "fifo_inv fs (run_handler inj_deliverFrame ?t)"
    by (rule fifo_inv_deliver) (use assms(1) in \<open>simp add: inj_inv_def\<close>)
  with assms(2) TriggerFires show ?thesis
    by (simp add: inj_step_def deliverFrameEvent_def [abs_def])
next
  case Shutdown
  with assms show ?thesis by simp
qed

lemma fifo_inv_run: "Shutdown \<notin> set es \<Longrightarrow> fifo_inv (injected es) (inj_run es)"
proof (induction es rule: rev_induct)
  case Nil
  show ?case using fifo_inv_init by simp
next
  case (snoc e es)
  then have "fifo_inv (injected es) (inj_run es)" and "e \<noteq> Shutdown" by auto
  from fifo_inv_step [OF inj_run_inv this] show ?case by (simp add: injected_append)
qed

text \<open>
  C12: the injector is a lossless first-in first-out channel. As long as it is not shut
  down, in every interleaving of injections, requests and event loop turns, the consumer
  has received exactly the first frames that were injected, in order, each cut to the size
  that it asked for, and the queue holds exactly the remaining ones.
\<close>

theorem injector_fifo:
  assumes "Shutdown \<notin> set es"
  shows "\<exists>k \<le> length (injected es).
    map snd (consumed (inj_run es)) =
      map2 delivery_of (map fst (consumed (inj_run es))) (take k (injected es)) \<and>
    length (consumed (inj_run es)) = k \<and>
    frame_queue (inj (inj_run es)) = drop k (injected es)"
  using fifo_inv_run [OF assms] by (auto simp: fifo_inv_def)

theorem injector_fifo_witness:
  "let es = [Inject (mk_frame 2 [1, 2, 3] 0), Request 2, Inject (mk_frame 2 [4] 5), TriggerFires] in
    \<exists>k \<le> length (injected es).
      map snd (consumed (inj_run es)) =
        map2 delivery_of (map fst (consumed (inj_run es))) (take k (injected es)) \<and>
      length (consumed (inj_run es)) = k \<and>
      frame_queue (inj (inj_run es)) = drop k (injected es)"
  unfolding Let_def by (rule injector_fifo) simp

text \<open>
  C11: no lost wakeup, and nothing is delivered late. In every reachable state of the event
  loop: if a consumer waits while frames are queued, a trigger is pending, whose handler
  hands over the front of the queue; and a source that was shut down, whether its consumer waits
  or not, has an empty queue.
\<close>

theorem injector_no_lost_wakeup:
  assumes "s = inj_run es"
  shows "(\<forall>f fs. awaiting (inj s) \<and> frame_queue (inj s) = f # fs \<longrightarrow>
      trigger_pending (inj s) \<and> \<not> is_shutdown (inj s) \<and>
      consumed (inj_step s TriggerFires) =
        consumed s @ [(fMaxSize (inj s), delivery_of (fMaxSize (inj s)) f)] \<and>
      frame_queue (inj (inj_step s TriggerFires)) = fs) \<and>
    (is_shutdown (inj s) \<longrightarrow> frame_queue (inj s) = [])"
proof (intro conjI [OF allI [OF allI [OF impI]]])
  fix f fs
  assume a: "awaiting (inj s) \<and> frame_queue (inj s) = f # fs"
  let ?j = "(inj s)\<lparr>trigger_pending := False\<rparr>"
  from inj_run_inv [of es] a have p: "trigger_pending (inj s)" "\<not> is_shutdown (inj s)"
    and "fNumTruncatedBytes ?j = 0" by (auto simp: assms inj_inv_def)
  with a deliverFrame_front [of ?j f fs] have
    "delivered (fst (inj_deliverFrame ?j)) = delivery_of (fMaxSize (inj s)) f"
    "frame_queue (fst (inj_deliverFrame ?j)) = fs" by simp_all
  with p a show "trigger_pending (inj s) \<and> \<not> is_shutdown (inj s) \<and>
      consumed (inj_step s TriggerFires) =
        consumed s @ [(fMaxSize (inj s), delivery_of (fMaxSize (inj s)) f)] \<and>
      frame_queue (inj (inj_step s TriggerFires)) = fs"
    by (simp add: inj_step_def deliverFrameEvent_def [abs_def] run_deliver)
next
  show "is_shutdown (inj s) \<longrightarrow> frame_queue (inj s) = []"
    using inj_run_inv [of es] by (simp add: assms inj_inv_def)
qed

theorem injector_no_lost_wakeup_witness:
  "let es = [Request 9, Inject (mk_frame 2 [1, 2, 3] 0)] in
    trigger_pending (inj (inj_run es)) \<and>
    frame_queue (inj (inj_step (inj_run es) TriggerFires)) = [] \<and>
    frame_queue (inj (inj_run (es @ [Shutdown]))) = []"
  using injector_no_lost_wakeup [OF refl, of "[Request 9, Inject (mk_frame 2 [1, 2, 3] 0)]"]
    injector_no_lost_wakeup [OF refl, of "[Request 9, Inject (mk_frame 2 [1, 2, 3] 0), Shutdown]"]
  by (simp add: inj_step_def inj_init_def new_injector_def injectFrame_def handler_runs
      deliverFrame_queue inj_shutdown_def)

section \<open>Shutdown\<close>

definition stopped :: "(nat \<times> delivery) list \<Rightarrow> bool \<Rightarrow> inj_sys \<Rightarrow> bool" where
  "stopped c w s \<longleftrightarrow>
     is_shutdown (inj s) \<and> frame_queue (inj s) = [] \<and> consumed s = c \<and> awaiting (inj s) = w"

interpretation stopped_injector: stepper inj_step "stopped c w" for c w
proof
  fix s e
  assume "stopped c w s"
  then show "stopped c w (inj_step s e)"
    by (cases e) (auto simp: stopped_def inj_step_def injectFrame_def inj_shutdown_def handler_runs)
qed

text \<open>
  Shutdown is final. Whatever happens after it, no further frame reaches the
  consumer or stays queued. A consumer that was not waiting is told about the end of the
  stream at its next request; one that was waiting is left waiting and never told, since
  \<^verbatim>\<open>shutdown\<close> does not call \<^verbatim>\<open>handleClosure\<close>.
\<close>

theorem injector_shutdown_final:
  "consumed (inj_run (es @ Shutdown # fs)) = consumed (inj_run es) \<and>
   frame_queue (inj (inj_run (es @ Shutdown # fs))) = [] \<and>
   awaiting (inj (inj_run (es @ Shutdown # fs))) = awaiting (inj (inj_run es)) \<and>
   closed (inj_step (inj_run (es @ Shutdown # fs)) (Request m)) = (\<not> awaiting (inj (inj_run es)))"
proof -
  have "stopped (consumed (inj_run es)) (awaiting (inj (inj_run es))) (inj_run (es @ [Shutdown]))"
    by (simp add: stopped_def inj_step_def inj_shutdown_def)
  from stopped_injector.run_inv [OF this, of fs]
  have "stopped (consumed (inj_run es)) (awaiting (inj (inj_run es))) (inj_run (es @ Shutdown # fs))"
    by simp
  then show ?thesis
    using inj_run_inv [of "es @ Shutdown # fs"]
    by (auto simp: stopped_def inj_step_def run_doGetNextFrame inj_inv_def)
qed

section \<open>Draining\<close>

lemma request_front:
  assumes "inj_inv s" and "\<not> awaiting (inj s)" and "\<not> is_shutdown (inj s)"
    and "frame_queue (inj s) = f # fs"
  shows "consumed (inj_step s (Request m)) = consumed s @ [(m, delivery_of m f)] \<and>
    frame_queue (inj (inj_step s (Request m))) = fs \<and>
    \<not> awaiting (inj (inj_step s (Request m))) \<and> \<not> is_shutdown (inj (inj_step s (Request m)))"
proof -
  let ?j = "(inj s)\<lparr>awaiting := True, fMaxSize := m, fNumTruncatedBytes := 0\<rparr>"
  from assms deliverFrame_front [of ?j f fs] have
    "delivered (fst (inj_deliverFrame ?j)) = delivery_of m f"
    "frame_queue (fst (inj_deliverFrame ?j)) = fs" by simp_all
  with assms show ?thesis
    by (auto simp: inj_step_def handler_runs inj_inv_def)
qed

text \<open>
  Every queued frame reaches a consumer that keeps asking. From a reachable state in
  which the consumer is not waiting, one request for each queued frame hands over all of
  them, and the queue is empty then.
\<close>

theorem injector_drains:
  assumes "inj_inv s" and "\<not> awaiting (inj s)" and "\<not> is_shutdown (inj s)"
    and "ms = replicate (length (frame_queue (inj s))) m"
  shows "let t = foldl inj_step s (map Request ms) in
    consumed t = consumed s @ map (\<lambda>f. (m, delivery_of m f)) (frame_queue (inj s)) \<and>
    frame_queue (inj t) = []"
  using assms
proof (induction "frame_queue (inj s)" arbitrary: s ms)
  case Nil
  then show ?case by simp
next
  case (Cons f fs)
  let ?t = "inj_step s (Request m)"
  from request_front [OF Cons.prems(1-3) Cons.hyps(2) [symmetric], of m] have
    t: "consumed ?t = consumed s @ [(m, delivery_of m f)]" "frame_queue (inj ?t) = fs"
    "\<not> awaiting (inj ?t)" "\<not> is_shutdown (inj ?t)" by simp_all
  from Cons.hyps(1) [OF t(2) [symmetric] inj_step_inv [OF Cons.prems(1)] t(3,4)] t(1,2)
    Cons.hyps(2) [symmetric] Cons.prems(4)
  show ?case by simp
qed

theorem injector_drains_witness:
  "let s = inj_run [Inject (mk_frame 0 [1] 0), Inject (mk_frame 0 [2, 3] 0)];
       t = foldl inj_step s (map Request [7, 7])
   in consumed t = [(7, delivery_of 7 (mk_frame 0 [1] 0)), (7, delivery_of 7 (mk_frame 0 [2, 3] 0))] \<and>
      frame_queue (inj t) = []"
proof -
  let ?s = "inj_run [Inject (mk_frame 0 [1] 0), Inject (mk_frame 0 [2, 3] 0)]"
  have s: "\<not> awaiting (inj ?s)" "\<not> is_shutdown (inj ?s)" "consumed ?s = []"
    "frame_queue (inj ?s) = [mk_frame 0 [1] 0, mk_frame 0 [2, 3] 0]"
    by (simp_all add: inj_step_def inj_init_def new_injector_def injectFrame_def)
  from injector_drains [OF inj_run_inv s(1,2), of "[7, 7]" 7] show ?thesis
    unfolding s Let_def by (simp add: numeral_2_eq_2)
qed

end
