(* ===== verification/Frame_Extractor.thy ===== *)
theory Frame_Extractor
  imports Frame_Data Video_Codec
begin

text \<open>
  The client side end of a stream (\<^verbatim>\<open>src/src/frame_extractor.h\<close>,
  \<^verbatim>\<open>src/src/frame_extractor.cpp\<close>): a sink of live555 that puts the start codes back,
  which RTP transport strips from H.264/H.265 streams, collects small units and passes
  frames on to the client. The array \<^verbatim>\<open>buffer_\<close> and \<^verbatim>\<open>buffer_length_\<close> are modelled as the
  list of the first \<^verbatim>\<open>buffer_length_\<close> bytes; nothing reads the bytes behind them. The
  calls that leave the class, \<^verbatim>\<open>receiveStreamData\<close> and \<^verbatim>\<open>getNextFrame\<close>, are recorded in
  the state.

  Parameters: \<open>parse\<close> is \<^verbatim>\<open>parseSPropParameterSets\<close> of live555, \<open>mk_time\<close> the constructor
  \<^verbatim>\<open>rclcpp::Time(int32_t, uint32_t)\<close>, \<open>pad\<close> FFmpeg's padding size; \<open>alive\<close> says whether
  the weak pointer to the client can be locked.
\<close>

section \<open>The class\<close>

definition BUFFER_SIZE :: nat where
  "BUFFER_SIZE = 131072"

definition MPEG_START_CODE :: "byte list" where
  "MPEG_START_CODE = [0, 0, 0, 1]"

record extractor =
  x_codec :: video_codec
  buffer :: "byte list"
  received :: "(video_codec \<times> frame_data) list"
  requested :: "nat option"

text \<open>The loop over the out-of-band parameter sets.\<close>

fun append_nals :: "byte list \<Rightarrow> byte list list \<Rightarrow> fault + byte list" where
  "append_nals buf [] = Inr buf"
| "append_nals buf (nal # nals) =
     (if length buf + length nal + 4 > BUFFER_SIZE
      then Inl (Throw (StreamingError ''frame buffer overflow''))
      else append_nals (buf @ MPEG_START_CODE @ nal) nals)"

definition FrameExtractor ::
  "(string \<Rightarrow> byte list list) \<Rightarrow> bool \<Rightarrow> string \<Rightarrow> string option \<Rightarrow> fault + extractor" where
  "FrameExtractor parse alive codecName sprops =
     (let codec = fromRTSPCodecName codecName;
          new = (\<lambda>buf. \<lparr>x_codec = codec, buffer = buf, received = [], requested = None\<rparr>)
      in if codec = Unknown
         then Inl (Throw (StreamingError (''unsupported video codec '' @ codecName)))
         else if codec = H264 \<or> codec = H265
         then (case sprops of
             None \<Rightarrow> Inr (new [])
           | Some sp \<Rightarrow>
               if alive
               then (case append_nals [] (parse sp) of Inl e \<Rightarrow> Inl e | Inr buf \<Rightarrow> Inr (new buf))
               else Inr (new []))
         else Inr (new []))"

definition continuePlaying :: "extractor \<Rightarrow> extractor" where
  "continuePlaying x =
     (let x1 = (if x_codec x = H264 \<or> x_codec x = H265
                then if BUFFER_SIZE - length MPEG_START_CODE \<ge> length (buffer x)
                     then x\<lparr>buffer := buffer x @ MPEG_START_CODE\<rparr>
                     else x
                else x)
      in x1\<lparr>requested := Some (BUFFER_SIZE - length (buffer x1))\<rparr>)"

text \<open>
  The time stamp of a delivery: the seconds are narrowed to 32 bits signed, the product of
  the microseconds to 32 bits unsigned.
\<close>

definition ext_stamp :: "(int \<Rightarrow> nat \<Rightarrow> fault + stamp) \<Rightarrow> nat \<times> nat \<Rightarrow> fault + stamp" where
  "ext_stamp mk_time tv =
     mk_time (sint (word_of_nat (fst tv) :: 32 word)) (unat (word_of_nat (1000 * snd tv) :: 32 word))"

text \<open>
  \<^verbatim>\<open>deliverFrame\<close>: live555 has written the \<open>bytes\<close> of the frame behind the first
  \<^verbatim>\<open>buffer_length_\<close> bytes. The truncation count is only logged.
\<close>

definition ext_deliverFrame ::
  "(int \<Rightarrow> nat \<Rightarrow> fault + stamp) \<Rightarrow> nat \<Rightarrow> bool \<Rightarrow> byte list \<Rightarrow> nat \<times> nat \<Rightarrow> (extractor, unit) op" where
  "ext_deliverFrame mk_time pad alive bytes presentationTime =
     whenb alive
       (thn (upd (\<lambda>x. x\<lparr>buffer := buffer x @ bytes\<rparr>))
       (bnd (lift_op (ext_stamp mk_time presentationTime)) (\<lambda>ts.
        thn (bnd (gets buffer) (\<lambda>buf. whenb (length buf > 48)
              (bnd (lift_op (FrameData pad buf 0 (length buf) ts)) (\<lambda>f.
               upd (\<lambda>x. x\<lparr>received := received x @ [(x_codec x, f)], buffer := []\<rparr>)))))
       (upd continuePlaying))))"

section \<open>A playing extractor\<close>

text \<open>
  live555, as documented, delivers at most as many bytes as the outstanding request allows.
  A delivery that exceeds it does not occur; a delivery for which the constructor of the
  time stamp throws ends the program and is no step either.
\<close>

type_synonym arrival = "byte list \<times> nat \<times> nat"

definition ext_step ::
  "(int \<Rightarrow> nat \<Rightarrow> fault + stamp) \<Rightarrow> nat \<Rightarrow> extractor \<Rightarrow> arrival \<Rightarrow> extractor" where
  "ext_step mk_time pad x a =
     (case requested x of
        None \<Rightarrow> x
      | Some m \<Rightarrow>
          if length (fst a) \<le> m
          then (case ext_deliverFrame mk_time pad True (fst a) (snd a) x of
                  (Inr _, y) \<Rightarrow> y
                | (Inl _, _) \<Rightarrow> x)
          else x)"

lemma continuePlaying_eq:
  "continuePlaying x =
     x\<lparr>buffer := (if is_h26x (x_codec x) \<and> length (buffer x) + 4 \<le> BUFFER_SIZE
                  then buffer x @ MPEG_START_CODE else buffer x),
       requested := Some (BUFFER_SIZE - (if is_h26x (x_codec x) \<and> length (buffer x) + 4 \<le> BUFFER_SIZE
                  then length (buffer x) + 4 else length (buffer x)))\<rparr>"
  by (auto simp: continuePlaying_def is_h26x_def Let_def MPEG_START_CODE_def BUFFER_SIZE_def)

text \<open>One delivery, written out.\<close>

lemma ext_step_eq:
  assumes "requested x = Some m" and "length bytes \<le> m" and "ext_stamp mk_time tv = Inr ts"
  shows "ext_step mk_time pad x (bytes, tv) =
    continuePlaying
      (if length (buffer x @ bytes) > 48
       then x\<lparr>received := received x @ [(x_codec x, mk_frame pad (buffer x @ bytes) ts)], buffer := []\<rparr>
       else x\<lparr>buffer := buffer x @ bytes\<rparr>)"
  using assms by (simp add: ext_step_def ext_deliverFrame_def op_defs FrameData_eq)

lemma ext_step_other:
  assumes "requested x = None \<or> (\<exists>m. requested x = Some m \<and> m < length bytes) \<or>
    (\<exists>e. ext_stamp mk_time tv = Inl e)"
  shows "ext_step mk_time pad x (bytes, tv) = x"
  using assms by (auto simp: ext_step_def ext_deliverFrame_def op_defs split: option.splits)

lemma ext_step_cases:
  obtains (same) "ext_step mk_time pad x (bytes, tv) = x"
    | (arrives) m ts where "requested x = Some m" "length bytes \<le> m" "ext_stamp mk_time tv = Inr ts"
proof (cases "requested x = None \<or> (\<exists>m. requested x = Some m \<and> m < length bytes) \<or>
    (\<exists>e. ext_stamp mk_time tv = Inl e)")
  case True
  then show ?thesis by (intro same ext_step_other)
next
  case False
  then show ?thesis
    by (cases "requested x"; cases "ext_stamp mk_time tv") (auto intro: arrives)
qed

section \<open>Bounds and shape of the frames\<close>

text \<open>
  The buffer never overflows, an outstanding request never exceeds the room that is left,
  and a buffer of an H.26x stream that is not empty starts with a start code. What was
  passed on has more than 48 bytes, fits the buffer, and starts with a start code for H.26x.
\<close>

definition coded :: "extractor \<Rightarrow> byte list \<Rightarrow> bool" where
  "coded x b \<longleftrightarrow> is_h26x (x_codec x) \<longrightarrow> take 4 b = MPEG_START_CODE"

definition ext_inv :: "nat \<Rightarrow> extractor \<Rightarrow> bool" where
  "ext_inv pad x \<longleftrightarrow>
     length (buffer x) \<le> BUFFER_SIZE \<and>
     (\<forall>m. requested x = Some m \<longrightarrow> length (buffer x) + m = BUFFER_SIZE \<and> coded x (buffer x)) \<and>
     (buffer x \<noteq> [] \<longrightarrow> coded x (buffer x)) \<and>
     (\<forall>(c, f) \<in> set (received x). c = x_codec x \<and> frame_ok pad f \<and>
        48 < flength f \<and> flength f \<le> BUFFER_SIZE \<and> coded x (payload f))"

lemma start_code_facts [simp]:
  "length MPEG_START_CODE = 4" "take 4 (MPEG_START_CODE @ b) = MPEG_START_CODE"
  "take 4 MPEG_START_CODE = MPEG_START_CODE" "MPEG_START_CODE \<noteq> []"
  by (simp_all add: MPEG_START_CODE_def)

lemma coded_append: "coded x a \<Longrightarrow> 4 \<le> length a \<Longrightarrow> coded x (a @ b)"
  by (simp add: coded_def)

lemma coded_long: "coded x b \<Longrightarrow> is_h26x (x_codec x) \<Longrightarrow> 4 \<le> length b"
  by (metis coded_def length_take min.cobounded1 start_code_facts(1))

lemma coded_append': "coded x a \<Longrightarrow> coded x (a @ b)"
  using coded_append [of x a b] coded_long [of x a] by (auto simp: coded_def)

lemma continuePlaying_inv:
  assumes "length (buffer x) \<le> BUFFER_SIZE" and "buffer x \<noteq> [] \<Longrightarrow> coded x (buffer x)"
    and "\<forall>(c, f) \<in> set (received x). c = x_codec x \<and> frame_ok pad f \<and>
        48 < flength f \<and> flength f \<le> BUFFER_SIZE \<and> coded x (payload f)"
  shows "ext_inv pad (continuePlaying x)"
  using assms coded_append' [of x "buffer x" MPEG_START_CODE]
  by (cases "buffer x = []")
    (auto simp: ext_inv_def continuePlaying_eq coded_def BUFFER_SIZE_def split: prod.splits)

lemma ext_step_inv:
  assumes inv: "ext_inv pad x"
  shows "ext_inv pad (ext_step mk_time pad x a)"
proof -
  obtain bytes tv where a: "a = (bytes, tv)" by (rule prod.exhaust)
  show ?thesis
  proof (cases rule: ext_step_cases [of mk_time pad x bytes tv])
    case same
    with inv a show ?thesis by simp
  next
    case (arrives m ts)
    with inv have "length (buffer x) + m = BUFFER_SIZE" "coded x (buffer x @ bytes)"
      by (auto simp: ext_inv_def intro: coded_append')
    with inv arrives show ?thesis
      unfolding a ext_step_eq [OF arrives]
      by (intro continuePlaying_inv) (auto simp: ext_inv_def coded_def)
  qed
qed

interpretation extractor_machine: stepper "ext_step mk_time pad" "ext_inv pad" for mk_time pad
  by unfold_locales (rule ext_step_inv)

lemma append_nals_bound:
  "append_nals buf nals = Inr b \<Longrightarrow> length buf \<le> BUFFER_SIZE \<Longrightarrow>
     length b \<le> BUFFER_SIZE \<and> b = buf @ concat (map (\<lambda>n. MPEG_START_CODE @ n) nals)"
  by (induction buf nals rule: append_nals.induct) (auto split: if_splits)

lemma FrameExtractor_ok:
  assumes "FrameExtractor parse alive name sprops = Inr x"
  shows "x_codec x = fromRTSPCodecName name" and "x_codec x \<noteq> Unknown" and "received x = []"
    and "requested x = None" and "length (buffer x) \<le> BUFFER_SIZE"
    and "buffer x = (case sprops of
          Some sp \<Rightarrow> if is_h26x (x_codec x) \<and> alive
            then concat (map (\<lambda>n. MPEG_START_CODE @ n) (parse sp)) else []
        | None \<Rightarrow> [])"
  using assms append_nals_bound [of "[]" "parse (the sprops)"]
  by (auto simp: FrameExtractor_def Let_def is_h26x_def
      split: if_splits option.splits sum.splits)

lemma params_coded:
  "concat (map (\<lambda>n. MPEG_START_CODE @ n) ns) \<noteq> [] \<Longrightarrow>
     take 4 (concat (map (\<lambda>n. MPEG_START_CODE @ n) ns)) = MPEG_START_CODE"
  by (cases ns) simp_all

lemma new_extractor_inv:
  assumes "FrameExtractor parse alive name sprops = Inr x"
  shows "ext_inv pad (continuePlaying x)"
proof (rule continuePlaying_inv)
  note ok = FrameExtractor_ok [OF assms]
  show "length (buffer x) \<le> BUFFER_SIZE" by (rule ok(5))
  show "coded x (buffer x)" if "buffer x \<noteq> []"
    using that ok(6) params_coded [of "parse (the sprops)"]
    by (auto simp: coded_def split: option.splits if_splits)
qed (simp add: FrameExtractor_ok(3) [OF assms])

abbreviation ext_run ::
  "(int \<Rightarrow> nat \<Rightarrow> fault + stamp) \<Rightarrow> nat \<Rightarrow> extractor \<Rightarrow> arrival list \<Rightarrow> extractor" where
  "ext_run mk_time pad x as \<equiv> foldl (ext_step mk_time pad) (continuePlaying x) as"

lemma ext_run_inv:
  "FrameExtractor parse alive name sprops = Inr x \<Longrightarrow> ext_inv pad (ext_run mk_time pad x as)"
  by (rule extractor_machine.run_inv [OF new_extractor_inv])

lemma continuePlaying_frame [simp]:
  "x_codec (continuePlaying x) = x_codec x" "received (continuePlaying x) = received x"
  by (simp_all add: continuePlaying_eq)

lemma continuePlaying_requested: "requested (continuePlaying x) \<noteq> None"
  by (simp add: continuePlaying_eq)

lemma ext_step_codec [simp]: "x_codec (ext_step mk_time pad x a) = x_codec x"
proof -
  obtain bytes tv where a: "a = (bytes, tv)" by (rule prod.exhaust)
  show ?thesis
    by (cases rule: ext_step_cases [of mk_time pad x bytes tv]) (simp_all add: a ext_step_eq)
qed

lemma ext_run_codec [simp]: "x_codec (foldl (ext_step mk_time pad) x as) = x_codec x"
  by (induction as arbitrary: x) simp_all

text \<open>
  C38: bounds of the frame buffer. For every successfully constructed extractor and every
  sequence of deliveries, the buffer stays within its 131072 bytes and the size passed to
  \<^verbatim>\<open>getNextFrame\<close> is exactly the room behind the bytes collected so far.
\<close>

theorem extractor_buffer_bounds:
  assumes "FrameExtractor parse alive name sprops = Inr x"
  shows "length (buffer (ext_run mk_time pad x as)) \<le> BUFFER_SIZE \<and>
    requested (ext_run mk_time pad x as) = Some (BUFFER_SIZE - length (buffer (ext_run mk_time pad x as)))"
proof -
  have "requested y \<noteq> None \<Longrightarrow> requested (ext_step mk_time pad y a) \<noteq> None" for y a
  proof -
    assume y: "requested y \<noteq> None"
    obtain bytes tv where a: "a = (bytes, tv)" by (rule prod.exhaust)
    show ?thesis
      by (cases rule: ext_step_cases [of mk_time pad y bytes tv])
        (use y in \<open>simp_all add: a ext_step_eq continuePlaying_eq\<close>)
  qed
  then have "requested y \<noteq> None \<Longrightarrow> requested (foldl (ext_step mk_time pad) y as) \<noteq> None" for y
    by (induction as arbitrary: y) simp_all
  then have "requested (ext_run mk_time pad x as) \<noteq> None"
    using continuePlaying_requested by blast
  with ext_run_inv [OF assms, of pad mk_time as] show ?thesis
    by (auto simp: ext_inv_def)
qed

theorem extractor_buffer_bounds_witness:
  "length (buffer (ext_run (\<lambda>s n. Inr (s * 1000000000 + int n)) 8
      \<lparr>x_codec = H264, buffer = [0, 0, 0, 1, 0x67], received = [], requested = None\<rparr> [([1, 2], 3, 4)])) \<le> BUFFER_SIZE"
  using extractor_buffer_bounds [of "\<lambda>_. [[0x67]]" True "''H264''" "Some ''Zw==''"
    "\<lparr>x_codec = H264, buffer = [0, 0, 0, 1, 0x67], received = [], requested = None\<rparr>"
    "\<lambda>s n. Inr (s * 1000000000 + int n)" 8 "[([1, 2], 3, 4)]"]
  by (simp add: FrameExtractor_def fromRTSPCodecName_def BUFFER_SIZE_def MPEG_START_CODE_def)

text \<open>
  What reaches the decoder. Every frame that the extractor passes to the client is
  tagged with the stream's codec, is longer than 48 bytes and not longer than the buffer,
  carries the padding that FFmpeg demands, and starts with a start code when the codec is
  H.264 or H.265.
\<close>

theorem extractor_frames_well_formed:
  assumes "FrameExtractor parse alive name sprops = Inr x"
    and "(c, f) \<in> set (received (ext_run mk_time pad x as))"
  shows "c = fromRTSPCodecName name \<and> 48 < flength f \<and> flength f \<le> BUFFER_SIZE \<and>
    fdata f = payload f @ replicate pad 0 \<and>
    (c \<in> {H264, H265} \<longrightarrow> take 4 (payload f) = MPEG_START_CODE)"
proof -
  note ok = FrameExtractor_ok [OF assms(1)]
  from ext_run_inv [OF assms(1), of pad mk_time as] assms(2)
  have f: "c = x_codec x" "frame_ok pad f" "48 < flength f" "flength f \<le> BUFFER_SIZE"
    "coded (ext_run mk_time pad x as) (payload f)"
    by (auto simp: ext_inv_def)
  then have "fdata f = payload f @ replicate pad 0"
    by (metis append_take_drop_id frame_ok_def payload_def)
  with f ok show ?thesis by (auto simp: coded_def is_h26x_def)
qed

theorem extractor_frames_well_formed_witness:
  "let x = \<lparr>x_codec = H264, buffer = [], received = [], requested = None\<rparr>;
       y = ext_run (\<lambda>s n. Inr (s * 1000000000 + int n)) 1 x [(replicate 60 7, 3, 4)];
       f = snd (hd (received y))
   in 48 < flength f \<and> take 4 (payload f) = MPEG_START_CODE"
proof -
  let ?x = "\<lparr>x_codec = H264, buffer = [], received = [], requested = None\<rparr>"
  let ?y = "ext_run (\<lambda>s n. Inr (s * 1000000000 + int n)) 1 ?x [(replicate 60 7, 3, 4)]"
  let ?f = "mk_frame 1 (MPEG_START_CODE @ replicate 60 7) 3000004000"
  have x: "FrameExtractor (\<lambda>_. []) True ''H264'' None = Inr ?x"
    by (simp add: FrameExtractor_def fromRTSPCodecName_def)
  have y: "received ?y = [(H264, ?f)]"
    by (simp add: continuePlaying_eq is_h26x_def BUFFER_SIZE_def ext_step_eq ext_stamp_def)
  from extractor_frames_well_formed [OF x, of H264 ?f "\<lambda>s n. Inr (s * 1000000000 + int n)" 1
      "[(replicate 60 7, 3, 4)]"] y
  show ?thesis by (simp add: Let_def)
qed

section \<open>No byte is lost or invented\<close>

text \<open>
  Deliveries that fit the request and carry a time that can be converted. The request is
  never below \<open>BUFFER_SIZE - 52\<close> once the first delivery was processed.
\<close>

definition convertible :: "(int \<Rightarrow> nat \<Rightarrow> fault + stamp) \<Rightarrow> arrival \<Rightarrow> bool" where
  "convertible mk_time a \<longleftrightarrow> (\<exists>ts. ext_stamp mk_time (snd a) = Inr ts)"

definition room_inv :: "extractor \<Rightarrow> bool" where
  "room_inv x \<longleftrightarrow> length (buffer x) \<le> 52 \<and> requested x = Some (BUFFER_SIZE - length (buffer x))"

definition stream_bytes :: "extractor \<Rightarrow> byte list" where
  "stream_bytes x = concat (map (payload \<circ> snd) (received x)) @ buffer x"

definition code_of :: "video_codec \<Rightarrow> byte list" where
  "code_of c = (if is_h26x c then MPEG_START_CODE else [])"

lemma ext_step_bytes:
  assumes "requested x = Some m" and "length (fst a) \<le> m" and "convertible mk_time a"
  shows "stream_bytes (ext_step mk_time pad x a) = stream_bytes x @ fst a @ code_of (x_codec x) \<and>
    room_inv (ext_step mk_time pad x a)"
proof -
  obtain bytes tv where a: "a = (bytes, tv)" by (rule prod.exhaust)
  from assms a obtain ts where "ext_stamp mk_time tv = Inr ts" by (auto simp: convertible_def)
  with assms a show ?thesis
    by (simp add: ext_step_eq stream_bytes_def room_inv_def continuePlaying_eq code_of_def
        BUFFER_SIZE_def)
qed

lemma ext_run_bytes:
  "room_inv x \<Longrightarrow> \<forall>a \<in> set as. convertible mk_time a \<and> length (fst a) \<le> BUFFER_SIZE - 52 \<Longrightarrow>
     stream_bytes (foldl (ext_step mk_time pad) x as) =
       stream_bytes x @ concat (map (\<lambda>a. fst a @ code_of (x_codec x)) as)"
proof (induction as arbitrary: x)
  case Nil
  then show ?case by simp
next
  case (Cons a as)
  from Cons.prems have "requested x = Some (BUFFER_SIZE - length (buffer x))"
    "length (fst a) \<le> BUFFER_SIZE - length (buffer x)" by (auto simp: room_inv_def)
  from ext_step_bytes [OF this, of mk_time pad] Cons show ?case by simp
qed

text \<open>
  The byte stream is preserved. For an extractor without out-of-band parameter sets,
  the payloads that were passed to the client followed by the bytes still in the buffer
  are, for every sequence of deliveries that fit, the delivered units in order, each one
  preceded by a start code for H.264/H.265 and by nothing for the other codecs (and the
  start code of the unit that is awaited).
\<close>

theorem extractor_preserves_bytes:
  assumes "FrameExtractor parse alive name None = Inr x"
    and "\<forall>a \<in> set as. convertible mk_time a \<and> length (fst a) \<le> BUFFER_SIZE - 52"
  shows "stream_bytes (ext_run mk_time pad x as) =
    code_of (x_codec x) @ concat (map (\<lambda>a. fst a @ code_of (x_codec x)) as)"
proof -
  note ok = FrameExtractor_ok [OF assms(1)]
  have "room_inv (continuePlaying x)" and "stream_bytes (continuePlaying x) = code_of (x_codec x)"
    using ok by (simp_all add: room_inv_def stream_bytes_def continuePlaying_eq code_of_def BUFFER_SIZE_def)
  with ext_run_bytes [OF this(1) assms(2), of pad] show ?thesis by simp
qed

theorem extractor_preserves_bytes_witness:
  "stream_bytes (ext_run (\<lambda>s n. Inr (s * 1000000000 + int n)) 1
      \<lparr>x_codec = VP8, buffer = [], received = [], requested = None\<rparr> [([1, 2], 3, 4), ([5], 3, 4)]) = [1, 2, 5]"
  using extractor_preserves_bytes [of "\<lambda>_. []" True "''VP8''"
    "\<lparr>x_codec = VP8, buffer = [], received = [], requested = None\<rparr>" "[([1, 2], 3, 4), ([5], 3, 4)]"
    "\<lambda>s n. Inr (s * 1000000000 + int n)" 1]
  by (simp add: FrameExtractor_def fromRTSPCodecName_def convertible_def ext_stamp_def
      BUFFER_SIZE_def code_of_def is_h26x_def)

text \<open>
  Small frames are glued together. The rule that collects units up to 48 bytes, meant
  for the parameter sets of H.264/H.265, also applies to codecs without start codes: a
  whole video frame of at most 48 bytes is kept back and passed on in front of the next
  frame, as one frame with the later frame's time stamp.
\<close>

theorem small_frames_merged:
  assumes "FrameExtractor parse alive name sprops = Inr x" and "x_codec x \<notin> {H264, H265}"
    and "length a \<le> 48" and "48 < length a + length b" and "length b \<le> BUFFER_SIZE - 48"
    and "ext_stamp mk_time tv = Inr t" and "ext_stamp mk_time tw = Inr u"
  shows "received (ext_run mk_time pad x [(a, tv)]) = [] \<and>
    received (ext_run mk_time pad x [(a, tv), (b, tw)]) = [(x_codec x, mk_frame pad (a @ b) u)]"
proof -
  note ok = FrameExtractor_ok [OF assms(1)]
  have b: "buffer x = []" using assms(2) ok(6) by (auto simp: is_h26x_def split: option.splits)
  let ?x1 = "continuePlaying x"
  have x1: "requested ?x1 = Some BUFFER_SIZE" "buffer ?x1 = []" "received ?x1 = []"
    using b ok(3) assms(2) by (simp_all add: continuePlaying_eq is_h26x_def)
  have la: "length a \<le> BUFFER_SIZE" using assms(3) by (simp add: BUFFER_SIZE_def)
  let ?x2 = "ext_step mk_time pad ?x1 (a, tv)"
  have x2: "requested ?x2 = Some (BUFFER_SIZE - length a)" "buffer ?x2 = a" "received ?x2 = []"
    unfolding ext_step_eq [OF x1(1) la assms(6)]
    using x1 assms(2,3) by (simp_all add: continuePlaying_eq [of "?x1\<lparr>buffer := a\<rparr>"] is_h26x_def)
  have lb: "length b \<le> BUFFER_SIZE - length a" using assms(3,5) by simp
  have "received (ext_step mk_time pad ?x2 (b, tw)) = [(x_codec x, mk_frame pad (a @ b) u)]"
    unfolding ext_step_eq [OF x2(1) lb assms(7)] using x2 assms(4) by simp
  with x2(3) show ?thesis by simp
qed

theorem small_frames_merged_witness:
  "received (ext_run (\<lambda>s n. Inr (s * 1000000000 + int n)) 0
      \<lparr>x_codec = VP8, buffer = [], received = [], requested = None\<rparr>
      [([0xB1, 1], 10, 0), (replicate 50 7, 10, 33000)]) =
    [(VP8, mk_frame 0 ([0xB1, 1] @ replicate 50 7) 10033000000)]"
  using small_frames_merged [of "\<lambda>_. []" True "''VP8''" None
    "\<lparr>x_codec = VP8, buffer = [], received = [], requested = None\<rparr>" "[0xB1, 1]" "replicate 50 7"
    "\<lambda>s n. Inr (s * 1000000000 + int n)" "(10, 0)" _ "(10, 33000)" 10033000000 0]
  by (simp add: FrameExtractor_def fromRTSPCodecName_def ext_stamp_def BUFFER_SIZE_def)

end
