(* ===== verification/Codec_Probe.thy ===== *)
theory Codec_Probe
  imports Video_Codec
begin

text \<open>
  How encoder and decoder choose an implementation of a codec: both constructors walk
  through a list of FFmpeg codec names in order of preference, skip the hardware
  accelerated ones when these are not wanted, and stop at the first one that works. The
  loop is shared by \<^verbatim>\<open>StreamEncoder::StreamEncoder\<close> and \<^verbatim>\<open>StreamDecoder::StreamDecoder\<close>;
  what an attempt does is its parameter, and what the loop needs from it is the contract
  \<open>probing\<close>.
\<close>

section \<open>The loop\<close>

text \<open>An attempt tells whether it succeeded, which is where the loop breaks.\<close>

primrec probe_loop :: "(string \<Rightarrow> ('s, bool) op) \<Rightarrow> bool \<Rightarrow> string list \<Rightarrow> ('s, unit) op" where
  "probe_loop attempt use_hw [] = ret ()"
| "probe_loop attempt use_hw (codec_name # names) =
     (if \<not> use_hw \<and> CHR ''_'' \<in> set codec_name then probe_loop attempt use_hw names
      else bnd (attempt codec_name)
        (\<lambda>success. if success then ret () else probe_loop attempt use_hw names))"

definition admissible :: "bool \<Rightarrow> string list \<Rightarrow> string list" where
  "admissible use_hw names = filter (\<lambda>n. use_hw \<or> CHR ''_'' \<notin> set n) names"

lemma admissible_Nil [simp]: "admissible use_hw [] = []"
  by (simp add: admissible_def)

lemma admissible_skip [simp]:
  "\<not> use_hw \<and> CHR ''_'' \<in> set n \<Longrightarrow> admissible use_hw (n # names) = admissible use_hw names"
  by (simp add: admissible_def)

lemma admissible_keep [simp]:
  "\<not> (\<not> use_hw \<and> CHR ''_'' \<in> set n) \<Longrightarrow> admissible use_hw (n # names) = n # admissible use_hw names"
  by (simp add: admissible_def)

section \<open>The contract of an attempt\<close>

text \<open>
  \<open>chosen\<close> is the implementation that the state holds, if any. An attempt handles its own
  exceptions; it leaves an implementation behind exactly when it reports success, and then
  it is the one that was asked for.
\<close>

locale probing =
  fixes attempt :: "string \<Rightarrow> ('s, bool) op"
    and chosen :: "'s \<Rightarrow> string option"
    and inv :: "'s \<Rightarrow> bool"
  assumes attempt_wp:
    "inv s \<Longrightarrow> chosen s = None \<Longrightarrow>
       wp (attempt n) (\<lambda>ok t. inv t \<and> chosen t = (if ok then Some n else None)) (\<lambda>_ _. False) s"
begin

lemma probe_wp:
  "inv s \<Longrightarrow> chosen s = None \<Longrightarrow>
     wp (probe_loop attempt use_hw names)
       (\<lambda>_ t. inv t \<and> (\<forall>n. chosen t = Some n \<longrightarrow> n \<in> set (admissible use_hw names)))
       (\<lambda>_ _. False) s"
proof (induction names arbitrary: s)
  case Nil
  then show ?case by (simp add: wp_rules)
next
  case (Cons m names)
  show ?case
  proof (cases "\<not> use_hw \<and> CHR ''_'' \<in> set m")
    case True
    with Cons show ?thesis by simp
  next
    case False
    have "wp (attempt m)
        (\<lambda>ok. wp (if ok then ret () else probe_loop attempt use_hw names)
          (\<lambda>_ t. inv t \<and> (\<forall>n. chosen t = Some n \<longrightarrow> n \<in> set (admissible use_hw (m # names))))
          (\<lambda>_ _. False)) (\<lambda>_ _. False) s"
    proof (rule wp_mono [OF attempt_wp [OF Cons.prems]])
      fix ok t
      assume t: "inv t \<and> chosen t = (if ok then Some m else None)"
      show "wp (if ok then ret () else probe_loop attempt use_hw names)
          (\<lambda>_ t. inv t \<and> (\<forall>n. chosen t = Some n \<longrightarrow> n \<in> set (admissible use_hw (m # names))))
          (\<lambda>_ _. False) t"
      proof (cases ok)
        case True
        with t False show ?thesis by (simp add: wp_ret)
      next
        case not_ok: False
        with t have "inv t" "chosen t = None" by simp_all
        then have "wp (probe_loop attempt use_hw names)
            (\<lambda>_ t. inv t \<and> (\<forall>n. chosen t = Some n \<longrightarrow> n \<in> set (admissible use_hw names)))
            (\<lambda>_ _. False) t" by (rule Cons.IH)
        then have "wp (probe_loop attempt use_hw names)
            (\<lambda>_ t. inv t \<and> (\<forall>n. chosen t = Some n \<longrightarrow> n \<in> set (admissible use_hw (m # names))))
            (\<lambda>_ _. False) t" by (rule wp_mono) (use False in auto)
        with not_ok show ?thesis by simp
      qed
    qed simp
    with False show ?thesis by (simp only: probe_loop.simps if_False wp_bnd)
  qed
qed

end

text \<open>
  When it depends on the name only whether an attempt succeeds, the loop settles on the
  first admissible name that is usable.
\<close>

locale steady_probing = probing +
  fixes usable :: "string \<Rightarrow> bool"
  assumes attempt_result: "inv s \<Longrightarrow> chosen s = None \<Longrightarrow> fst (attempt n s) = Inr (usable n)"
begin

lemma probe_first:
  "inv s \<Longrightarrow> chosen s = None \<Longrightarrow>
     wp (probe_loop attempt use_hw names)
       (\<lambda>_ t. inv t \<and> chosen t = List.find usable (admissible use_hw names)) (\<lambda>_ _. False) s"
proof (induction names arbitrary: s)
  case Nil
  then show ?case by (simp add: wp_ret)
next
  case (Cons m names)
  obtain t where t: "attempt m s = (Inr (usable m), t)"
    using attempt_result [OF Cons.prems, of m] by (cases "attempt m s") auto
  with attempt_wp [OF Cons.prems, of m] have
    "inv t" "chosen t = (if usable m then Some m else None)" by (auto simp: wp_def)
  with t Cons show ?case
    by (cases "\<not> use_hw \<and> CHR ''_'' \<in> set m"; cases "usable m")
      (auto simp: wp_bnd wp_ret wp_def [of "attempt m"])
qed

end

end
