(* ===== verification/Images.thy ===== *)
theory Images
  imports Prelude
begin

text \<open>
  Camera images (\<^verbatim>\<open>sensor_msgs/msg/Image\<close>), the encodings that the program knows, and the
  FFmpeg pixel formats they stand for (\<^verbatim>\<open>toAVPixelFormat\<close> in
  \<^verbatim>\<open>src/src/stream_encoder.cpp\<close>).
\<close>

datatype image_encoding =
    BGR8 | RGB8 | RGBA8 | BGRA8 | MONO8 | RGB16 | BGR16 | RGBA16 | BGRA16 | MONO16
  | UYVY | YUV422 | BAYER_RGGB8 | BAYER_BGGR8 | BAYER_GBRG8 | BAYER_GRBG8 | YUYV | YUV422_YUY2
  | NV21 | NV24 | BAYER_RGGB16 | BAYER_BGGR16 | BAYER_GBRG16 | BAYER_GRBG16
  | OtherEncoding string

datatype pix_fmt =
    PIX_NONE | PIX_BGR24 | PIX_RGB24 | PIX_RGBA | PIX_BGRA | PIX_GRAY8
  | PIX_RGB48BE | PIX_RGB48LE | PIX_BGR48BE | PIX_BGR48LE | PIX_RGBA64BE | PIX_RGBA64LE
  | PIX_BGRA64BE | PIX_BGRA64LE | PIX_GRAY16BE | PIX_GRAY16LE | PIX_UYVY422
  | PIX_BAYER_RGGB8 | PIX_BAYER_BGGR8 | PIX_BAYER_GBRG8 | PIX_BAYER_GRBG8
  | PIX_YUYV422 | PIX_NV21 | PIX_NV24
  | PIX_BAYER_RGGB16BE | PIX_BAYER_RGGB16LE | PIX_BAYER_BGGR16BE | PIX_BAYER_BGGR16LE
  | PIX_BAYER_GBRG16BE | PIX_BAYER_GBRG16LE | PIX_BAYER_GRBG16BE | PIX_BAYER_GRBG16LE
  | PIX_VAAPI | PIX_NV12 | PIX_YUV420P

record image =
  i_width :: "32 word"
  i_height :: "32 word"
  i_encoding :: image_encoding
  i_bigendian :: bool
  i_step :: "32 word"
  i_data :: "byte list"
  i_stamp :: stamp

definition toAVPixelFormat :: "image \<Rightarrow> pix_fmt" where
  "toAVPixelFormat img =
     (let be = i_bigendian img in
      case i_encoding img of
        BGR8 \<Rightarrow> PIX_BGR24
      | RGB8 \<Rightarrow> PIX_RGB24
      | RGBA8 \<Rightarrow> PIX_RGBA
      | BGRA8 \<Rightarrow> PIX_BGRA
      | MONO8 \<Rightarrow> PIX_GRAY8
      | RGB16 \<Rightarrow> if be then PIX_RGB48BE else PIX_RGB48LE
      | BGR16 \<Rightarrow> if be then PIX_BGR48BE else PIX_BGR48LE
      | RGBA16 \<Rightarrow> if be then PIX_RGBA64BE else PIX_RGBA64LE
      | BGRA16 \<Rightarrow> if be then PIX_BGRA64BE else PIX_BGRA64LE
      | MONO16 \<Rightarrow> if be then PIX_GRAY16BE else PIX_GRAY16LE
      | UYVY \<Rightarrow> PIX_UYVY422
      | YUV422 \<Rightarrow> PIX_UYVY422
      | BAYER_RGGB8 \<Rightarrow> PIX_BAYER_RGGB8
      | BAYER_BGGR8 \<Rightarrow> PIX_BAYER_BGGR8
      | BAYER_GBRG8 \<Rightarrow> PIX_BAYER_GBRG8
      | BAYER_GRBG8 \<Rightarrow> PIX_BAYER_GRBG8
      | YUYV \<Rightarrow> PIX_YUYV422
      | YUV422_YUY2 \<Rightarrow> PIX_YUYV422
      | NV21 \<Rightarrow> PIX_NV21
      | NV24 \<Rightarrow> PIX_NV24
      | BAYER_RGGB16 \<Rightarrow> if be then PIX_BAYER_RGGB16BE else PIX_BAYER_RGGB16LE
      | BAYER_BGGR16 \<Rightarrow> if be then PIX_BAYER_BGGR16BE else PIX_BAYER_BGGR16LE
      | BAYER_GBRG16 \<Rightarrow> if be then PIX_BAYER_GBRG16BE else PIX_BAYER_GBRG16LE
      | BAYER_GRBG16 \<Rightarrow> if be then PIX_BAYER_GRBG16BE else PIX_BAYER_GRBG16LE
      | OtherEncoding _ \<Rightarrow> PIX_NONE)"

section \<open>What is read of an image\<close>

text \<open>
  The bytes of one row of pixels, as FFmpeg documents the formats: pixels of one to eight bytes
  or, for the two 4:2:2 formats, pairs of pixels of four bytes. \<open>planes\<close>: NV21 and NV24 have their
  chroma in a second plane.
\<close>

definition row_bytes :: "pix_fmt \<Rightarrow> nat \<Rightarrow> nat" where
  "row_bytes fmt w =
     (if fmt \<in> {PIX_UYVY422, PIX_YUYV422} then 4 * ((w + 1) div 2)
      else if fmt \<in> {PIX_BGR24, PIX_RGB24} then 3 * w
      else if fmt \<in> {PIX_RGBA, PIX_BGRA} then 4 * w
      else if fmt \<in> {PIX_RGB48BE, PIX_RGB48LE, PIX_BGR48BE, PIX_BGR48LE} then 6 * w
      else if fmt \<in> {PIX_RGBA64BE, PIX_RGBA64LE, PIX_BGRA64BE, PIX_BGRA64LE} then 8 * w
      else if fmt \<in> {PIX_GRAY16BE, PIX_GRAY16LE, PIX_BAYER_RGGB16BE, PIX_BAYER_RGGB16LE, PIX_BAYER_BGGR16BE,
        PIX_BAYER_BGGR16LE, PIX_BAYER_GBRG16BE, PIX_BAYER_GBRG16LE, PIX_BAYER_GRBG16BE, PIX_BAYER_GRBG16LE}
        then 2 * w
      else w)"

definition planes :: "pix_fmt \<Rightarrow> nat" where
  "planes fmt = (if fmt \<in> {PIX_NV21, PIX_NV24} then 2 else 1)"

text \<open>
  \<^verbatim>\<open>sws_scale\<close> is given one pointer, to the data of the image, and the step as an \<^verbatim>\<open>int\<close>. It reads
  each of the rows, as far apart as the step says, and needs a pointer for each plane;
  everything it reads has to lie within the data.
\<close>

definition readable :: "image \<Rightarrow> bool" where
  "readable img \<longleftrightarrow> planes (toAVPixelFormat img) = 1 \<and>
     list_all (\<lambda>y. let start = int y * sint (i_step img)
       in 0 \<le> start \<and> start + int (row_bytes (toAVPixelFormat img) (unat (i_width img))) \<le> int (length (i_data img)))
       [0..<unat (i_height img)]"

text \<open>So the image that a camera driver fills in properly is readable.\<close>

lemma readable_packed:
  assumes "planes (toAVPixelFormat img) = 1" and "unat (i_step img) < 2 ^ 31"
    and "row_bytes (toAVPixelFormat img) (unat (i_width img)) \<le> unat (i_step img)"
    and "unat (i_step img) * unat (i_height img) \<le> length (i_data img)"
  shows "readable img"
proof -
  let ?step = "unat (i_step img)" and ?row = "row_bytes (toAVPixelFormat img) (unat (i_width img))"
  have "int ?step < int (2 ^ 31)" using assms(2) by (simp only: of_nat_less_iff)
  then have "uint (i_step img) < 2 ^ 31" by simp
  moreover have "- (2 ^ 31) \<le> uint (i_step img)" by (rule order_trans [OF _ uint_ge_0]) simp
  ultimately have "signed_take_bit 31 (uint (i_step img)) = uint (i_step img)"
    by (intro signed_take_bit_int_eq_self)
  then have "sint (i_step img) = int ?step" by (simp add: sint_uint)
  moreover have "int y * uint (i_step img) + int ?row \<le> int (length (i_data img))" if "y < unat (i_height img)" for y
  proof -
    have "y * ?step + ?row \<le> Suc y * ?step" using assms(3) by simp
    also have "\<dots> \<le> unat (i_height img) * ?step" using that by (intro mult_le_mono1) simp
    also have "\<dots> \<le> length (i_data img)" using assms(4) by (simp add: mult.commute)
    finally have "int (y * ?step + ?row) \<le> int (length (i_data img))" by (simp only: of_nat_le_iff)
    then show ?thesis by simp
  qed
  ultimately show ?thesis using assms(1)
    by (auto simp: readable_def list_all_iff Let_def)
qed

text \<open>An image with its chroma in a plane of its own never is.\<close>

theorem semi_planar_unreadable:
  "i_encoding img = NV21 \<or> i_encoding img = NV24 \<Longrightarrow> \<not> readable img"
  by (auto simp: readable_def planes_def toAVPixelFormat_def Let_def)

end
