(* ===== verification/Stream_Encoder.thy ===== *)
theory Stream_Encoder
  imports Codec_Probe Nal_Split Images
begin

text \<open>
  The encoder (\<^verbatim>\<open>src/src/stream_encoder.h\<close>, \<^verbatim>\<open>src/src/stream_encoder.cpp\<close>) and the
  scoped change of FFmpeg's log level (\<^verbatim>\<open>src/src/log_level.h\<close>) that it uses.

  FFmpeg is the parameter \<open>ff\<close>, a record of the functions that the code calls. Each call
  may look at and change a hidden world of type \<open>'w\<close>, so no assumption is made that two
  calls with the same arguments give the same result. The fields of \<^verbatim>\<open>AVCodecContext\<close> that
  the code writes are the record \<open>avctx\<close>. Smart pointers are options, or truth values where
  only their presence matters.
\<close>

section \<open>FFmpeg\<close>

datatype opt_value = OptStr string | OptInt int

record avctx =
  codec_name :: string
  log_level_offset :: int
  time_base :: "int \<times> int"
  gop_size :: int
  bit_rate :: int
  framerate :: "int \<times> int"
  rc_min_rate :: int
  rc_max_rate :: int
  rc_buffer_size :: int
  flag_global_header :: bool
  flag_closed_gop :: bool
  flag_low_delay :: bool
  global_quality :: int
  max_b_frames :: int
  trellis :: int
  width :: "32 word"
  height :: "32 word"
  pixfmt :: pix_fmt
  hw_frames_ref :: bool
  opts :: "(string \<times> opt_value) list"

text \<open>What is handed to \<^verbatim>\<open>avcodec_send_frame\<close>: the source image, the conversion it went
  through, whether it was uploaded to the hardware, and the presentation time stamp.\<close>

record enc_input =
  in_image :: image
  in_sws :: "(32 word \<times> 32 word \<times> pix_fmt \<times> pix_fmt)"
  in_hw :: bool
  in_pts :: int

record 'w ffmpeg =
  hwframe_support :: bool
  padding :: nat
  eagain :: int
  av_log_panic :: int
  err_string :: "int \<Rightarrow> string"
  encoding_text :: "image_encoding \<Rightarrow> string"
  ticks :: "int \<Rightarrow> int"
  encoder_by_name :: "string \<Rightarrow> 'w \<Rightarrow> string option \<times> 'w"
  alloc_context :: "string \<Rightarrow> 'w \<Rightarrow> avctx option \<times> 'w"
  opt_set :: "avctx \<Rightarrow> string \<Rightarrow> opt_value \<Rightarrow> 'w \<Rightarrow> int \<times> 'w"
  codec_open :: "avctx \<Rightarrow> 'w \<Rightarrow> int \<times> 'w"
  hwdevice_create :: "'w \<Rightarrow> int \<times> 'w"
  hwframe_alloc :: "'w \<Rightarrow> bool \<times> 'w"
  hwframe_init :: "32 word \<times> 32 word \<Rightarrow> 'w \<Rightarrow> int \<times> 'w"
  hwframe_get_buffer :: "'w \<Rightarrow> int \<times> 'w"
  frame_get_buffer :: "32 word \<times> 32 word \<times> pix_fmt \<Rightarrow> 'w \<Rightarrow> int \<times> 'w"
  sws_get :: "(32 word \<times> 32 word \<times> pix_fmt \<times> pix_fmt) \<Rightarrow> 'w \<Rightarrow> bool \<times> 'w"
  send_frame :: "avctx \<Rightarrow> enc_input \<Rightarrow> 'w \<Rightarrow> int \<times> 'w"
  receive_packet :: "avctx \<Rightarrow> 'w \<Rightarrow> (int + byte list) \<times> 'w"

section \<open>The class\<close>

text \<open>
  \<open>sent\<close> records what was handed to \<^verbatim>\<open>avcodec_send_frame\<close>;
  \<open>log_level\<close> is FFmpeg's global log level.
\<close>

record 'w encoder =
  e_codec :: video_codec
  initialized :: bool
  is_vaapi :: bool
  ctx :: "avctx option"
  hw_device :: bool
  hw_frames :: bool
  hw_frm :: bool
  sw_frm :: bool
  pkt :: bool
  last_pixel_format :: pix_fmt
  sws :: "(32 word \<times> 32 word \<times> pix_fmt \<times> pix_fmt) option"
  first_ts :: stamp
  last_pts :: int
  packets :: "frame_data list"
  sent :: "enc_input list"
  log_level :: int
  world :: 'w

text \<open>A call of FFmpeg, and an access through \<^verbatim>\<open>ctx_\<close>.\<close>

definition call :: "('w \<Rightarrow> 'a \<times> 'w) \<Rightarrow> ('w encoder, 'a) op" where
  "call f = (\<lambda>s. case f (world s) of (a, w) \<Rightarrow> (Inr a, s\<lparr>world := w\<rparr>))"

definition upd_ctx :: "(avctx \<Rightarrow> avctx) \<Rightarrow> ('w encoder, unit) op" where
  "upd_ctx f = bnd (deref ctx) (\<lambda>c. upd (\<lambda>s. s\<lparr>ctx := Some (f c)\<rparr>))"

lemma wp_call [wp_rules]:
  "wp (call f) Q E s = (case f (world s) of (a, w) \<Rightarrow> Q a (s\<lparr>world := w\<rparr>))"
  by (simp add: wp_def call_def split: prod.splits)

lemma wp_upd_ctx [wp_rules]:
  "wp (upd_ctx f) Q E s =
     (case ctx s of None \<Rightarrow> E NullDeref s | Some c \<Rightarrow> Q () (s\<lparr>ctx := Some (f c)\<rparr>))"
  by (simp add: upd_ctx_def wp_rules split: option.split)

text \<open>The two overloads of \<^verbatim>\<open>set_codec_option\<close>: a rejected option is only logged.\<close>

definition set_codec_option :: "'w ffmpeg \<Rightarrow> string \<Rightarrow> opt_value \<Rightarrow> ('w encoder, unit) op" where
  "set_codec_option ff opt value =
     bnd (deref ctx) (\<lambda>c. bnd (call (opt_set ff c opt value)) (\<lambda>result.
       whenb (result = 0) (upd_ctx (\<lambda>c. c\<lparr>opts := opts c @ [(opt, value)]\<rparr>))))"

text \<open>The callback that FFmpeg asks for a format; the array of formats ends with \<open>PIX_NONE\<close>.\<close>

primrec getVAAPIFormat :: "pix_fmt list \<Rightarrow> pix_fmt" where
  "getVAAPIFormat [] = PIX_NONE"
| "getVAAPIFormat (p # formats) =
     (if p = PIX_NONE then PIX_NONE
      else if p = PIX_VAAPI then p
      else getVAAPIFormat formats)"

lemma getVAAPIFormat_offered:
  "getVAAPIFormat (formats @ [PIX_NONE]) =
     (if PIX_VAAPI \<in> set (takeWhile (\<lambda>p. p \<noteq> PIX_NONE) formats) then PIX_VAAPI else PIX_NONE)"
  by (induction formats) auto

text \<open>\<^verbatim>\<open>TemporaryAvLogLevel\<close>: the destructor runs also when the block is left by an exception.\<close>

definition with_log_level :: "int \<Rightarrow> ('w encoder, 'a) op \<Rightarrow> ('w encoder, 'a) op" where
  "with_log_level level m =
     (\<lambda>s. let old = log_level s in
      case m (s\<lparr>log_level := level\<rparr>) of (r, t) \<Rightarrow> (r, t\<lparr>log_level := old\<rparr>))"

lemma wp_with_log_level [wp_rules]:
  "wp (with_log_level l m) Q E s =
     wp m (\<lambda>a t. Q a (t\<lparr>log_level := log_level s\<rparr>)) (\<lambda>e t. E e (t\<lparr>log_level := log_level s\<rparr>))
       (s\<lparr>log_level := l\<rparr>)"
  by (auto simp: wp_def with_log_level_def split: prod.splits sum.splits)

definition FFMPEG_ENCODERS :: "(video_codec \<times> string list) list" where
  "FFMPEG_ENCODERS =
     [(H264, [''h264_vaapi'', ''h264_qsv'', ''h264_nvenc'', ''h264_vulkan'', ''h264_omx'', ''libx264'', ''h264'']),
      (H265, [''hevc_vaapi'', ''hevc_qsv'', ''hevc_nvenc'', ''hevc_vulkan'', ''libx265'', ''h265'']),
      (MPEG4, [''mjpeg_vaapi'', ''mjpeg_qsv'', ''mpeg4_omx'', ''libxvid'', ''mpeg4'']),
      (VP8, [''vp8_vaapi'', ''vp8_qsv'', ''libvpx'', ''vp8'']),
      (VP9, [''vp9_vaapi'', ''vp9_qsv'', ''libvpx-vp9'', ''vp9'']),
      (AV1, [''av1_vaapi'', ''av1_qsv'', ''av1_nvenc'', ''librav1e'', ''libaom-av1''])]"

abbreviation throw_streaming :: "string \<Rightarrow> ('s, 'a) op" where
  "throw_streaming msg \<equiv> fail (Throw (StreamingError msg))"

abbreviation throw_encoding :: "string \<Rightarrow> ('s, 'a) op" where
  "throw_encoding msg \<equiv> fail (Throw (EncodingError msg))"

definition setup_vaapi :: "'w ffmpeg \<Rightarrow> ('w encoder, unit) op" where
  "setup_vaapi ff =
     bnd (gets is_vaapi) (\<lambda>vaapi. whenb vaapi
       (if hwframe_support ff
        then bnd (call (hwdevice_create ff)) (\<lambda>result.
          if result \<noteq> 0
          then throw_streaming (''failed to allocate VAAPI device context: '' @ err_string ff result)
          else upd (\<lambda>s. s\<lparr>hw_device := True\<rparr>))
        else throw_streaming ''FFmpeg library lacks hwframe support for VAAPI''))"

definition setup_context :: "'w ffmpeg \<Rightarrow> string \<Rightarrow> ('w encoder, unit) op" where
  "setup_context ff enc =
     thn (bnd (call (alloc_context ff enc)) (\<lambda>c. upd (\<lambda>s. s\<lparr>ctx := c\<rparr>)))
    (thn (bnd (gets ctx) (\<lambda>c. whenb (c = None)
           (throw_streaming ''failed to initialize encoder context'')))
    (upd_ctx (\<lambda>c. c\<lparr>log_level_offset := 8, time_base := (1, 300), gop_size := 30,
       bit_rate := 1000000, framerate := (30, 1), rc_min_rate := 0,
       rc_max_rate := 1000000, rc_buffer_size := 2 * 1000000,
       flag_global_header := False, flag_closed_gop := True\<rparr>)))"

definition setup_options :: "'w ffmpeg \<Rightarrow> string \<Rightarrow> ('w encoder, unit) op" where
  "setup_options ff enc =
     bnd (gets e_codec) (\<lambda>codec. bnd (gets is_vaapi) (\<lambda>vaapi.
       thn (whenb (codec = H264 \<or> codec = H265)
         (thn (set_codec_option ff ''profile'' (OptStr ''main''))
         (thn (if contains ''nvenc'' enc then
                 thn (set_codec_option ff ''preset'' (OptStr ''llhp''))
                     (set_codec_option ff ''zerolatency'' (OptInt 1))
               else if contains ''x26'' enc then
                 thn (set_codec_option ff ''preset'' (OptStr ''fast''))
                     (set_codec_option ff ''tune'' (OptStr ''zerolatency''))
               else if contains ''qsv'' enc then
                 thn (set_codec_option ff ''look_ahead'' (OptStr ''0''))
                (thn (set_codec_option ff ''preset'' (OptStr ''fast''))
                     (set_codec_option ff ''tune'' (OptStr ''zerolatency'')))
               else ret ())
         (whenb vaapi
           (thn (upd_ctx (\<lambda>c. c\<lparr>global_quality := 20\<rparr>))
                (set_codec_option ff ''async_depth'' (OptInt 1)))))))
      (thn (whenb (codec = H264)
         (whenb (contains ''x264'' enc) (set_codec_option ff ''b-pyramid'' (OptInt 0))))
      (thn (whenb (codec = VP8 \<or> codec = VP9)
         (whenb (contains ''vpx'' enc) (set_codec_option ff ''deadline'' (OptStr ''realtime''))))
      (thn (whenb (codec = AV1) (set_codec_option ff ''speed'' (OptInt 10)))
      (thn (whenb (codec = MPEG4) (upd_ctx (\<lambda>c. c\<lparr>max_b_frames := 0, trellis := 1\<rparr>)))
           (upd_ctx (\<lambda>c. c\<lparr>flag_low_delay := True\<rparr>))))))))"

text \<open>\<^verbatim>\<open>setupEncoder\<close>; its parameter \<^verbatim>\<open>silent\<close> only suppresses log messages.\<close>

definition setupEncoder :: "'w ffmpeg \<Rightarrow> string \<Rightarrow> ('w encoder, unit) op" where
  "setupEncoder ff enc =
     thn (upd (\<lambda>s. s\<lparr>ctx := None\<rparr>))
    (thn (whenb (hwframe_support ff) (upd (\<lambda>s. s\<lparr>hw_device := False, hw_frames := False\<rparr>)))
    (thn (upd (\<lambda>s. s\<lparr>is_vaapi := contains ''vaapi'' enc\<rparr>))
    (thn (setup_vaapi ff)
    (thn (setup_context ff enc)
         (setup_options ff enc)))))"

definition open_frames :: "'w ffmpeg \<Rightarrow> 32 word \<Rightarrow> 32 word \<Rightarrow> ('w encoder, unit) op" where
  "open_frames ff w h =
     (if hwframe_support ff then
        bnd (gets is_vaapi) (\<lambda>vaapi.
          if vaapi then
            bnd (call (hwframe_alloc ff)) (\<lambda>frames.
            thn (whenb (\<not> frames) (throw_streaming ''failed to allocate VAAPI frame buffer''))
           (thn (upd (\<lambda>s. s\<lparr>hw_frames := True\<rparr>))
           (bnd (call (hwframe_init ff (w, h))) (\<lambda>result.
            thn (whenb (result \<noteq> 0)
                  (throw_streaming (''failed to initialize VAAPI frame buffer: '' @ err_string ff result)))
                (upd_ctx (\<lambda>c. c\<lparr>hw_frames_ref := True, pixfmt := PIX_VAAPI\<rparr>))))))
          else upd_ctx (\<lambda>c. c\<lparr>pixfmt :=
            if contains ''qsv'' (codec_name c) then PIX_NV12 else PIX_YUV420P\<rparr>))
      else upd_ctx (\<lambda>c. c\<lparr>pixfmt := PIX_YUV420P\<rparr>))"

definition open_codec :: "'w ffmpeg \<Rightarrow> ('w encoder, unit) op" where
  "open_codec ff =
     bnd (deref ctx) (\<lambda>c. bnd (call (codec_open ff c)) (\<lambda>result.
       whenb (result \<noteq> 0) (throw_streaming (''failed to open encoder: '' @ err_string ff result))))"

definition openEncoder :: "'w ffmpeg \<Rightarrow> 32 word \<Rightarrow> 32 word \<Rightarrow> ('w encoder, unit) op" where
  "openEncoder ff w h =
     thn (upd_ctx (\<lambda>c. c\<lparr>width := w, height := h\<rparr>))
    (thn (open_frames ff w h)
         (open_codec ff))"

text \<open>The body of the constructor's loop: \<open>True\<close> is the \<^verbatim>\<open>break\<close>.\<close>

definition try_encoder :: "'w ffmpeg \<Rightarrow> string \<Rightarrow> ('w encoder, bool) op" where
  "try_encoder ff name =
     handle
       (bnd (call (encoder_by_name ff name)) (\<lambda>encoder.
          case encoder of
            Some enc \<Rightarrow>
              thn (with_log_level (av_log_panic ff)
                    (thn (setupEncoder ff enc) (openEncoder ff 640 480)))
             (thn (setupEncoder ff enc)
                  (ret True))
          | None \<Rightarrow> ret False))
       (\<lambda>e. thn (upd (\<lambda>s. s\<lparr>ctx := None\<rparr>))
           (thn (whenb (hwframe_support ff) (upd (\<lambda>s. s\<lparr>hw_device := False, hw_frames := False\<rparr>)))
                (ret False)))"

definition blank_encoder :: "video_codec \<Rightarrow> int \<Rightarrow> 'w \<Rightarrow> 'w encoder" where
  "blank_encoder codec level w =
     \<lparr>e_codec = codec, initialized = False, is_vaapi = False, ctx = None, hw_device = False,
      hw_frames = False, hw_frm = False, sw_frm = False, pkt = False, last_pixel_format = PIX_NONE,
      sws = None, first_ts = 0, last_pts = -1, packets = [], sent = [], log_level = level, world = w\<rparr>"

definition StreamEncoder :: "'w ffmpeg \<Rightarrow> video_codec \<Rightarrow> bool \<Rightarrow> ('w encoder, unit) op" where
  "StreamEncoder ff codec use_hw_encoder =
     (case map_of FFMPEG_ENCODERS codec of
        None \<Rightarrow> throw_streaming (''no encoder support available for '' @ videoCodecName codec)
      | Some names \<Rightarrow>
          thn (probe_loop (try_encoder ff) use_hw_encoder names)
         (bnd (gets ctx) (\<lambda>c. whenb (c = None)
            (throw_streaming (''no usable encoder available for '' @ videoCodecName codec)))))"

section \<open>Configuration\<close>

definition setBitrate :: "64 word \<Rightarrow> ('w encoder, unit) op" where
  "setBitrate rate =
     bnd (gets initialized) (\<lambda>ini.
       if ini then throw_streaming ''cannot modify bitrate after encoding has started''
       else upd_ctx (\<lambda>c. c\<lparr>bit_rate := sint rate, rc_max_rate := sint rate\<rparr>))"

definition setFramerate :: "32 word \<Rightarrow> ('w encoder, unit) op" where
  "setFramerate fps =
     bnd (gets initialized) (\<lambda>ini.
       if ini then throw_streaming ''cannot modify frame rate after encoding has started''
       else upd_ctx (\<lambda>c. c\<lparr>gop_size := sint fps, framerate := (sint fps, 1)\<rparr>))"

definition setPackageSizeHint :: "'w ffmpeg \<Rightarrow> 32 word \<Rightarrow> ('w encoder, unit) op" where
  "setPackageSizeHint ff hint =
     bnd (gets initialized) (\<lambda>ini.
       if ini then throw_streaming ''cannot modify package size hint after encoding has started''
       else bnd (gets e_codec) (\<lambda>codec. whenb (codec = H264)
         (bnd (deref ctx) (\<lambda>c. whenb (contains ''x264'' (codec_name c))
            (set_codec_option ff ''slice-max-size'' (OptInt (sint hint)))))))"

section \<open>Encoding\<close>

text \<open>
  The loop \<^verbatim>\<open>while ((result = avcodec_receive_packet(...)) == 0)\<close>. It returns the result
  that ended it and the number of frames that it appended; \<open>None\<close> means that FFmpeg never
  stops giving packets, an \<open>Inl\<close> that the splitter read outside of a packet.
\<close>

partial_function (option) receive_loop ::
  "'w ffmpeg \<Rightarrow> video_codec \<Rightarrow> avctx \<Rightarrow> stamp \<Rightarrow> 'w \<Rightarrow> frame_data list \<Rightarrow> nat \<Rightarrow>
   ((fault + int \<times> nat) \<times> frame_data list \<times> 'w) option" where
  "receive_loop ff codec c t w out count =
     (case receive_packet ff c w of
        (Inl result, w') \<Rightarrow> Some (Inr (result, count), out, w')
      | (Inr data, w') \<Rightarrow>
          (if codec = H264 \<or> codec = H265
           then (case splitNALs (padding ff) out data t of
                   None \<Rightarrow> Some (Inl OutOfBounds, out, w')
                 | Some (out', n) \<Rightarrow> receive_loop ff codec c t w' out' (count + n))
           else (case FrameData (padding ff) data 0 (length data) t of
                   Inl e \<Rightarrow> Some (Inl e, out, w')
                 | Inr f \<Rightarrow> receive_loop ff codec c t w' (out @ [f]) (count + 1))))"

declare receive_loop.simps [code]

definition receive_packets :: "'w ffmpeg \<Rightarrow> stamp \<Rightarrow> ('w encoder, int \<times> nat) op" where
  "receive_packets ff t =
     bnd (deref ctx) (\<lambda>c. \<lambda>s.
       case receive_loop ff (e_codec s) c t (world s) (packets s) 0 of
         None \<Rightarrow> (Inl Diverges, s)
       | Some (r, out, w) \<Rightarrow> (r, s\<lparr>packets := out, world := w\<rparr>))"

text \<open>
  The conversion of a time stamp of a message to \<^verbatim>\<open>rclcpp::Time\<close>, which throws for negative
  seconds, as documented.
\<close>

definition rclcpp_time :: "stamp \<Rightarrow> fault + stamp" where
  "rclcpp_time t =
     (if t < 0 then Inl (Throw (StdException ''cannot store a negative time point in rclcpp::Time'')) else Inr t)"

definition start_encoding :: "'w ffmpeg \<Rightarrow> image \<Rightarrow> ('w encoder, unit) op" where
  "start_encoding ff img =
     bnd (gets initialized) (\<lambda>ini. whenb (\<not> ini)
       (thn (openEncoder ff (i_width img) (i_height img))
       (thn (upd (\<lambda>s. s\<lparr>sw_frm := True\<rparr>))
       (thn (whenb (hwframe_support ff)
              (bnd (gets is_vaapi) (\<lambda>vaapi. whenb vaapi
                (thn (upd (\<lambda>s. s\<lparr>hw_frm := True\<rparr>))
                (bnd (call (hwframe_get_buffer ff)) (\<lambda>result. whenb (result \<noteq> 0)
                  (throw_streaming ''failed to allocate HW frame from VAAPI frame buffer'')))))))
      (thn (upd (\<lambda>s. s\<lparr>pkt := True\<rparr>))
      (bnd (lift_op (rclcpp_time (i_stamp img))) (\<lambda>t.
       upd (\<lambda>s. s\<lparr>first_ts := t, last_pts := -1, packets := [],
              last_pixel_format := PIX_NONE, initialized := True\<rparr>))))))))"

text \<open>
  The conversion into the encoder's software format. The result is the conversion that
  \<^verbatim>\<open>sws_scale\<close> was called with; a conversion context that could not be created is a null
  pointer there, and an image whose rows do not lie within its data is read out of bounds.
\<close>

definition convert_frame ::
  "'w ffmpeg \<Rightarrow> image \<Rightarrow> ('w encoder, 32 word \<times> 32 word \<times> pix_fmt \<times> pix_fmt) op" where
  "convert_frame ff img =
     (let av_format = toAVPixelFormat img in
      thn (whenb (av_format = PIX_NONE)
            (throw_streaming (''unsupported image format '' @ encoding_text ff (i_encoding img))))
     (bnd (deref ctx) (\<lambda>c. bnd (gets is_vaapi) (\<lambda>vaapi.
        let sw_format = (if hwframe_support ff \<and> vaapi then PIX_NV12 else pixfmt c);
            conversion = (i_width img, i_height img, av_format, sw_format)
        in bnd (call (frame_get_buffer ff (i_width img, i_height img, sw_format))) (\<lambda>result.
           thn (whenb (result \<noteq> 0) (throw_streaming ''failed to allocate encoding frame buffer''))
          (thn (bnd (gets sws) (\<lambda>old. bnd (gets last_pixel_format) (\<lambda>last_fmt.
                  whenb (old = None \<or> av_format \<noteq> last_fmt)
                    (bnd (call (sws_get ff conversion)) (\<lambda>ok.
                     upd (\<lambda>s. s\<lparr>sws := if ok then Some conversion else None,
                                last_pixel_format := av_format\<rparr>))))))
               (bnd (deref sws) (\<lambda>scaler.
                thn (whenb (\<not> readable img) (fail OutOfBounds)) (ret scaler)))))))))"

definition next_pts :: "'w ffmpeg \<Rightarrow> image \<Rightarrow> 'w encoder \<Rightarrow> int" where
  "next_pts ff img s =
     (let d = i_stamp img - first_ts s; pts = ticks ff d
      in if pts \<le> last_pts s then last_pts s + 1 else pts)"

text \<open>The part of \<^verbatim>\<open>encodeVideo\<close> from \<^verbatim>\<open>avcodec_send_frame\<close> on.\<close>

definition submit_frame ::
  "'w ffmpeg \<Rightarrow> image \<Rightarrow> 32 word \<times> 32 word \<times> pix_fmt \<times> pix_fmt \<Rightarrow> int \<Rightarrow> ('w encoder, nat) op" where
  "submit_frame ff img conversion pts =
     bnd (deref ctx) (\<lambda>c. bnd (gets is_vaapi) (\<lambda>vaapi.
       let inp = \<lparr>in_image = img, in_sws = conversion,
                  in_hw = hwframe_support ff \<and> vaapi, in_pts = pts\<rparr>
       in thn (upd (\<lambda>s. s\<lparr>sent := sent s @ [inp]\<rparr>))
         (bnd (call (send_frame ff c inp)) (\<lambda>result.
          thn (whenb (result \<noteq> 0)
                (throw_encoding (''failed to send video frame to encoder: '' @ err_string ff result)))
              (bnd (receive_packets ff (i_stamp img)) (\<lambda>(result, count).
               thn (whenb (result \<noteq> eagain ff)
                     (throw_encoding (''failed to receive packets from encoder: '' @ err_string ff result)))
                   (ret count)))))))"

definition encodeVideo :: "'w ffmpeg \<Rightarrow> image \<Rightarrow> ('w encoder, nat) op" where
  "encodeVideo ff img =
     thn (start_encoding ff img)
    (thn (bnd (deref ctx) (\<lambda>c. whenb (i_width img \<noteq> width c \<or> i_height img \<noteq> height c)
           (throw_streaming ''image size changed unexpectedly'')))
    (bnd (convert_frame ff img) (\<lambda>conversion.
     thn (lift_op (rclcpp_time (i_stamp img)))
    (bnd (gets (next_pts ff img)) (\<lambda>pts.
     thn (upd (\<lambda>s. s\<lparr>last_pts := pts\<rparr>))
         (submit_frame ff img conversion pts))))))"

definition nextPacket :: "'w encoder \<Rightarrow> frame_data option \<times> 'w encoder" where
  "nextPacket s =
     (case packets s of
        [] \<Rightarrow> (None, s)
      | data # rest \<Rightarrow> (Some data, s\<lparr>packets := rest\<rparr>))"

section \<open>The constructor\<close>

text \<open>What FFmpeg documents of its two lookups by name.\<close>

definition names_ok :: "'w ffmpeg \<Rightarrow> bool" where
  "names_ok ff \<longleftrightarrow>
     (\<forall>n w. fst (encoder_by_name ff n w) \<in> {None, Some n}) \<and>
     (\<forall>n w c. fst (alloc_context ff n w) = Some c \<longrightarrow> codec_name c = n)"

definition chosen :: "'w encoder \<Rightarrow> string option" where
  "chosen s = map_option codec_name (ctx s)"

text \<open>
  Nothing but the configuration is touched before encoding starts; \<open>level\<close> is FFmpeg's log
  level.
\<close>

definition unused :: "video_codec \<Rightarrow> int \<Rightarrow> 'w encoder \<Rightarrow> bool" where
  "unused codec level s \<longleftrightarrow> log_level s = level \<and> e_codec s = codec \<and> \<not> initialized s \<and> packets s = [] \<and> sent s = [] \<and>
     sws s = None \<and> last_pts s = -1"

definition set_up :: "video_codec \<Rightarrow> int \<Rightarrow> string \<Rightarrow> 'w encoder \<Rightarrow> bool" where
  "set_up codec level enc s \<longleftrightarrow> unused codec level s \<and> chosen s = Some enc"

lemma set_up_ctx: "set_up codec level enc s \<Longrightarrow> \<exists>c. ctx s = Some c \<and> codec_name c = enc"
  by (auto simp: set_up_def chosen_def)

text \<open>Calls, context updates and options keep a predicate that does not look at what they
  change.\<close>

definition blind :: "('w encoder \<Rightarrow> bool) \<Rightarrow> bool" where
  "blind I \<longleftrightarrow>
     (\<forall>s w. I s \<longrightarrow> I (s\<lparr>world := w\<rparr>)) \<and>
     (\<forall>s. I s \<longrightarrow> ctx s \<noteq> None) \<and>
     (\<forall>s c c'. I s \<and> ctx s = Some c \<and> codec_name c' = codec_name c \<longrightarrow> I (s\<lparr>ctx := Some c'\<rparr>))"

lemma keeps_call [keeps_rules]: "blind I \<Longrightarrow> keeps I E (call f)"
  by (simp add: keeps_def wp_rules blind_def split: prod.splits)

lemma keeps_deref_ctx [keeps_rules]: "blind I \<Longrightarrow> keeps I E (deref ctx)"
  by (auto simp: keeps_def wp_rules blind_def split: option.splits)

lemma keeps_upd_ctx [keeps_rules]:
  "blind I \<Longrightarrow> (\<And>c. codec_name (f c) = codec_name c) \<Longrightarrow> keeps I E (upd_ctx f)"
  by (auto simp: keeps_def wp_rules blind_def split: option.splits)

lemma keeps_set_codec_option [keeps_rules]: "blind I \<Longrightarrow> keeps I E (set_codec_option ff opt v)"
  unfolding set_codec_option_def by (intro keeps_rules) simp_all

lemma blind_set_up: "blind (set_up codec level enc)"
  by (auto simp: blind_def set_up_def unused_def chosen_def)

lemma keeps_setup_options: "blind I \<Longrightarrow> keeps I E (setup_options ff enc)"
  unfolding setup_options_def by (intro keeps_rules) simp_all

lemma wp_setup_vaapi:
  "unused codec level s \<Longrightarrow> wp (setup_vaapi ff) (\<lambda>_. unused codec level) (throws (unused codec level)) s"
  by (auto simp: setup_vaapi_def wp_rules unused_def split: prod.splits)

lemma wp_setup_context:
  assumes "names_ok ff" and "unused codec level s"
  shows "wp (setup_context ff enc) (\<lambda>_. set_up codec level enc) (throws (unused codec level)) s"
proof -
  obtain c w where c: "alloc_context ff enc (world s) = (c, w)" by (rule prod.exhaust)
  with assms(1) have "\<And>a. c = Some a \<Longrightarrow> codec_name a = enc"
    by (auto simp: names_ok_def) (metis fst_conv)
  with c assms(2) show ?thesis
    by (auto simp: setup_context_def wp_rules set_up_def unused_def chosen_def split: option.splits)
qed

lemma wp_setupEncoder:
  assumes "names_ok ff" and "unused codec level s"
  shows "wp (setupEncoder ff enc) (\<lambda>_. set_up codec level enc) (throws (unused codec level)) s"
proof -
  have u: "\<And>t. set_up codec level enc t \<Longrightarrow> unused codec level t" by (simp add: set_up_def)
  have "wp (thn (setup_context ff enc) (setup_options ff enc))
      (\<lambda>_. set_up codec level enc) (throws (unused codec level)) t" if "unused codec level t" for t
    unfolding wp_thn
    by (rule wp_mono [OF wp_setup_context [OF assms(1) that]])
      (auto intro!: wp_mono [OF keepsD [OF keeps_setup_options [OF blind_set_up, where E = never]]] dest: u)
  then have "wp (thn (setup_vaapi ff) (thn (setup_context ff enc) (setup_options ff enc)))
      (\<lambda>_. set_up codec level enc) (throws (unused codec level)) t" if "unused codec level t" for t
    unfolding wp_thn [of "setup_vaapi ff"]
    by (auto intro!: wp_mono [OF wp_setup_vaapi [OF that]])
  moreover have "unused codec level (s\<lparr>ctx := None, hw_device := False, hw_frames := False,
      is_vaapi := b\<rparr>)" "unused codec level (s\<lparr>ctx := None, is_vaapi := b\<rparr>)" for b
    using assms(2) by (simp_all add: unused_def)
  ultimately show ?thesis
    by (simp add: setupEncoder_def wp_thn [of "upd _"] wp_thn [of "whenb _ _"] wp_upd wp_whenb)
qed

lemma wp_openEncoder:
  assumes "set_up codec level enc s"
  shows "wp (openEncoder ff w h) (\<lambda>_. set_up codec level enc) (throws (set_up codec level enc)) s"
proof -
  have "keeps (set_up codec level enc) (throws (set_up codec level enc)) (openEncoder ff w h)"
    unfolding openEncoder_def open_frames_def open_codec_def
    by (intro keeps_rules keeps_upd blind_set_up) (simp_all add: set_up_def unused_def chosen_def)
  from keepsD [OF this assms] show ?thesis .
qed

lemma wp_try_encoder:
  assumes ok: "names_ok ff" and u: "unused codec level s" and none: "chosen s = None"
  shows "wp (try_encoder ff name)
    (\<lambda>ok t. unused codec level t \<and> chosen t = (if ok then Some name else None)) (\<lambda>_ _. False) s"
proof -
  obtain enc w where found: "encoder_by_name ff name (world s) = (enc, w)" by (rule prod.exhaust)
  let ?s = "s\<lparr>world := w\<rparr>"
  have us: "unused codec level ?s" using u by (simp add: unused_def)
  show ?thesis
  proof (cases enc)
    case None
    with found us none show ?thesis
      by (simp add: try_encoder_def wp_rules) (simp add: chosen_def)
  next
    case (Some enc')
    have "fst (encoder_by_name ff name (world s)) \<in> {None, Some name}"
      using ok by (simp add: names_ok_def)
    with found Some have enc: "enc = Some name" by simp
    have probe: "wp (thn (setupEncoder ff name) (openEncoder ff 640 480))
        (\<lambda>_. unused codec l) (throws (unused codec l)) t" if "unused codec l t" for t l
      unfolding wp_thn
      by (rule wp_mono [OF wp_setupEncoder [OF ok that]])
        (auto intro!: wp_mono [OF wp_openEncoder] simp: set_up_def)
    have "wp (with_log_level (av_log_panic ff) (thn (setupEncoder ff name) (openEncoder ff 640 480)))
        (\<lambda>_. unused codec level) (throws (unused codec level)) ?s"
      unfolding wp_with_log_level
      by (rule wp_mono [OF probe [of "av_log_panic ff"]]) (use us in \<open>auto simp: unused_def\<close>)
    then have "wp (thn (with_log_level (av_log_panic ff)
          (thn (setupEncoder ff name) (openEncoder ff 640 480)))
        (thn (setupEncoder ff name) (ret True)))
        (\<lambda>ok t. ok \<and> set_up codec level name t) (throws (unused codec level)) ?s"
      unfolding wp_thn [of "with_log_level _ _"] wp_thn [of "setupEncoder ff name" "ret True"] wp_ret
      by (rule wp_mono) (auto intro: wp_mono [OF wp_setupEncoder [OF ok]])
    then show ?thesis
      unfolding try_encoder_def wp_handle wp_bnd wp_call found
      by (simp add: enc) (erule wp_mono,
        auto simp: set_up_def wp_thn wp_upd wp_whenb wp_ret unused_def chosen_def)
  qed
qed

definition configuring :: "'w ffmpeg \<Rightarrow> video_codec \<Rightarrow> int \<Rightarrow> 'w encoder \<Rightarrow> bool" where
  "configuring ff codec level s \<longleftrightarrow> names_ok ff \<and> unused codec level s"

interpretation encoder_probing: probing "try_encoder ff" chosen "configuring ff codec level"
  for ff codec level
proof
  fix s n
  assume "configuring ff codec level s" and "chosen s = None"
  then have ok: "names_ok ff" "unused codec level s" "chosen s = None"
    by (simp_all add: configuring_def)
  show "wp (try_encoder ff n) (\<lambda>ok t. configuring ff codec level t \<and>
      chosen t = (if ok then Some n else None)) (\<lambda>_ _. False) s"
    by (rule wp_mono [OF wp_try_encoder [OF ok]]) (auto simp: configuring_def ok(1))
qed

lemma wp_StreamEncoder:
  assumes "names_ok ff"
  shows "wp (StreamEncoder ff codec use_hw)
    (\<lambda>_ t. unused codec level t \<and> (\<exists>names n. map_of FFMPEG_ENCODERS codec = Some names \<and>
        chosen t = Some n \<and> n \<in> set (admissible use_hw names)))
    (\<lambda>f t. log_level t = level \<and> (\<exists>e. f = Throw (StreamingError e)))
    (blank_encoder codec level w)"
proof (cases "map_of FFMPEG_ENCODERS codec")
  case None
  then show ?thesis by (simp add: StreamEncoder_def wp_rules blank_encoder_def)
next
  case (Some names)
  have "configuring ff codec level (blank_encoder codec level w)"
    "chosen (blank_encoder codec level w) = None"
    using assms by (simp_all add: configuring_def unused_def blank_encoder_def chosen_def)
  from encoder_probing.probe_wp [OF this, of use_hw names] Some show ?thesis
    unfolding StreamEncoder_def
    by (auto simp: wp_thn wp_bnd [of "gets ctx"] wp_gets wp_whenb wp_fail elim!: wp_mono)
      (auto simp: configuring_def unused_def chosen_def)
qed

text \<open>
  What a constructed encoder is. When the constructor of \<open>StreamEncoder\<close> returns, the
  codec context belongs to one of the implementations listed for the codec, one without an
  underscore in its name when hardware encoders are not wanted, and nothing was encoded
  yet. When it fails, then with a \<open>StreamingError\<close>, never by undefined behaviour. In both
  cases the log level of FFmpeg is the one from before.
\<close>

theorem StreamEncoder_result:
  assumes "names_ok ff"
  shows "case StreamEncoder ff codec use_hw (blank_encoder codec level w) of
      (Inr _, t) \<Rightarrow> \<not> initialized t \<and> packets t = [] \<and> log_level t = level \<and>
        (\<exists>names n c. map_of FFMPEG_ENCODERS codec = Some names \<and> n \<in> set names \<and>
          (use_hw \<or> CHR ''_'' \<notin> set n) \<and> ctx t = Some c \<and> codec_name c = n)
    | (Inl f, t) \<Rightarrow> log_level t = level \<and> (\<exists>msg. f = Throw (StreamingError msg))"
  using wp_StreamEncoder [OF assms, of codec use_hw level w]
  by (auto simp: wp_def unused_def chosen_def admissible_def split: prod.splits sum.splits)

text \<open>An FFmpeg that has one software encoder, which turns every image into one packet with
  one NAL unit; the instance at which the properties are witnessed.\<close>

definition plain_context :: "string \<Rightarrow> avctx" where
  "plain_context n =
     \<lparr>codec_name = n, log_level_offset = 0, time_base = (0, 1), gop_size = 12, bit_rate = 200000,
      framerate = (0, 1), rc_min_rate = 0, rc_max_rate = 0, rc_buffer_size = 0,
      flag_global_header = False, flag_closed_gop = False, flag_low_delay = False,
      global_quality = 0, max_b_frames = 0,
      trellis = 0, width = 0, height = 0, pixfmt = PIX_NONE, hw_frames_ref = False, opts = []\<rparr>"

definition soft_ffmpeg :: "string \<Rightarrow> byte list list ffmpeg" where
  "soft_ffmpeg name =
     \<lparr>hwframe_support = True, padding = 4, eagain = -11, av_log_panic = 0,
      err_string = (\<lambda>_. ''error''), encoding_text = (\<lambda>_. ''encoding''),
      ticks = (\<lambda>d. 300 * d div 1000000000),
      encoder_by_name = (\<lambda>n w. (if n = name then Some n else None, w)),
      alloc_context = (\<lambda>n w. (Some (plain_context n), w)),
      opt_set = (\<lambda>_ _ _ w. (0, w)), codec_open = (\<lambda>_ w. (0, w)),
      hwdevice_create = (\<lambda>w. (-1, w)), hwframe_alloc = (\<lambda>w. (True, w)),
      hwframe_init = (\<lambda>_ w. (0, w)), hwframe_get_buffer = (\<lambda>w. (-1, w)),
      frame_get_buffer = (\<lambda>_ w. (0, w)), sws_get = (\<lambda>_ w. (True, w)),
      send_frame = (\<lambda>_ inp _. (0, [[0, 0, 0, 1] @ i_data (in_image inp)])),
      receive_packet = (\<lambda>_ w. case w of [] \<Rightarrow> (Inl (-11), []) | p # ps \<Rightarrow> (Inr p, ps))\<rparr>"

lemma soft_names_ok: "names_ok (soft_ffmpeg name)"
  by (simp add: names_ok_def soft_ffmpeg_def plain_context_def)

theorem StreamEncoder_result_witness:
  "case StreamEncoder (soft_ffmpeg ''libx264'') H264 False (blank_encoder H264 16 []) of
      (Inr _, t) \<Rightarrow> \<not> initialized t \<and> packets t = [] \<and> log_level t = 16 \<and>
        (\<exists>names n c. map_of FFMPEG_ENCODERS H264 = Some names \<and> n \<in> set names \<and>
          (False \<or> CHR ''_'' \<notin> set n) \<and> ctx t = Some c \<and> codec_name c = n)
    | (Inl f, t) \<Rightarrow> log_level t = 16 \<and> (\<exists>msg. f = Throw (StreamingError msg))"
  by (rule StreamEncoder_result [OF soft_names_ok])

section \<open>The order of preference\<close>

text \<open>
  An FFmpeg whose answers do not change: \<open>listed\<close> are the encoders it was built with,
  \<open>opens\<close> those that can be opened, \<open>gpu\<close> says whether the VAAPI device can be used.
\<close>

definition steady_ffmpeg ::
  "'w ffmpeg \<Rightarrow> (string \<Rightarrow> bool) \<Rightarrow> (string \<Rightarrow> bool) \<Rightarrow> bool \<Rightarrow> bool" where
  "steady_ffmpeg ff listed opens gpu \<longleftrightarrow>
     (\<forall>n w. fst (encoder_by_name ff n w) = (if listed n then Some n else None)) \<and>
     (\<forall>n w. \<exists>c. fst (alloc_context ff n w) = Some c \<and> codec_name c = n) \<and>
     (\<forall>c w. fst (codec_open ff c w) = 0 \<longleftrightarrow> opens (codec_name c)) \<and>
     (\<forall>w. fst (hwdevice_create ff w) = 0 \<longleftrightarrow> gpu) \<and>
     (\<forall>w. fst (hwframe_alloc ff w)) \<and> (\<forall>d w. fst (hwframe_init ff d w) = 0)"

definition vaapi_ok :: "'w ffmpeg \<Rightarrow> bool \<Rightarrow> string \<Rightarrow> bool" where
  "vaapi_ok ff gpu n \<longleftrightarrow> (contains ''vaapi'' n \<longrightarrow> hwframe_support ff \<and> gpu)"

definition usable_encoder ::
  "'w ffmpeg \<Rightarrow> (string \<Rightarrow> bool) \<Rightarrow> (string \<Rightarrow> bool) \<Rightarrow> bool \<Rightarrow> string \<Rightarrow> bool" where
  "usable_encoder ff listed opens gpu n \<longleftrightarrow>
     listed n \<and> opens n \<and> vaapi_ok ff gpu n"

lemma steady_names_ok: "steady_ffmpeg ff listed opens gpu \<Longrightarrow> names_ok ff"
  by (auto simp: steady_ffmpeg_def names_ok_def) (metis option.inject)

text \<open>A context for the encoder \<open>n\<close>, with the VAAPI flag that belongs to it.\<close>

definition ready :: "string \<Rightarrow> 'w encoder \<Rightarrow> bool" where
  "ready n s \<longleftrightarrow> chosen s = Some n \<and> is_vaapi s = contains ''vaapi'' n"

lemma blind_ready: "blind (ready n)"
  by (auto simp: blind_def ready_def chosen_def)

lemma fst_eqD: "fst p = a \<Longrightarrow> \<exists>b. p = (a, b)"
  by (cases p) simp

lemma wp_setup_exact:
  assumes st: "steady_ffmpeg ff listed opens gpu"
  shows "wp (setupEncoder ff n)
    (\<lambda>_ t. ready n t \<and> vaapi_ok ff gpu n)
    (\<lambda>f _. \<not> vaapi_ok ff gpu n \<and> (\<exists>e. f = Throw e)) s"
proof -
  have opts: "wp (setup_options ff n) (\<lambda>_. ready n) never t" if "ready n t" for t
    by (rule keepsD [OF keeps_setup_options [OF blind_ready] that])
  have rest0: "wp (thn (setup_context ff n) (setup_options ff n)) (\<lambda>_. ready n) never t"
    if v: "is_vaapi t = contains ''vaapi'' n" for t
  proof -
    obtain c w where "alloc_context ff n (world t) = (Some c, w)" and "codec_name c = n"
      using st by (metis fst_eqD steady_ffmpeg_def)
    with v show ?thesis
      by (simp add: setup_context_def wp_rules opts ready_def chosen_def)
  qed
  have rest: "wp (thn (setup_context ff n) (setup_options ff n)) (\<lambda>_ t. ready n t \<and> P) E t"
    if "is_vaapi t = contains ''vaapi'' n" and P for t P and E :: "fault \<Rightarrow> 'a encoder \<Rightarrow> bool"
    by (rule wp_mono [OF rest0 [OF that(1)]]) (use that(2) in auto)
  have all: "wp (setup_vaapi ff)
      (\<lambda>_. wp (thn (setup_context ff n) (setup_options ff n))
        (\<lambda>_ t. ready n t \<and> vaapi_ok ff gpu n) (\<lambda>f _. \<not> vaapi_ok ff gpu n \<and> (\<exists>e. f = Throw e)))
      (\<lambda>f _. \<not> vaapi_ok ff gpu n \<and> (\<exists>e. f = Throw e)) t"
    if v: "is_vaapi t = contains ''vaapi'' n" for t
  proof -
    obtain r w where r: "hwdevice_create ff (world t) = (r, w)" by (rule prod.exhaust)
    with st have g: "r = 0 \<longleftrightarrow> gpu" by (metis fst_conv steady_ffmpeg_def)
    show ?thesis
    proof (cases "contains ''vaapi'' n")
      case True
      with r g v show ?thesis
        by (cases "hwframe_support ff"; cases gpu)
          (simp_all add: setup_vaapi_def wp_bnd wp_call wp_gets wp_whenb wp_fail wp_upd rest rest0 vaapi_ok_def)
    next
      case False
      with v show ?thesis by (simp add: setup_vaapi_def wp_bnd wp_gets wp_whenb rest rest0 vaapi_ok_def)
    qed
  qed
  show ?thesis
    by (simp add: setupEncoder_def wp_thn [of "upd _"] wp_thn [of "whenb _ _"]
        wp_thn [of "setup_vaapi ff"] wp_upd wp_whenb all)
qed

lemma ready_ctx: "ready n s \<Longrightarrow> \<exists>c. ctx s = Some c \<and> codec_name c = n"
  by (auto simp: ready_def chosen_def)

lemma wp_open_codec_exact:
  assumes st: "steady_ffmpeg ff listed opens gpu" and s: "ready n s"
  shows "wp (open_codec ff) (\<lambda>_ t. opens n) (\<lambda>f _. \<not> opens n \<and> (\<exists>e. f = Throw e)) s"
proof -
  from ready_ctx [OF s] obtain c where c: "ctx s = Some c" "codec_name c = n" by blast
  obtain r v where "codec_open ff c (world s) = (r, v)" by (rule prod.exhaust)
  moreover from this st c have "r = 0 \<longleftrightarrow> opens n" by (metis fst_conv steady_ffmpeg_def)
  ultimately show ?thesis using c by (simp add: open_codec_def wp_rules)
qed

lemma wp_open_frames_exact:
  assumes st: "steady_ffmpeg ff listed opens gpu" and s: "ready n s"
  shows "wp (open_frames ff w h) (\<lambda>_. ready n) never s"
proof -
  obtain a v where al: "hwframe_alloc ff (world s) = (a, v)" by (rule prod.exhaust)
  obtain r u where ini: "hwframe_init ff (w, h) v = (r, u)" by (rule prod.exhaust)
  from st have "fst (hwframe_alloc ff (world s))" "fst (hwframe_init ff (w, h) v) = 0"
    by (simp_all add: steady_ffmpeg_def)
  with al ini s ready_ctx [OF s] show ?thesis
    by (auto simp: open_frames_def wp_rules ready_def chosen_def)
qed

lemma wp_open_exact:
  assumes st: "steady_ffmpeg ff listed opens gpu" and "ready n s"
  shows "wp (openEncoder ff w h) (\<lambda>_ t. opens n) (\<lambda>f _. \<not> opens n \<and> (\<exists>e. f = Throw e)) s"
proof -
  have "keeps (ready n) never (upd_ctx (\<lambda>c. c\<lparr>width := w, height := h\<rparr>))"
    by (intro keeps_rules blind_ready) simp
  from keepsD [OF this assms(2)] show ?thesis
    unfolding openEncoder_def wp_thn
    by (rule wp_mono) (auto intro!: wp_mono [OF wp_open_frames_exact [OF st]]
        wp_open_codec_exact [OF st])
qed

lemma try_encoder_exact:
  assumes st: "steady_ffmpeg ff listed opens gpu"
  shows "fst (try_encoder ff n s) = Inr (usable_encoder ff listed opens gpu n)"
proof -
  let ?setting = "setupEncoder ff n" and ?probe = "thn (setupEncoder ff n) (openEncoder ff 640 480)"
  obtain enc w where found: "encoder_by_name ff n (world s) = (enc, w)" by (rule prod.exhaust)
  with st have enc: "enc = (if listed n then Some n else None)" by (metis fst_conv steady_ffmpeg_def)
  have "wp ?probe (\<lambda>_ _. vaapi_ok ff gpu n \<and> opens n) (\<lambda>f _. \<not> (vaapi_ok ff gpu n \<and> opens n) \<and> (\<exists>e. f = Throw e)) t" for t
    unfolding wp_thn
    by (rule wp_mono [OF wp_setup_exact [OF st]]) (auto intro!: wp_mono [OF wp_open_exact [OF st]])
  then have "wp (with_log_level (av_log_panic ff) ?probe) (\<lambda>_ _. vaapi_ok ff gpu n \<and> opens n)
      (\<lambda>f _. \<not> (vaapi_ok ff gpu n \<and> opens n) \<and> (\<exists>e. f = Throw e)) t" for t
    unfolding wp_with_log_level .
  then have body: "wp (thn (with_log_level (av_log_panic ff) ?probe) (thn ?setting (ret True)))
      (\<lambda>ok _. ok \<and> vaapi_ok ff gpu n \<and> opens n) (\<lambda>f _. \<not> (vaapi_ok ff gpu n \<and> opens n) \<and> (\<exists>e. f = Throw e)) t" for t
    unfolding wp_thn [of "with_log_level _ _"] wp_thn [of ?setting "ret True"] wp_ret
    by (rule wp_mono) (auto intro!: wp_mono [OF wp_setup_exact [OF st]])
  have "wp (try_encoder ff n) (\<lambda>ok _. ok = usable_encoder ff listed opens gpu n) never s"
    unfolding try_encoder_def wp_handle wp_bnd wp_call found
    by (cases "listed n") (simp_all add: enc wp_ret usable_encoder_def,
        rule wp_mono [OF body], auto simp: wp_thn wp_upd wp_whenb wp_ret usable_encoder_def)
  then show ?thesis by (auto simp: wp_def split: prod.splits sum.splits)
qed

definition steady_configuring ::
  "'w ffmpeg \<Rightarrow> (string \<Rightarrow> bool) \<Rightarrow> (string \<Rightarrow> bool) \<Rightarrow> bool \<Rightarrow> video_codec \<Rightarrow> int \<Rightarrow> 'w encoder \<Rightarrow> bool"
  where "steady_configuring ff listed opens gpu codec level s \<longleftrightarrow>
    steady_ffmpeg ff listed opens gpu \<and> configuring ff codec level s"

interpretation steady_encoder_probing: steady_probing "try_encoder ff" chosen
    "steady_configuring ff listed opens gpu codec level" "usable_encoder ff listed opens gpu"
  for ff codec level listed opens gpu
proof
  fix s n
  assume s: "steady_configuring ff listed opens gpu codec level s" and none: "chosen s = None"
  then have st: "steady_ffmpeg ff listed opens gpu" and c: "configuring ff codec level s"
    by (simp_all add: steady_configuring_def)
  show "wp (try_encoder ff n) (\<lambda>ok t. steady_configuring ff listed opens gpu codec level t \<and>
      chosen t = (if ok then Some n else None)) (\<lambda>_ _. False) s"
    by (rule wp_mono [OF encoder_probing.attempt_wp [OF c none]])
      (simp_all add: steady_configuring_def st)
  show "fst (try_encoder ff n s) = Inr (usable_encoder ff listed opens gpu n)"
    by (rule try_encoder_exact [OF st])
qed

lemma wp_StreamEncoder_first:
  assumes "steady_ffmpeg ff listed opens gpu" and "map_of FFMPEG_ENCODERS codec = Some names"
  shows "wp (StreamEncoder ff codec use_hw)
      (\<lambda>_ t. \<exists>n. chosen t = Some n \<and>
        List.find (usable_encoder ff listed opens gpu) (admissible use_hw names) = Some n)
      (\<lambda>f t. f = Throw (StreamingError (''no usable encoder available for '' @ videoCodecName codec)) \<and>
        List.find (usable_encoder ff listed opens gpu) (admissible use_hw names) = None)
      (blank_encoder codec level w)"
proof -
  let ?b = "blank_encoder codec level w"
  have "steady_configuring ff listed opens gpu codec level ?b" "chosen ?b = None"
    using assms(1) steady_names_ok [OF assms(1)]
    by (simp_all add: steady_configuring_def configuring_def unused_def blank_encoder_def chosen_def)
  from steady_encoder_probing.probe_first [OF this, of use_hw names] show ?thesis
    unfolding StreamEncoder_def
    by (auto simp: assms(2) wp_thn wp_bnd [of "gets ctx"] wp_gets wp_whenb wp_fail elim!: wp_mono)
      (auto simp: chosen_def intro: sym)
qed

text \<open>
  C35: the order of preference. With an FFmpeg whose answers do not change, the constructor
  settles on the first implementation in the list for the codec that FFmpeg knows, that can
  be opened, and whose hardware is there, among the ones without underscore when hardware
  encoders are not wanted; and it throws exactly when there is none.
\<close>

theorem StreamEncoder_first_usable:
  assumes "steady_ffmpeg ff listed opens gpu" and "map_of FFMPEG_ENCODERS codec = Some names"
  shows "case StreamEncoder ff codec use_hw (blank_encoder codec level w) of
      (Inr _, t) \<Rightarrow> (\<exists>n. chosen t = Some n \<and>
        List.find (usable_encoder ff listed opens gpu) (admissible use_hw names) = Some n)
    | (Inl f, t) \<Rightarrow>
        f = Throw (StreamingError (''no usable encoder available for '' @ videoCodecName codec)) \<and>
        (\<forall>n \<in> set (admissible use_hw names). \<not> usable_encoder ff listed opens gpu n)"
  using wp_StreamEncoder_first [OF assms, of use_hw level w]
  by (auto simp: wp_def find_None_iff split: prod.splits sum.splits)

lemma soft_steady: "steady_ffmpeg (soft_ffmpeg name) (\<lambda>n. n = name) (\<lambda>_. True) False"
  by (simp add: steady_ffmpeg_def soft_ffmpeg_def plain_context_def)

lemma soft_constructed:
  "\<exists>s. StreamEncoder (soft_ffmpeg ''libx264'') H264 False (blank_encoder H264 16 []) = (Inr (), s)"
proof -
  have "List.find (usable_encoder (soft_ffmpeg ''libx264'') (\<lambda>n. n = ''libx264'') (\<lambda>_. True) False)
      (admissible False (the (map_of FFMPEG_ENCODERS H264))) = Some ''libx264''"
    by (simp add: admissible_def usable_encoder_def vaapi_ok_def FFMPEG_ENCODERS_def)
  with wp_StreamEncoder_first [OF soft_steady [of "''libx264''"],
        where codec = H264 and use_hw = False and level = 16 and w = "[]"] show ?thesis
    by (auto simp: wp_def FFMPEG_ENCODERS_def split: prod.splits sum.splits)
qed

theorem StreamEncoder_first_usable_witness:
  "case StreamEncoder (soft_ffmpeg ''libx264'') H264 True (blank_encoder H264 16 []) of
      (Inr _, t) \<Rightarrow> chosen t = Some ''libx264''
    | (Inl _, _) \<Rightarrow> False"
proof -
  let ?names = "[''h264_vaapi'', ''h264_qsv'', ''h264_nvenc'', ''h264_vulkan'', ''h264_omx'', ''libx264'', ''h264'']"
  have names: "map_of FFMPEG_ENCODERS H264 = Some ?names"
    by (simp add: FFMPEG_ENCODERS_def)
  have first: "List.find (usable_encoder (soft_ffmpeg ''libx264'') (\<lambda>n. n = ''libx264'') (\<lambda>_. True) False)
      (admissible True ?names) = Some ''libx264''"
    by (simp add: admissible_def usable_encoder_def vaapi_ok_def)
  then have "''libx264'' \<in> set (admissible True ?names)" by (simp add: admissible_def)
  with StreamEncoder_first_usable [OF soft_steady [of "''libx264''"] names, of True 16 "[]"] first show ?thesis
    by (auto simp: usable_encoder_def split: prod.splits sum.splits)
qed

end
