(* ===== verification/Encoder_Run.thy ===== *)
theory Encoder_Run
  imports Stream_Encoder
begin

text \<open>
  What a constructed encoder does over its whole life: the client may call
  \<^verbatim>\<open>encodeVideo\<close>, \<^verbatim>\<open>nextPacket\<close> and the three setters in any order, and any of these
  calls may throw. The invariant \<open>enc_inv\<close> says what \<^verbatim>\<open>avcodec_send_frame\<close> has got so
  far. The section on delivery says which frames come out when FFmpeg does its work.
\<close>

section \<open>The invariant\<close>

definition sw_format :: "'w ffmpeg \<Rightarrow> bool \<Rightarrow> avctx \<Rightarrow> pix_fmt" where
  "sw_format ff vaapi c = (if hwframe_support ff \<and> vaapi then PIX_NV12 else pixfmt c)"

definition well_converted :: "'w ffmpeg \<Rightarrow> 'w encoder \<Rightarrow> enc_input \<Rightarrow> bool" where
  "well_converted ff s inp \<longleftrightarrow>
     (\<exists>c. ctx s = Some c \<and> i_width (in_image inp) = width c \<and> i_height (in_image inp) = height c \<and>
       toAVPixelFormat (in_image inp) \<noteq> PIX_NONE \<and>
       in_sws inp = (width c, height c, toAVPixelFormat (in_image inp), sw_format ff (is_vaapi s) c))"

definition sws_ok :: "'w ffmpeg \<Rightarrow> 'w encoder \<Rightarrow> bool" where
  "sws_ok ff s \<longleftrightarrow> (\<forall>c cv. ctx s = Some c \<longrightarrow> sws s = Some cv \<longrightarrow>
     cv = (width c, height c, last_pixel_format s, sw_format ff (is_vaapi s) c))"

definition pts_ok :: "'w encoder \<Rightarrow> bool" where
  "pts_ok s \<longleftrightarrow> -1 \<le> last_pts s \<and> sorted_wrt (<) (map in_pts (sent s)) \<and>
     (\<forall>inp \<in> set (sent s). 0 \<le> in_pts inp \<and> in_pts inp \<le> last_pts s)"

definition enc_inv :: "'w ffmpeg \<Rightarrow> 'w encoder \<Rightarrow> bool" where
  "enc_inv ff s \<longleftrightarrow> ctx s \<noteq> None \<and> (\<not> initialized s \<longrightarrow> sws s = None \<and> sent s = []) \<and>
     sws_ok ff s \<and> pts_ok s \<and> (\<forall>inp \<in> set (sent s). well_converted ff s inp) \<and>
     (\<forall>f \<in> set (packets s). frame_ok (padding ff) f)"

lemmas enc_inv_defs = enc_inv_def sws_ok_def pts_ok_def well_converted_def

text \<open>Before encoding starts.\<close>

definition idle :: "'w ffmpeg \<Rightarrow> 'w encoder \<Rightarrow> bool" where
  "idle ff s \<longleftrightarrow> ctx s \<noteq> None \<and> \<not> initialized s \<and> sws s = None \<and> sent s = [] \<and> -1 \<le> last_pts s \<and>
     (\<forall>f \<in> set (packets s). frame_ok (padding ff) f)"

lemma blind_idle: "blind (idle ff)"
  by (auto simp: blind_def idle_def)

lemma idle_inv: "idle ff s \<longleftrightarrow> enc_inv ff s \<and> \<not> initialized s"
  by (auto simp: idle_def enc_inv_defs)

lemma unused_idle: "unused codec level s \<Longrightarrow> ctx s \<noteq> None \<Longrightarrow> idle ff s"
  by (simp add: unused_def idle_def)

section \<open>Every operation keeps it\<close>

lemma wp_start_encoding:
  assumes "enc_inv ff s"
  shows "wp (start_encoding ff img) (\<lambda>_ t. enc_inv ff t \<and> initialized t \<and> (initialized s \<longrightarrow> t = s) \<and>
      (\<not> initialized s \<longrightarrow> packets t = [])) (throws (enc_inv ff)) s"
proof (cases "initialized s")
  case True
  with assms show ?thesis by (simp add: start_encoding_def wp_rules)
next
  case False
  let ?Q = "\<lambda>_ :: unit. idle ff" and ?E = "throws (idle ff)"
  have keep: "keeps (idle ff) ?E (openEncoder ff (i_width img) (i_height img))"
    "keeps (idle ff) ?E (upd (\<lambda>s. s\<lparr>sw_frm := True\<rparr>))"
    "keeps (idle ff) ?E (upd (\<lambda>s. s\<lparr>pkt := True\<rparr>))"
    "keeps (idle ff) ?E (whenb (hwframe_support ff) (bnd (gets is_vaapi) (\<lambda>vaapi. whenb vaapi
       (thn (upd (\<lambda>s. s\<lparr>hw_frm := True\<rparr>)) (bnd (call (hwframe_get_buffer ff)) (\<lambda>result.
          whenb (result \<noteq> 0) (throw_streaming ''failed to allocate HW frame from VAAPI frame buffer'')))))))"
    unfolding openEncoder_def open_frames_def open_codec_def
    by ((intro keeps_rules keeps_upd blind_idle; simp add: idle_def)+)
  have time: "keeps (idle ff) ?E (lift_op (rclcpp_time (i_stamp img)))"
    by (simp add: keeps_def wp_lift_op rclcpp_time_def)
  have i: "idle ff s" using assms False by (simp add: idle_inv)
  have fin: "idle ff t \<Longrightarrow> enc_inv ff (t\<lparr>first_ts := x, last_pts := -1,
      packets := [], last_pixel_format := PIX_NONE, initialized := True\<rparr>)" for t x
    by (simp add: idle_def enc_inv_defs)
  have e: "idle ff t \<Longrightarrow> enc_inv ff t" for t by (simp add: idle_inv)
  show ?thesis
    using False unfolding start_encoding_def wp_bnd [of "gets initialized"] wp_gets wp_whenb [of "\<not> _"]
      wp_thn [of "openEncoder _ _ _"] wp_thn [of "upd (\<lambda>s. s\<lparr>sw_frm := True\<rparr>)"] wp_thn [of "whenb (hwframe_support ff) _"] wp_thn [of "upd (\<lambda>s. s\<lparr>pkt := True\<rparr>)"] wp_bnd [of "lift_op _"]
      wp_upd [of "\<lambda>s. s\<lparr>first_ts := _, last_pts := _, packets := _, last_pixel_format := _, initialized := _\<rparr>"]
    by (simp, intro wp_mono [OF keepsD [OF keep(1) i]] wp_mono [OF keepsD [OF keep(2)]]
        wp_mono [OF keepsD [OF keep(4)]] wp_mono [OF keepsD [OF keep(3)]] wp_mono [OF keepsD [OF time]]) (auto intro: fin e)
qed

definition conversion_of :: "'w ffmpeg \<Rightarrow> image \<Rightarrow> bool \<Rightarrow> avctx \<Rightarrow> 32 word \<times> 32 word \<times> pix_fmt \<times> pix_fmt"
  where "conversion_of ff img vaapi c =
    (i_width img, i_height img, toAVPixelFormat img, sw_format ff vaapi c)"

lemma wp_convert_frame:
  assumes inv: "enc_inv ff s" and c: "ctx s = Some c" and ini: "initialized s"
    and size: "i_width img = width c" "i_height img = height c"
  shows "wp (convert_frame ff img)
    (\<lambda>cv t. enc_inv ff t \<and> initialized t \<and> ctx t = Some c \<and> is_vaapi t = is_vaapi s \<and> packets t = packets s \<and>
      toAVPixelFormat img \<noteq> PIX_NONE \<and> cv = conversion_of ff img (is_vaapi s) c)
    (\<lambda>_. enc_inv ff) s"
proof -
  let ?conv = "conversion_of ff img (is_vaapi s) c"
  obtain r w where r: "frame_get_buffer ff (i_width img, i_height img, sw_format ff (is_vaapi s) c) (world s) = (r, w)"
    by (rule prod.exhaust)
  obtain ok v where ok: "sws_get ff ?conv w = (ok, v)" by (rule prod.exhaust)
  have inv1: "enc_inv ff (s\<lparr>world := w\<rparr>)" using inv by (simp add: enc_inv_defs)
  have inv2: "enc_inv ff (s\<lparr>world := v, sws := if ok then Some ?conv else None,
      last_pixel_format := toAVPixelFormat img\<rparr>)"
    using inv c ini size by (auto simp: enc_inv_defs conversion_of_def)
  have keep: "sws s = Some cv \<Longrightarrow> toAVPixelFormat img = last_pixel_format s \<Longrightarrow> cv = ?conv" for cv
    using inv c size by (simp add: enc_inv_def sws_ok_def conversion_of_def)
  show ?thesis
    using inv inv1 inv2 c ini r ok
    by (auto simp: convert_frame_def Let_def wp_rules sw_format_def [symmetric]
        conversion_of_def [symmetric] split: option.splits dest!: keep)
qed

text \<open>The receiving loop appends well-formed frames with the image's time stamp, and counts them.\<close>

definition stamped :: "nat \<Rightarrow> stamp \<Rightarrow> frame_data list \<Rightarrow> bool" where
  "stamped pad t fs \<longleftrightarrow> (\<exists>us. fs = map (\<lambda>u. mk_frame pad u t) us)"

lemma stamped_frames: "stamped pad t fs \<Longrightarrow> f \<in> set fs \<Longrightarrow> frame_ok pad f \<and> fstamp f = t"
  by (auto simp: stamped_def)

lemma stamped_Nil [simp]: "stamped pad t []"
  by (auto simp: stamped_def)

lemma stamped_append: "stamped pad t fs \<Longrightarrow> stamped pad t gs \<Longrightarrow> stamped pad t (fs @ gs)"
  unfolding stamped_def by (metis map_append)

definition received :: "nat \<Rightarrow> stamp \<Rightarrow> frame_data list \<Rightarrow> nat \<Rightarrow> fault + int \<times> nat \<Rightarrow> frame_data list \<Rightarrow> bool" where
  "received pad t out count r out' \<longleftrightarrow>
     (\<exists>fs. out' = out @ fs \<and> stamped pad t fs \<and>
       (case r of Inl e \<Rightarrow> e = OutOfBounds | Inr (_, n) \<Rightarrow> n = count + length fs))"

lemma received_more:
  "received pad t (out @ fs) (count + length fs) r out' \<Longrightarrow> stamped pad t fs \<Longrightarrow> received pad t out count r out'"
  by (auto simp: received_def stamped_append split: sum.splits prod.splits)

lemma stamped_packet: "FrameData pad d 0 (length d) t = Inr f \<Longrightarrow> stamped pad t [f]"
  by (auto simp: FrameData_eq stamped_def split: if_splits intro: exI [of _ "[d]"])

lemma FrameData_fault: "FrameData pad d i n t = Inl e \<Longrightarrow> e = OutOfBounds"
  by (simp add: FrameData_eq split: if_splits)

lemma receive_loop_received:
  assumes "receive_loop ff codec c t w out count = Some res"
  shows "received (padding ff) t out count (fst res) (fst (snd res))"
  using assms
proof (rule receive_loop.raw_induct [rotated])
  fix loop :: "'w ffmpeg \<Rightarrow> video_codec \<Rightarrow> avctx \<Rightarrow> stamp \<Rightarrow> 'w \<Rightarrow> frame_data list \<Rightarrow> nat \<Rightarrow>
      ((fault + int \<times> nat) \<times> frame_data list \<times> 'w) option"
    and ff :: "'w ffmpeg" and codec c t w out count res
  assume IH: "\<And>ff codec c t w out count res. loop ff codec c t w out count = Some res \<Longrightarrow>
      received (padding ff) t out count (fst res) (fst (snd res))"
    and res: "(case receive_packet ff c w of
        (Inl result, w') \<Rightarrow> Some (Inr (result, count), out, w')
      | (Inr data, w') \<Rightarrow>
          (if codec = H264 \<or> codec = H265
           then (case splitNALs (padding ff) out data t of
                   None \<Rightarrow> Some (Inl OutOfBounds, out, w')
                 | Some (out', n) \<Rightarrow> loop ff codec c t w' out' (count + n))
           else (case FrameData (padding ff) data 0 (length data) t of
                   Inl e \<Rightarrow> Some (Inl e, out, w')
                 | Inr f \<Rightarrow> loop ff codec c t w' (out @ [f]) (count + 1)))) = Some res"
  obtain p w' where p: "receive_packet ff c w = (p, w')" by (rule prod.exhaust)
  have more: "received (padding ff) t out count (fst res) (fst (snd res))"
    if "loop ff codec c t w' (out @ fs) (count + length fs) = Some res" "stamped (padding ff) t fs" for fs
    by (rule received_more [OF IH [OF that(1)] that(2)])
  have units: "stamped (padding ff) t (map (\<lambda>u. mk_frame (padding ff) u t) us)" for us
    by (auto simp: stamped_def)
  show "received (padding ff) t out count (fst res) (fst (snd res))"
  proof (cases p)
    case (Inl a)
    with p res show ?thesis by (auto simp: received_def)
  next
    case (Inr d)
    show ?thesis
    proof (cases "codec = H264 \<or> codec = H265")
      case True
      show ?thesis
      proof (cases "splitNALs (padding ff) out d t")
        case None
        with True p Inr res show ?thesis by (auto simp: received_def)
      next
        case (Some q)
        obtain out' n where q: "q = (out', n)" by (rule prod.exhaust)
        obtain us where us: "out' = out @ map (\<lambda>u. mk_frame (padding ff) u t) us" "n = length us"
          using splitNALs_appends [OF Some [unfolded q]] by blast
        show ?thesis
          by (rule more [OF _ units [of us]]) (use True p Inr res Some q us in auto)
      qed
    next
      case False
      show ?thesis
      proof (cases "FrameData (padding ff) d 0 (length d) t")
        case (Inl e)
        with False p Inr res FrameData_fault [OF Inl] show ?thesis
          by (auto simp: received_def)
      next
        case f: (Inr f)
        show ?thesis
          by (rule more [OF _ stamped_packet [OF f]]) (use False p Inr res f in auto)
      qed
    qed
  qed
qed

text \<open>The frames of one call, whether it returns or fails, are appended to the waiting ones.\<close>

definition appended :: "'w ffmpeg \<Rightarrow> stamp \<Rightarrow> 'w encoder \<Rightarrow> 'w encoder \<Rightarrow> frame_data list \<Rightarrow> bool" where
  "appended ff t s s' fs \<longleftrightarrow> packets s' = packets s @ fs \<and> stamped (padding ff) t fs"

lemma wp_receive_packets:
  assumes "enc_inv ff s"
  shows "wp (receive_packets ff t)
    (\<lambda>(_, n) s'. enc_inv ff s' \<and> (\<exists>fs. appended ff t s s' fs \<and> n = length fs))
    (\<lambda>f s'. enc_inv ff s' \<and> (\<exists>fs. appended ff t s s' fs)) s"
proof -
  obtain c where c: "ctx s = Some c" using assms by (auto simp: enc_inv_def)
  have inv: "enc_inv ff (s\<lparr>packets := packets s @ fs, world := w\<rparr>)" if "stamped (padding ff) t fs" for fs w
    using assms stamped_frames [OF that] by (auto simp: enc_inv_defs)
  have eq: "receive_packets ff t s =
      (case receive_loop ff (e_codec s) c t (world s) (packets s) 0 of
         None \<Rightarrow> (Inl Diverges, s)
       | Some (r, out, w) \<Rightarrow> (r, s\<lparr>packets := out, world := w\<rparr>))"
    by (simp add: receive_packets_def bnd_def deref_def c)
  show ?thesis
  proof (cases "receive_loop ff (e_codec s) c t (world s) (packets s) 0")
    case None
    have "appended ff t s s []" by (simp add: appended_def)
    with None assms show ?thesis by (auto simp: wp_def eq)
  next
    case (Some res)
    from receive_loop_received [OF Some] obtain fs where
      "fst (snd res) = packets s @ fs" "stamped (padding ff) t fs"
      "case fst res of Inl e \<Rightarrow> e = OutOfBounds | Inr (_, n) \<Rightarrow> n = 0 + length fs"
      unfolding received_def by blast
    with Some c inv [of fs] show ?thesis
      by (auto simp: wp_def eq appended_def split: prod.splits sum.splits)
  qed
qed

lemma pts_ok_sent:
  "pts_ok s \<Longrightarrow> last_pts s < pts \<Longrightarrow> in_pts inp = pts \<Longrightarrow>
    pts_ok (s\<lparr>last_pts := pts, sent := sent s @ [inp], world := w\<rparr>)"
  by (fastforce simp: pts_ok_def sorted_wrt_append)

lemma next_pts_greater: "last_pts s < next_pts ff img s"
  by (simp add: next_pts_def Let_def)

lemma wp_submit_frame:
  assumes inv: "enc_inv ff s" and c: "ctx s = Some c" and ini: "initialized s"
    and size: "i_width img = width c" "i_height img = height c" and fmt: "toAVPixelFormat img \<noteq> PIX_NONE"
    and pts: "last_pts s < pts"
  shows "wp (submit_frame ff img (conversion_of ff img (is_vaapi s) c) pts)
    (\<lambda>n s'. enc_inv ff s' \<and> (\<exists>fs. appended ff (i_stamp img) s s' fs \<and> n = length fs))
    (\<lambda>f s'. enc_inv ff s' \<and> (\<exists>fs. appended ff (i_stamp img) s s' fs)) (s\<lparr>last_pts := pts\<rparr>)"
proof -
  let ?inp = "\<lparr>in_image = img, in_sws = conversion_of ff img (is_vaapi s) c,
    in_hw = hwframe_support ff \<and> is_vaapi s, in_pts = pts\<rparr>"
  obtain r w where r: "send_frame ff c ?inp (world s) = (r, w)" by (rule prod.exhaust)
  let ?s = "s\<lparr>last_pts := pts, sent := sent s @ [?inp], world := w\<rparr>"
  have inv': "enc_inv ff ?s"
    using inv c ini size fmt pts_ok_sent [OF _ pts, of ?inp w]
    by (auto simp: enc_inv_def sws_ok_def well_converted_def conversion_of_def)
  have app: "appended ff t ?s s' fs = appended ff t s s' fs" for t s' fs
    by (simp add: appended_def)
  have none: "appended ff t s ?s []" for t by (simp add: appended_def)
  have "wp (bnd (receive_packets ff (i_stamp img)) (\<lambda>(result, count).
      thn (whenb (result \<noteq> eagain ff)
        (throw_encoding (''failed to receive packets from encoder: '' @ err_string ff result)))
      (ret count)))
    (\<lambda>n s'. enc_inv ff s' \<and> (\<exists>fs. appended ff (i_stamp img) s s' fs \<and> n = length fs))
    (\<lambda>f s'. enc_inv ff s' \<and> (\<exists>fs. appended ff (i_stamp img) s s' fs)) ?s"
    unfolding wp_bnd
    by (rule wp_mono [OF wp_receive_packets [OF inv']]) (auto simp: wp_rules app)
  with c r inv' none show ?thesis
    unfolding submit_frame_def Let_def
    by (auto simp: wp_bnd [of "deref ctx"] wp_bnd [of "gets is_vaapi"] wp_thn [of "upd _"]
        wp_bnd [of "call _"] wp_thn [of "whenb _ _"] wp_deref wp_gets wp_upd wp_call wp_whenb wp_fail)
qed

lemma wp_encodeVideo:
  assumes inv: "enc_inv ff s"
  shows "wp (encodeVideo ff img)
    (\<lambda>n t. enc_inv ff t \<and> (\<exists>fs. packets t = (if initialized s then packets s else []) @ fs \<and>
       stamped (padding ff) (i_stamp img) fs \<and> n = length fs))
    (\<lambda>_. enc_inv ff) s" (is "wp _ ?Q ?E s")
proof -
  have submit: "wp (bnd (convert_frame ff img) (\<lambda>conversion. thn (lift_op (rclcpp_time (i_stamp img))) (bnd (gets (next_pts ff img)) (\<lambda>pts.
      thn (upd (\<lambda>s. s\<lparr>last_pts := pts\<rparr>)) (submit_frame ff img conversion pts))))) ?Q ?E t"
    if t: "enc_inv ff t" "initialized t" "ctx t = Some c" "i_width img = width c" "i_height img = height c"
      "packets t = (if initialized s then packets s else [])" for t c
    unfolding wp_bnd [of "convert_frame ff img"]
  proof (rule wp_mono [OF wp_convert_frame [OF t(1,3,2,4,5)]])
    fix cv u
    assume u: "enc_inv ff u \<and> initialized u \<and> ctx u = Some c \<and> is_vaapi u = is_vaapi t \<and>
      packets u = packets t \<and> toAVPixelFormat img \<noteq> PIX_NONE \<and> cv = conversion_of ff img (is_vaapi t) c"
    then have "wp (submit_frame ff img cv (next_pts ff img u)) ?Q ?E (u\<lparr>last_pts := next_pts ff img u\<rparr>)"
      using wp_submit_frame [of ff u c img "next_pts ff img u"] next_pts_greater [of u ff img] t
      by (auto elim!: wp_mono simp: appended_def)
    then show "wp (thn (lift_op (rclcpp_time (i_stamp img))) (bnd (gets (next_pts ff img)) (\<lambda>pts.
        thn (upd (\<lambda>s. s\<lparr>last_pts := pts\<rparr>)) (submit_frame ff img cv pts)))) ?Q ?E u"
      using u by (simp add: wp_bnd [of "gets _"] wp_thn wp_gets wp_upd wp_lift_op rclcpp_time_def)
  qed simp
  show ?thesis
    unfolding encodeVideo_def wp_thn [of "start_encoding ff img"]
  proof (rule wp_mono [OF wp_start_encoding [OF inv]])
    fix u t
    assume t: "enc_inv ff t \<and> initialized t \<and> (initialized s \<longrightarrow> t = s) \<and> (\<not> initialized s \<longrightarrow> packets t = [])"
    then obtain c where c: "ctx t = Some c" by (auto simp: enc_inv_def)
    show "wp (thn (bnd (deref ctx) (\<lambda>c. whenb (i_width img \<noteq> width c \<or> i_height img \<noteq> height c)
           (throw_streaming ''image size changed unexpectedly'')))
        (bnd (convert_frame ff img) (\<lambda>conversion. thn (lift_op (rclcpp_time (i_stamp img))) (bnd (gets (next_pts ff img)) (\<lambda>pts.
         thn (upd (\<lambda>s. s\<lparr>last_pts := pts\<rparr>)) (submit_frame ff img conversion pts)))))) ?Q ?E t"
    proof (cases "i_width img = width c \<and> i_height img = height c")
      case True
      have "wp (bnd (convert_frame ff img) (\<lambda>conversion. thn (lift_op (rclcpp_time (i_stamp img))) (bnd (gets (next_pts ff img)) (\<lambda>pts.
         thn (upd (\<lambda>s. s\<lparr>last_pts := pts\<rparr>)) (submit_frame ff img conversion pts))))) ?Q ?E t"
        by (rule submit [of t c]) (use t c True in auto)
      with c True show ?thesis
        by (simp add: wp_thn [of "bnd (deref ctx) _"] wp_bnd [of "deref ctx"] wp_deref wp_whenb)
    next
      case False
      with c t show ?thesis
        by (auto simp: wp_thn [of "bnd (deref ctx) _"] wp_bnd [of "deref ctx"] wp_deref wp_whenb wp_fail)
    qed
  qed auto
qed

section \<open>The client of an encoder\<close>

datatype enc_call = Encode image | Take | Bitrate "64 word" | Framerate "32 word" | SizeHint "32 word"

fun enc_step :: "'w ffmpeg \<Rightarrow> 'w encoder \<Rightarrow> enc_call \<Rightarrow> 'w encoder" where
  "enc_step ff s (Encode img) = snd (encodeVideo ff img s)"
| "enc_step ff s Take = snd (nextPacket s)"
| "enc_step ff s (Bitrate b) = snd (setBitrate b s)"
| "enc_step ff s (Framerate n) = snd (setFramerate n s)"
| "enc_step ff s (SizeHint n) = snd (setPackageSizeHint ff n s)"

text \<open>The setters have an effect before encoding starts only.\<close>

lemma setters_frozen:
  assumes "initialized s"
  shows "snd (setBitrate b s) = s" "snd (setFramerate n s) = s" "snd (setPackageSizeHint ff n s) = s"
    "\<exists>e. fst (setBitrate b s) = Inl (Throw e)" "\<exists>e. fst (setFramerate n s) = Inl (Throw e)"
    "\<exists>e. fst (setPackageSizeHint ff n s) = Inl (Throw e)"
  using assms by (simp_all add: setBitrate_def setFramerate_def setPackageSizeHint_def op_defs)

lemma setters_idle:
  assumes "idle ff s"
  shows "idle ff (snd (setBitrate b s))" "idle ff (snd (setFramerate n s))"
    "idle ff (snd (setPackageSizeHint ff' n s))"
proof -
  have "keeps (idle ff) (\<lambda>_. idle ff) (setBitrate b)" "keeps (idle ff) (\<lambda>_. idle ff) (setFramerate n)"
    "keeps (idle ff) (\<lambda>_. idle ff) (setPackageSizeHint ff' n)"
    unfolding setBitrate_def setFramerate_def setPackageSizeHint_def
    by ((intro keeps_rules blind_idle; simp add: keeps_def wp_rules)+)
  then show "idle ff (snd (setBitrate b s))" "idle ff (snd (setFramerate n s))"
    "idle ff (snd (setPackageSizeHint ff' n s))"
    using assms by (auto dest!: keepsD intro: wp_state)
qed

lemma setters_inv:
  assumes "enc_inv ff s"
  shows "enc_inv ff (snd (setBitrate b s)) \<and> enc_inv ff (snd (setFramerate n s)) \<and>
    enc_inv ff (snd (setPackageSizeHint ff k s))"
proof (cases "initialized s")
  case True
  with assms show ?thesis by (simp add: setters_frozen)
next
  case False
  then have "idle ff s" using assms by (simp add: idle_inv)
  from setters_idle [OF this] show ?thesis by (simp add: idle_inv)
qed

interpretation encoder_client: stepper "enc_step ff" "enc_inv ff"
  for ff
proof
  fix s call
  assume inv: "enc_inv ff s"
  show "enc_inv ff (enc_step ff s call)"
  proof (cases call)
    case (Encode img)
    have "wp (encodeVideo ff img) (\<lambda>_. enc_inv ff) (\<lambda>_. enc_inv ff) s"
      by (rule wp_mono [OF wp_encodeVideo [OF inv]]) auto
    from wp_state [OF this] Encode show ?thesis by simp
  next
    case Take
    with inv show ?thesis by (cases "packets s") (auto simp: nextPacket_def enc_inv_defs)
  qed (use setters_inv [OF inv] in simp_all)
qed

definition reachable_encoder :: "'w ffmpeg \<Rightarrow> 'w encoder \<Rightarrow> bool" where
  "reachable_encoder ff s \<longleftrightarrow> names_ok ff \<and>
     (\<exists>codec use_hw level w s0 calls.
        StreamEncoder ff codec use_hw (blank_encoder codec level w) = (Inr (), s0) \<and>
        s = foldl (enc_step ff) s0 calls)"

lemma reachable_inv: "reachable_encoder ff s \<Longrightarrow> enc_inv ff s"
proof -
  assume "reachable_encoder ff s"
  then obtain codec use_hw level w s0 calls where ok: "names_ok ff"
    and s0: "StreamEncoder ff codec use_hw (blank_encoder codec level w) = (Inr (), s0)"
    and s: "s = foldl (enc_step ff) s0 calls"
    by (auto simp: reachable_encoder_def)
  from wp_result [OF wp_StreamEncoder [OF ok] s0] have "unused codec level s0" "ctx s0 \<noteq> None"
    by (auto simp: chosen_def)
  then have "enc_inv ff s0" using unused_idle idle_inv by blast
  then show ?thesis unfolding s by (rule encoder_client.run_inv)
qed

interpretation packet_queue: fifo packets "\<lambda>f s. s\<lparr>packets := packets s @ [f]\<rparr>" nextPacket
  by unfold_locales (auto simp: nextPacket_def)

section \<open>What FFmpeg is given\<close>

text \<open>
  C27: presentation time stamps. However the client uses the encoder, whatever the time
  stamps of the images are and whichever calls fail, the frames handed to FFmpeg carry
  strictly increasing presentation time stamps, the first one not negative.
\<close>

theorem encoder_pts_increasing:
  assumes "reachable_encoder ff s"
  shows "sorted_wrt (<) (map in_pts (sent s)) \<and> (\<forall>pts \<in> in_pts ` set (sent s). 0 \<le> pts)"
  using reachable_inv [OF assms] by (auto simp: enc_inv_def pts_ok_def)

text \<open>
  The pixel conversion fits. Every frame handed to FFmpeg was converted by a scaling
  context made for exactly the size and the pixel format of its image and for the software
  format of the open encoder; the image has the size the encoder was opened with. So the
  cached scaling context is never used for an image of another layout.
\<close>

theorem encoder_conversion_fits:
  assumes "reachable_encoder ff s" and "inp \<in> set (sent s)"
  shows "\<exists>c. ctx s = Some c \<and> width c = i_width (in_image inp) \<and> height c = i_height (in_image inp) \<and>
    toAVPixelFormat (in_image inp) \<noteq> PIX_NONE \<and>
    in_sws inp = (i_width (in_image inp), i_height (in_image inp), toAVPixelFormat (in_image inp),
      if hwframe_support ff \<and> is_vaapi s then PIX_NV12 else pixfmt c)"
proof -
  have "well_converted ff s inp" using reachable_inv [OF assms(1)] assms(2) by (simp add: enc_inv_def)
  then obtain c where "ctx s = Some c" "i_width (in_image inp) = width c"
    "i_height (in_image inp) = height c" "toAVPixelFormat (in_image inp) \<noteq> PIX_NONE"
    "in_sws inp = (width c, height c, toAVPixelFormat (in_image inp), sw_format ff (is_vaapi s) c)"
    unfolding well_converted_def by blast
  then show ?thesis by (intro exI [of _ c]) (simp add: sw_format_def)
qed

text \<open>
  What a call returns. When \<open>encodeVideo\<close> returns a count, exactly that many frames
  were appended to the queue of packets (which the first call empties), every one with the
  zero padding that FFmpeg's parsers need and with the time stamp of the image.
\<close>

theorem encodeVideo_counts:
  assumes "reachable_encoder ff s" and "encodeVideo ff img s = (Inr n, t)"
  shows "\<exists>fs. packets t = (if initialized s then packets s else []) @ fs \<and> n = length fs \<and>
    (\<forall>f \<in> set fs. frame_ok (padding ff) f \<and> fstamp f = i_stamp img)"
  using wp_result [OF wp_encodeVideo [OF reachable_inv [OF assms(1)]] assms(2)] stamped_frames
  by blast

section \<open>Witnesses\<close>

definition soft_start :: "byte list list encoder" where
  "soft_start = snd (StreamEncoder (soft_ffmpeg ''libx264'') H264 False (blank_encoder H264 16 []))"

lemma soft_reachable: "reachable_encoder (soft_ffmpeg ''libx264'') (foldl (enc_step (soft_ffmpeg ''libx264'')) soft_start calls)"
  using soft_constructed soft_names_ok unfolding reachable_encoder_def soft_start_def
  by (metis snd_conv)

definition tiny_image :: "stamp \<Rightarrow> byte list \<Rightarrow> image" where
  "tiny_image t d = \<lparr>i_width = 1, i_height = 1, i_encoding = MONO8, i_bigendian = False, i_step = 1,
     i_data = d, i_stamp = t\<rparr>"

definition soft_run :: "byte list list encoder" where
  "soft_run = foldl (enc_step (soft_ffmpeg ''libx264'')) soft_start
     [Encode (tiny_image 5 [0x65, 1]), Encode (tiny_image 10000005 [0x41]), Take,
      Encode (tiny_image 4 [0x41, 2])]"

lemma soft_run_reachable: "reachable_encoder (soft_ffmpeg ''libx264'') soft_run"
  unfolding soft_run_def by (rule soft_reachable)

lemma soft_run_pts: "map in_pts (sent soft_run) = [0, 3, 4]"
  by code_simp

text \<open>The third image is older than the first one.\<close>

theorem encoder_pts_increasing_witness:
  "map in_pts (sent soft_run) = [0, 3, 4] \<and> sorted_wrt (<) (map in_pts (sent soft_run))"
  using encoder_pts_increasing [OF soft_run_reachable] soft_run_pts by simp

theorem encoder_conversion_fits_witness:
  "\<exists>c. ctx soft_run = Some c \<and> width c = 1 \<and> in_sws (hd (sent soft_run)) = (1, 1, PIX_GRAY8, pixfmt c)"
proof -
  have "sent soft_run \<noteq> []" using soft_run_pts by auto
  then have "hd (sent soft_run) \<in> set (sent soft_run)" by simp
  moreover have "in_image (hd (sent soft_run)) = tiny_image 5 [0x65, 1]" "\<not> is_vaapi soft_run"
    by code_simp+
  ultimately show ?thesis
    using encoder_conversion_fits [OF soft_run_reachable, of "hd (sent soft_run)"]
    by (auto simp: tiny_image_def toAVPixelFormat_def)
qed

theorem encodeVideo_counts_witness:
  "\<exists>t fs. encodeVideo (soft_ffmpeg ''libx264'') (tiny_image 7 [0x41, 3]) soft_run = (Inr 1, t) \<and>
    packets t = packets soft_run @ fs \<and> 1 = length fs \<and>
    (\<forall>f \<in> set fs. frame_ok (padding (soft_ffmpeg ''libx264'')) f \<and> fstamp f = 7)"
proof -
  let ?r = "encodeVideo (soft_ffmpeg ''libx264'') (tiny_image 7 [0x41, 3]) soft_run"
  have r: "fst ?r = Inr 1" and ini: "initialized soft_run" by code_simp+
  from r have eq: "?r = (Inr 1, snd ?r)" by (metis prod.collapse)
  have "i_stamp (tiny_image 7 [0x41, 3]) = 7" by (simp add: tiny_image_def)
  with encodeVideo_counts [OF soft_run_reachable eq] ini obtain fs where
    "packets (snd ?r) = packets soft_run @ fs \<and> 1 = length fs \<and>
      (\<forall>f \<in> set fs. frame_ok (padding (soft_ffmpeg ''libx264'')) f \<and> fstamp f = 7)"
    by auto
  with eq show ?thesis by blast
qed

section \<open>Delivery\<close>

text \<open>
  \<open>hands_out ff c w ps r w'\<close>: asked again and again from the world \<open>w\<close> on, FFmpeg gives the packets \<open>ps\<close>
  and then the result \<open>r\<close>, which for an encoder that needs more input is \<^verbatim>\<open>AVERROR(EAGAIN)\<close>.
\<close>

primrec hands_out :: "'w ffmpeg \<Rightarrow> avctx \<Rightarrow> 'w \<Rightarrow> byte list list \<Rightarrow> int \<Rightarrow> 'w \<Rightarrow> bool" where
  "hands_out ff c w [] r w' \<longleftrightarrow> receive_packet ff c w = (Inl r, w')"
| "hands_out ff c w (p # ps) r w' \<longleftrightarrow> (\<exists>v. receive_packet ff c w = (Inr p, v) \<and> hands_out ff c v ps r w')"

text \<open>
  What is made of a packet: H.264 and H.265 are cut at start codes, and if a packet consists of
  well-formed units behind four-byte start codes, then into these units; other packets stay as
  they are.
\<close>

definition packet_cut :: "video_codec \<Rightarrow> byte list \<Rightarrow> byte list list \<Rightarrow> bool" where
  "packet_cut codec p us \<longleftrightarrow>
     (if is_h26x codec
      then cut_packet p us \<and> (\<forall>vs. vs \<noteq> [] \<and> (\<forall>v \<in> set vs. unit_ok v) \<and> p = framed vs \<longrightarrow> us = vs)
      else us = [p])"

lemma mk_frames_eq: "map (\<lambda>u. mk_frame pad u t) us = map (\<lambda>u. mk_frame pad u t) vs \<longleftrightarrow> us = vs"
  by (rule inj_map_eq_map) (auto simp: inj_def mk_frame_def)

lemma splitNALs_packet:
  assumes "is_h26x codec" and "4 \<le> length p"
  shows "\<exists>us. splitNALs pad out p t = Some (out @ map (\<lambda>u. mk_frame pad u t) us, length us) \<and> packet_cut codec p us"
proof -
  obtain us where us: "splitNALs pad out p t = Some (out @ map (\<lambda>u. mk_frame pad u t) us, length us)" "cut_packet p us"
    using splitNALs_cut [OF assms(2)] by blast
  have "us = vs" if "vs \<noteq> []" "\<forall>v \<in> set vs. unit_ok v" "p = framed vs" for vs
    using us(1) splitNALs_units [OF that(1,2), of pad out t] that(3) by (simp add: mk_frames_eq)
  with us assms(1) show ?thesis by (auto simp: packet_cut_def)
qed

lemma receive_loop_delivers:
  assumes "hands_out ff c w ps r w'" and "is_h26x codec \<Longrightarrow> \<forall>p \<in> set ps. 4 \<le> length p"
  shows "\<exists>uss. list_all2 (packet_cut codec) ps uss \<and> receive_loop ff codec c t w out count =
    Some (Inr (r, count + length (concat uss)), out @ map (\<lambda>u. mk_frame (padding ff) u t) (concat uss), w')"
  using assms
proof (induction ps arbitrary: w out count)
  case Nil
  then show ?case by (simp add: receive_loop.simps)
next
  case (Cons p ps)
  then obtain v where v: "receive_packet ff c w = (Inr p, v)" "hands_out ff c v ps r w'" by auto
  have "\<exists>us. packet_cut codec p us \<and> receive_loop ff codec c t w out count =
      receive_loop ff codec c t v (out @ map (\<lambda>u. mk_frame (padding ff) u t) us) (count + length us)"
  proof (cases "is_h26x codec")
    case True
    with Cons.prems(2) have "4 \<le> length p" by simp
    with splitNALs_packet [OF True] obtain us where
      "splitNALs (padding ff) out p t = Some (out @ map (\<lambda>u. mk_frame (padding ff) u t) us, length us)"
      "packet_cut codec p us" by blast
    with True v(1) show ?thesis
      by (intro exI [of _ us]) (subst receive_loop.simps, auto simp: is_h26x_def)
  next
    case False
    with v(1) show ?thesis
      by (intro exI [of _ "[p]"]) (subst receive_loop.simps, auto simp: is_h26x_def FrameData_eq packet_cut_def)
  qed
  then obtain us where us: "packet_cut codec p us" "receive_loop ff codec c t w out count =
      receive_loop ff codec c t v (out @ map (\<lambda>u. mk_frame (padding ff) u t) us) (count + length us)" by blast
  from Cons.IH [OF v(2), of "out @ map (\<lambda>u. mk_frame (padding ff) u t) us" "count + length us"] Cons.prems(2)
  obtain uss where "list_all2 (packet_cut codec) ps uss"
    "receive_loop ff codec c t v (out @ map (\<lambda>u. mk_frame (padding ff) u t) us) (count + length us) =
      Some (Inr (r, count + length us + length (concat uss)),
        (out @ map (\<lambda>u. mk_frame (padding ff) u t) us) @ map (\<lambda>u. mk_frame (padding ff) u t) (concat uss), w')" by auto
  with us show ?case by (intro exI [of _ "us # uss"]) simp
qed

text \<open>
  Frame buffers and scaling contexts can be made; that belongs to other libraries and does not
  influence the encoder.
\<close>

definition buffers_at_hand :: "'w ffmpeg \<Rightarrow> bool" where
  "buffers_at_hand ff \<longleftrightarrow> (\<forall>x w. frame_get_buffer ff x w = (0, w)) \<and> (\<forall>x w. sws_get ff x w = (True, w))"

definition next_input :: "'w ffmpeg \<Rightarrow> avctx \<Rightarrow> image \<Rightarrow> 'w encoder \<Rightarrow> enc_input" where
  "next_input ff c img s =
     \<lparr>in_image = img, in_sws = conversion_of ff img (is_vaapi s) c,
      in_hw = hwframe_support ff \<and> is_vaapi s, in_pts = next_pts ff img s\<rparr>"

lemma convert_frame_total:
  assumes inv: "enc_inv ff s" and bufs: "buffers_at_hand ff" and c: "ctx s = Some c"
    and size: "i_width img = width c" "i_height img = height c" and fmt: "toAVPixelFormat img \<noteq> PIX_NONE" "readable img"
  shows "wp (convert_frame ff img)
    (\<lambda>cv t. cv = conversion_of ff img (is_vaapi s) c \<and>
      (\<exists>x l. t = s\<lparr>sws := x, last_pixel_format := l\<rparr>)) never s"
proof -
  let ?conv = "conversion_of ff img (is_vaapi s) c"
  have r: "frame_get_buffer ff (i_width img, i_height img, sw_format ff (is_vaapi s) c) (world s) = (0, world s)"
    using bufs unfolding buffers_at_hand_def by blast
  have ok: "sws_get ff ?conv (world s) = (True, world s)" using bufs unfolding buffers_at_hand_def by blast
  have same: "\<exists>x l. s = s\<lparr>sws := x, last_pixel_format := l\<rparr>"
    by (intro exI [of _ "sws s"] exI [of _ "last_pixel_format s"]) simp
  have keep: "sws s = Some cv \<Longrightarrow> toAVPixelFormat img = last_pixel_format s \<Longrightarrow> cv = ?conv" for cv
    using inv c size by (simp add: enc_inv_def sws_ok_def conversion_of_def)
  show ?thesis
    using c r ok fmt same
    by (auto simp: convert_frame_def Let_def wp_rules sw_format_def [symmetric]
        conversion_of_def [symmetric] split: option.splits dest!: keep)
qed

text \<open>The outcome of a call that ends with the result \<open>r\<close> of \<^verbatim>\<open>avcodec_receive_packet\<close>.\<close>

definition call_result :: "'w ffmpeg \<Rightarrow> int \<Rightarrow> nat \<Rightarrow> fault + nat" where
  "call_result ff r n =
     (if r = eagain ff then Inr n
      else Inl (Throw (EncodingError (''failed to receive packets from encoder: '' @ err_string ff r))))"

lemma submit_frame_total:
  assumes c: "ctx s = Some c" and cv: "cv = conversion_of ff img (is_vaapi s) c"
    and inp: "inp = \<lparr>in_image = img, in_sws = cv, in_hw = hwframe_support ff \<and> is_vaapi s, in_pts = pts\<rparr>"
    and sent: "send_frame ff c inp (world s) = (0, v)" and handed: "hands_out ff c v ps r v'"
    and long: "is_h26x (e_codec s) \<Longrightarrow> \<forall>p \<in> set ps. 4 \<le> length p"
  shows "\<exists>t uss. submit_frame ff img cv pts s = (call_result ff r (length (concat uss)), t) \<and>
    list_all2 (packet_cut (e_codec s)) ps uss \<and>
    packets t = packets s @ map (\<lambda>u. mk_frame (padding ff) u (i_stamp img)) (concat uss)"
proof -
  let ?s = "s\<lparr>sent := sent s @ [inp], world := v\<rparr>"
  from receive_loop_delivers [where t = "i_stamp img" and out = "packets s" and count = 0, OF handed long] obtain uss where
    uss: "list_all2 (packet_cut (e_codec s)) ps uss"
    "receive_loop ff (e_codec s) c (i_stamp img) v (packets s) 0 = Some (Inr (r, length (concat uss)),
      packets s @ map (\<lambda>u. mk_frame (padding ff) u (i_stamp img)) (concat uss), v')" by auto
  then have "receive_packets ff (i_stamp img) ?s = (Inr (r, length (concat uss)),
      ?s\<lparr>packets := packets s @ map (\<lambda>u. mk_frame (padding ff) u (i_stamp img)) (concat uss), world := v'\<rparr>)"
    using c by (simp add: receive_packets_def bnd_def deref_def)
  with c sent cv inp uss(1) show ?thesis
    by (intro exI [of _ "?s\<lparr>packets := packets s @ map (\<lambda>u. mk_frame (padding ff) u (i_stamp img)) (concat uss),
          world := v'\<rparr>"] exI [of _ uss])
      (simp add: submit_frame_def call_result_def call_def op_defs Let_def)
qed

text \<open>
  C10: what goes in comes out. Once encoding has started, let an image have the right size, a supported
  format, its rows within its data, and a time stamp that is not negative; and let FFmpeg, in the state in
  which it happens to be, accept it, and then, asked again and again, give some packets (none, for
  example, while it waits for more images) and at last a result that is no packet. Then the
  receiving loop ends, and the queue grows by exactly what these packets hold, in order, each with the
  image's time stamp: for H.264 and H.265 the units into which a packet is to be cut at its start
  codes (see C4), which are just the units that it consists of when they are framed by four-byte
  start codes; the packet itself for other codecs. If the last result is that
  FFmpeg needs more input, their number is returned; otherwise \<^verbatim>\<open>EncodingError\<close> is thrown, and they
  stay in the queue. (The conditions: frame buffers and scaling contexts can be made, and packets of
  H.264 and H.265 have at least four bytes.)
\<close>

theorem encodeVideo_delivers:
  assumes reach: "reachable_encoder ff s" and ini: "initialized s" and c: "ctx s = Some c"
    and size: "i_width img = width c" "i_height img = height c"
    and fmt: "toAVPixelFormat img \<noteq> PIX_NONE" "readable img" and stamp: "0 \<le> i_stamp img"
    and bufs: "buffers_at_hand ff"
    and sent: "send_frame ff c (next_input ff c img s) (world s) = (0, v)"
    and handed: "hands_out ff c v ps r v'"
    and long: "is_h26x (e_codec s) \<Longrightarrow> \<forall>p \<in> set ps. 4 \<le> length p"
  shows "\<exists>t uss. encodeVideo ff img s = (call_result ff r (length (concat uss)), t) \<and>
    list_all2 (packet_cut (e_codec s)) ps uss \<and>
    packets t = packets s @ map (\<lambda>u. mk_frame (padding ff) u (i_stamp img)) (concat uss)"
proof -
  let ?cv = "conversion_of ff img (is_vaapi s) c" and ?pts = "next_pts ff img s"
  from convert_frame_total [OF reachable_inv [OF reach] bufs c size fmt] obtain x l where
    conv: "convert_frame ff img s = (Inr ?cv, s\<lparr>sws := x, last_pixel_format := l\<rparr>)"
    by (auto simp: wp_def split: prod.splits sum.splits)
  let ?t = "s\<lparr>sws := x, last_pixel_format := l, last_pts := ?pts\<rparr>"
  have pts: "next_pts ff img (s\<lparr>sws := x, last_pixel_format := l\<rparr>) = ?pts" by (simp add: next_pts_def Let_def)
  have t: "ctx ?t = Some c" "?cv = conversion_of ff img (is_vaapi ?t) c"
    "next_input ff c img s = \<lparr>in_image = img, in_sws = ?cv, in_hw = hwframe_support ff \<and> is_vaapi ?t, in_pts = ?pts\<rparr>"
    "send_frame ff c (next_input ff c img s) (world ?t) = (0, v)"
    using c sent by (simp_all add: next_input_def)
  have "is_h26x (e_codec ?t) \<Longrightarrow> \<forall>p \<in> set ps. 4 \<le> length p" using long by simp
  from submit_frame_total [OF t handed this] obtain u uss where
    "submit_frame ff img ?cv ?pts ?t = (call_result ff r (length (concat uss)), u)"
    "list_all2 (packet_cut (e_codec s)) ps uss"
    "packets u = packets s @ map (\<lambda>u. mk_frame (padding ff) u (i_stamp img)) (concat uss)" by auto
  moreover have "encodeVideo ff img s = submit_frame ff img ?cv ?pts ?t"
    using ini c size stamp conv pts
    by (simp add: encodeVideo_def start_encoding_def rclcpp_time_def op_defs)
  ultimately show ?thesis by auto
qed

theorem encodeVideo_delivers_witness:
  "\<exists>t. encodeVideo (soft_ffmpeg ''libx264'') (tiny_image 7 [0x41, 3]) soft_run = (Inr 1, t) \<and>
    packets t = packets soft_run @ [mk_frame 4 [0x41, 3] 7]"
proof -
  let ?ff = "soft_ffmpeg ''libx264''" and ?img = "tiny_image 7 [0x41, 3]"
  let ?c = "the (ctx soft_run)" and ?p = "[0, 0, 0, 1, 0x41, 3]"
  have run: "initialized soft_run" "ctx soft_run = Some ?c" "i_width ?img = width ?c" "i_height ?img = height ?c"
    "e_codec soft_run = H264"
    by code_simp+
  have fmt: "toAVPixelFormat ?img \<noteq> PIX_NONE" "readable ?img" "0 \<le> i_stamp ?img"
    by (simp_all add: readable_def planes_def row_bytes_def toAVPixelFormat_def tiny_image_def Let_def)
  have bufs: "buffers_at_hand ?ff" by (simp add: buffers_at_hand_def soft_ffmpeg_def)
  have sent: "send_frame ?ff ?c (next_input ?ff ?c ?img soft_run) (world soft_run) = (0, [?p])"
    by (simp add: soft_ffmpeg_def next_input_def tiny_image_def)
  have handed: "hands_out ?ff ?c [?p] [?p] (eagain ?ff) []" by (simp add: soft_ffmpeg_def)
  from encodeVideo_delivers [OF soft_run_reachable run(1-4) fmt bufs sent handed] obtain t uss where
    t: "encodeVideo ?ff ?img soft_run = (call_result ?ff (eagain ?ff) (length (concat uss)), t)"
    "list_all2 (packet_cut H264) [?p] uss"
    "packets t = packets soft_run @ map (\<lambda>u. mk_frame (padding ?ff) u (i_stamp ?img)) (concat uss)"
    using run(5) by auto
  have "unit_ok [0x41, 3]" by (auto simp: unit_ok_def code_at_def)
  with t(2) have "uss = [[[0x41, 3]]]"
    by (auto simp: list_all2_Cons1 packet_cut_def is_h26x_def dest: spec [of _ "[[0x41, 3]]"])
  with t(1,3) show ?thesis by (auto simp: call_result_def tiny_image_def soft_ffmpeg_def)
qed

end
