(* ===== verification/Stream_Decoder.thy ===== *)
theory Stream_Decoder
  imports Codec_Probe Frame_Data Images
begin

text \<open>
  The decoder (\<^verbatim>\<open>src/src/stream_decoder.h\<close>, \<^verbatim>\<open>src/src/stream_decoder.cpp\<close>). As for the
  encoder, FFmpeg is a parameter with a hidden world. A decoded frame is known by its size
  and its pixel format; \<open>sws_scale\<close> yields the bytes that the conversion of a frame writes
  to its destination.
\<close>

section \<open>FFmpeg\<close>

datatype discard = DISCARD_DEFAULT | DISCARD_NONINTRA | DISCARD_NONKEY | DISCARD_ALL

record dec_ctx =
  d_name :: string
  d_opts :: "(string \<times> int) list"
  d_log_level_offset :: int
  d_chunks :: bool
  d_error_concealment :: int
  skip_frame :: discard

record av_frame =
  f_width :: int
  f_height :: int
  f_format :: pix_fmt
  f_planes :: "byte list"

text \<open>A scaling context: size and format of the source; the destination is BGR of the same size.\<close>

type_synonym scaling = "int \<times> int \<times> pix_fmt"

record 'w dec_ffmpeg =
  d_eagain :: int
  d_err_string :: "int \<Rightarrow> string"
  decoder_by_name :: "string \<Rightarrow> 'w \<Rightarrow> string option \<times> 'w"
  d_alloc_context :: "string \<Rightarrow> 'w \<Rightarrow> dec_ctx option \<times> 'w"
  d_opt_set :: "dec_ctx \<Rightarrow> string \<Rightarrow> int \<Rightarrow> 'w \<Rightarrow> int \<times> 'w"
  d_codec_open :: "dec_ctx \<Rightarrow> 'w \<Rightarrow> int \<times> 'w"
  send_packet :: "dec_ctx \<Rightarrow> byte list \<times> nat \<Rightarrow> 'w \<Rightarrow> int \<times> 'w"
  receive_frame :: "dec_ctx \<Rightarrow> 'w \<Rightarrow> (int + av_frame) \<times> 'w"
  d_sws_get :: "scaling \<Rightarrow> 'w \<Rightarrow> bool \<times> 'w"
  sws_scale :: "scaling \<Rightarrow> av_frame \<Rightarrow> byte list"

section \<open>The class\<close>

datatype decode_frames = All | Intra | Key | NoFrames

text \<open>\<open>scaled\<close> records which frames were converted with which scaling context.\<close>

record 'w decoder =
  d_codec :: video_codec
  d_initialized :: bool
  d_width :: int
  d_height :: int
  d_last_format :: pix_fmt
  d_ctx :: "dec_ctx option"
  d_sws :: "scaling option"
  frames :: "image list"
  scaled :: "(scaling \<times> av_frame) list"
  d_world :: 'w

definition d_call :: "('w \<Rightarrow> 'a \<times> 'w) \<Rightarrow> ('w decoder, 'a) op" where
  "d_call f = (\<lambda>s. case f (d_world s) of (a, w) \<Rightarrow> (Inr a, s\<lparr>d_world := w\<rparr>))"

definition upd_dctx :: "(dec_ctx \<Rightarrow> dec_ctx) \<Rightarrow> ('w decoder, unit) op" where
  "upd_dctx f = bnd (deref d_ctx) (\<lambda>c. upd (\<lambda>s. s\<lparr>d_ctx := Some (f c)\<rparr>))"

lemma wp_d_call [wp_rules]:
  "wp (d_call f) Q E s = (case f (d_world s) of (a, w) \<Rightarrow> Q a (s\<lparr>d_world := w\<rparr>))"
  by (simp add: wp_def d_call_def split: prod.splits)

lemma wp_upd_dctx [wp_rules]:
  "wp (upd_dctx f) Q E s =
     (case d_ctx s of None \<Rightarrow> E NullDeref s | Some c \<Rightarrow> Q () (s\<lparr>d_ctx := Some (f c)\<rparr>))"
  by (simp add: upd_dctx_def wp_rules split: option.split)

definition dec_set_codec_option :: "'w dec_ffmpeg \<Rightarrow> string \<Rightarrow> int \<Rightarrow> ('w decoder, unit) op" where
  "dec_set_codec_option ff opt value =
     bnd (deref d_ctx) (\<lambda>c. bnd (d_call (d_opt_set ff c opt value)) (\<lambda>result.
       whenb (result = 0) (upd_dctx (\<lambda>c. c\<lparr>d_opts := d_opts c @ [(opt, value)]\<rparr>))))"

definition FFMPEG_DECODERS :: "(video_codec \<times> string list) list" where
  "FFMPEG_DECODERS =
     [(H264, [''h264_qsv'', ''h264_cuvid'', ''h264'']),
      (H265, [''hevc_qsv'', ''hevc_cuvid'', ''hevc'', ''h265'']),
      (MPEG4, [''mpeg4_cuvid'', ''mpeg4'']),
      (VP8, [''vp8_qsv'', ''vp8_cuvid'', ''vp8'']),
      (VP9, [''vp9_qsv'', ''vp9_cuvid'', ''vp9'']),
      (AV1, [''av1_qsv'', ''av1_cuvid'', ''libdav1d'', ''av1'']),
      (MJPEG, [''mjpeg_qsv'', ''mjpeg_cuvid'', ''mjpeg''])]"

definition setupDecoder :: "'w dec_ffmpeg \<Rightarrow> string \<Rightarrow> ('w decoder, unit) op" where
  "setupDecoder ff dec =
     thn (bnd (d_call (d_alloc_context ff dec)) (\<lambda>c. upd (\<lambda>s. s\<lparr>d_ctx := c\<rparr>)))
    (thn (bnd (gets d_ctx) (\<lambda>c. whenb (c = None)
           (fail (Throw (StreamingError ''failed to initialize decoder context'')))))
    (thn (whenb (contains ''qsv'' dec) (dec_set_codec_option ff ''async_depth'' 1))
    (thn (upd_dctx (\<lambda>c. c\<lparr>d_log_level_offset := 8\<rparr>))
    (thn (bnd (gets d_codec) (\<lambda>codec. whenb (codec = H264 \<or> codec = H265)
           (upd_dctx (\<lambda>c. c\<lparr>d_chunks := True, d_error_concealment := 0\<rparr>))))
    (bnd (deref d_ctx) (\<lambda>c. bnd (d_call (d_codec_open ff c)) (\<lambda>result.
       whenb (result < 0) (fail (Throw (StreamingError ''failed to open decoder''))))))))))"

text \<open>The body of the constructor's loop: \<open>True\<close> is the \<^verbatim>\<open>break\<close>.\<close>

definition try_decoder :: "'w dec_ffmpeg \<Rightarrow> string \<Rightarrow> ('w decoder, bool) op" where
  "try_decoder ff name =
     handle
       (bnd (d_call (decoder_by_name ff name)) (\<lambda>decoder.
          case decoder of
            Some dec \<Rightarrow> thn (setupDecoder ff dec) (ret True)
          | None \<Rightarrow> ret False))
       (\<lambda>e. thn (upd (\<lambda>s. s\<lparr>d_ctx := None\<rparr>)) (ret False))"

definition blank_decoder :: "video_codec \<Rightarrow> 'w \<Rightarrow> 'w decoder" where
  "blank_decoder codec w =
     \<lparr>d_codec = codec, d_initialized = False, d_width = 0, d_height = 0, d_last_format = PIX_NONE,
      d_ctx = None, d_sws = None, frames = [], scaled = [], d_world = w\<rparr>"

definition StreamDecoder :: "'w dec_ffmpeg \<Rightarrow> video_codec \<Rightarrow> bool \<Rightarrow> ('w decoder, unit) op" where
  "StreamDecoder ff codec use_hw_decoder =
     (case map_of FFMPEG_DECODERS codec of
        None \<Rightarrow> fail (Throw (StreamingError (''no decoder support available for '' @ videoCodecName codec)))
      | Some names \<Rightarrow>
          thn (probe_loop (try_decoder ff) use_hw_decoder names)
         (bnd (gets d_ctx) (\<lambda>c. whenb (c = None)
            (fail (Throw (StreamingError (''no usable decoder available for '' @ videoCodecName codec)))))))"

definition setDecodeFrames :: "decode_frames \<Rightarrow> ('w decoder, unit) op" where
  "setDecodeFrames which =
     upd_dctx (\<lambda>c. c\<lparr>skip_frame :=
       (case which of
          All \<Rightarrow> DISCARD_DEFAULT
        | Intra \<Rightarrow> DISCARD_NONINTRA
        | Key \<Rightarrow> DISCARD_NONKEY
        | NoFrames \<Rightarrow> DISCARD_ALL)\<rparr>)"

section \<open>Decoding\<close>

text \<open>A product of \<^verbatim>\<open>int\<close> values is undefined behaviour when it does not fit.\<close>

definition int_fits :: "int \<Rightarrow> bool" where
  "int_fits n \<longleftrightarrow> -(2 ^ 31) \<le> n \<and> n < 2 ^ 31"

text \<open>
  The bytes of an image: \<^verbatim>\<open>resize\<close> gives a buffer of zeros, and throws
  \<^verbatim>\<open>std::length_error\<close> for a negative size, which it takes for a huge one. Scaling
  overwrites the front of the buffer and must not write behind its end.
\<close>

definition image_data :: "int \<Rightarrow> byte list \<Rightarrow> fault + byte list" where
  "image_data n written =
     (if n < 0 then Inl (Throw (StdException ''vector::_M_default_append''))
      else if nat n < length written then Inl OutOfBounds
      else Inr (written @ replicate (nat n - length written) 0))"

definition rescale :: "'w dec_ffmpeg \<Rightarrow> av_frame \<Rightarrow> ('w decoder, unit) op" where
  "rescale ff frm =
     bnd (gets id) (\<lambda>s.
       whenb (d_sws s = None \<or> f_width frm \<noteq> d_width s \<or> f_height frm \<noteq> d_height s \<or>
              f_format frm \<noteq> d_last_format s)
         (let conversion = (f_width frm, f_height frm, f_format frm)
          in bnd (d_call (d_sws_get ff conversion)) (\<lambda>ok.
               upd (\<lambda>s. s\<lparr>d_width := f_width frm, d_height := f_height frm,
                 d_last_format := f_format frm, d_sws := if ok then Some conversion else None\<rparr>))))"

text \<open>The body of the loop in \<^verbatim>\<open>decodeVideo\<close>.\<close>

definition convert_image :: "'w dec_ffmpeg \<Rightarrow> stamp \<Rightarrow> av_frame \<Rightarrow> ('w decoder, unit) op" where
  "convert_image ff t frm =
     thn (rescale ff frm)
    (bnd (gets (\<lambda>s. (d_width s, d_height s))) (\<lambda>(w, h).
       if \<not> int_fits (3 * w) \<or> \<not> int_fits (3 * w * h) then fail IntOverflow
       else bnd (deref d_sws) (\<lambda>conversion.
         thn (upd (\<lambda>s. s\<lparr>scaled := scaled s @ [(conversion, frm)]\<rparr>))
        (bnd (lift_op (image_data (3 * w * h) (sws_scale ff conversion frm))) (\<lambda>bytes.
         upd (\<lambda>s. s\<lparr>frames := frames s @
           [\<lparr>i_width = word_of_int w, i_height = word_of_int h, i_encoding = BGR8,
             i_bigendian = False, i_step = word_of_int (3 * w), i_data = bytes, i_stamp = t\<rparr>]\<rparr>))))))"

text \<open>
  The loop \<^verbatim>\<open>while ((result = avcodec_receive_frame(...)) == 0)\<close>, with the result that ended
  it and the count; \<open>None\<close> means that FFmpeg never stops giving frames.
\<close>

partial_function (option) frame_loop ::
  "'w dec_ffmpeg \<Rightarrow> dec_ctx \<Rightarrow> stamp \<Rightarrow> 'w decoder \<Rightarrow> nat \<Rightarrow>
   ((fault + int \<times> nat) \<times> 'w decoder) option" where
  "frame_loop ff c t s count =
     (case receive_frame ff c (d_world s) of
        (Inl result, w) \<Rightarrow> Some (Inr (result, count), s\<lparr>d_world := w\<rparr>)
      | (Inr frm, w) \<Rightarrow>
          (case convert_image ff t frm (s\<lparr>d_world := w\<rparr>) of
             (Inl e, s') \<Rightarrow> Some (Inl e, s')
           | (Inr _, s') \<Rightarrow> frame_loop ff c t s' (count + 1)))"

declare frame_loop.simps [code]

definition receive_frames :: "'w dec_ffmpeg \<Rightarrow> stamp \<Rightarrow> ('w decoder, int \<times> nat) op" where
  "receive_frames ff t =
     bnd (deref d_ctx) (\<lambda>c. \<lambda>s.
       case frame_loop ff c t s 0 of
         None \<Rightarrow> (Inl Diverges, s)
       | Some (r, s') \<Rightarrow> (r, s'))"

definition decodeVideo :: "'w dec_ffmpeg \<Rightarrow> frame_data \<Rightarrow> ('w decoder, nat) op" where
  "decodeVideo ff data =
     thn (bnd (gets d_initialized) (\<lambda>ini. whenb (\<not> ini)
            (upd (\<lambda>s. s\<lparr>frames := [], d_initialized := True\<rparr>))))
    (bnd (deref d_ctx) (\<lambda>c. bnd (d_call (send_packet ff c (fdata data, flength data))) (\<lambda>result.
     thn (whenb (result \<noteq> 0)
           (fail (Throw (DecodingError
             (''failed to send bitstream packet to decoder: '' @ d_err_string ff result)))))
    (bnd (receive_frames ff (fstamp data)) (\<lambda>(result, count).
     thn (whenb (result \<noteq> d_eagain ff)
           (fail (Throw (DecodingError
             (''failed to receive frames from decoder: '' @ d_err_string ff result)))))
         (ret count))))))"

definition nextFrame :: "'w decoder \<Rightarrow> image option \<times> 'w decoder" where
  "nextFrame s =
     (case frames s of
        [] \<Rightarrow> (None, s)
      | img # rest \<Rightarrow> (Some img, s\<lparr>frames := rest\<rparr>))"

interpretation frame_queue: fifo frames "\<lambda>f s. s\<lparr>frames := frames s @ [f]\<rparr>" nextFrame
  by unfold_locales (auto simp: nextFrame_def)

section \<open>The constructor\<close>

definition dec_names_ok :: "'w dec_ffmpeg \<Rightarrow> bool" where
  "dec_names_ok ff \<longleftrightarrow>
     (\<forall>n w. fst (decoder_by_name ff n w) \<in> {None, Some n}) \<and>
     (\<forall>n w c. fst (d_alloc_context ff n w) = Some c \<longrightarrow> d_name c = n)"

definition d_chosen :: "'w decoder \<Rightarrow> string option" where
  "d_chosen s = map_option d_name (d_ctx s)"

definition d_unused :: "video_codec \<Rightarrow> 'w decoder \<Rightarrow> bool" where
  "d_unused codec s \<longleftrightarrow> d_codec s = codec \<and> \<not> d_initialized s \<and> frames s = [] \<and> scaled s = [] \<and>
     d_sws s = None"

lemma d_chosen_ctx: "d_chosen s = Some n \<Longrightarrow> \<exists>c. d_ctx s = Some c \<and> d_name c = n"
  by (auto simp: d_chosen_def)

definition d_set_up :: "video_codec \<Rightarrow> string \<Rightarrow> 'w decoder \<Rightarrow> bool" where
  "d_set_up codec n s \<longleftrightarrow> d_unused codec s \<and> d_chosen s = Some n"

lemma d_set_up_ctx: "d_set_up codec n s \<Longrightarrow> \<exists>c. d_ctx s = Some c \<and> d_name c = n"
  by (simp add: d_set_up_def d_chosen_ctx)

lemma keeps_d_call [keeps_rules]: "keeps (d_set_up codec n) E (d_call f)"
  by (simp add: keeps_def wp_rules d_set_up_def d_unused_def d_chosen_def split: prod.splits)

lemma keeps_deref_dctx [keeps_rules]: "keeps (d_set_up codec n) E (deref d_ctx)"
  by (auto simp: keeps_def wp_rules d_set_up_def d_chosen_def split: option.splits)

lemma keeps_upd_dctx [keeps_rules]:
  "(\<And>c. d_name (f c) = d_name c) \<Longrightarrow> keeps (d_set_up codec n) E (upd_dctx f)"
  by (auto simp: keeps_def wp_rules d_set_up_def d_unused_def d_chosen_def split: option.splits)

lemma keeps_dec_option [keeps_rules]: "keeps (d_set_up codec n) E (dec_set_codec_option ff opt v)"
  unfolding dec_set_codec_option_def by (intro keeps_rules) simp_all

lemma wp_setupDecoder:
  assumes "dec_names_ok ff" and "d_unused codec s"
  shows "wp (setupDecoder ff n) (\<lambda>_. d_set_up codec n) (throws (d_unused codec)) s"
proof -
  let ?E = "throws (d_set_up codec n)"
  obtain c w where c: "d_alloc_context ff n (d_world s) = (c, w)" by (rule prod.exhaust)
  with assms(1) have name: "\<And>a. c = Some a \<Longrightarrow> d_name a = n"
    by (auto simp: dec_names_ok_def) (metis fst_conv)
  have rest: "keeps (d_set_up codec n) ?E
     (thn (whenb (contains ''qsv'' n) (dec_set_codec_option ff ''async_depth'' 1))
     (thn (upd_dctx (\<lambda>c. c\<lparr>d_log_level_offset := 8\<rparr>))
     (thn (bnd (gets d_codec) (\<lambda>codec. whenb (codec = H264 \<or> codec = H265)
            (upd_dctx (\<lambda>c. c\<lparr>d_chunks := True, d_error_concealment := 0\<rparr>))))
     (bnd (deref d_ctx) (\<lambda>c. bnd (d_call (d_codec_open ff c)) (\<lambda>result.
        whenb (result < 0) (fail (Throw (StreamingError ''failed to open decoder''))))))))) "
    by (intro keeps_rules) simp_all
  have start: "d_set_up codec n (s\<lparr>d_world := w, d_ctx := Some a\<rparr>)" if "c = Some a" for a
    using assms(2) name [OF that] by (simp add: d_set_up_def d_unused_def d_chosen_def)
  show ?thesis
  proof (cases c)
    case None
    with c assms(2) show ?thesis
      by (simp add: setupDecoder_def wp_thn [of "bnd (d_call _) _"] wp_thn [of "bnd (gets d_ctx) _"]
          wp_bnd [of "d_call _"] wp_bnd [of "gets d_ctx"] wp_d_call wp_upd wp_gets wp_whenb wp_fail d_unused_def)
  next
    case (Some a)
    from wp_mono [OF keepsD [OF rest start [OF Some]]] c Some show ?thesis
      by (simp add: setupDecoder_def wp_thn [of "bnd (d_call _) _"] wp_thn [of "bnd (gets d_ctx) _"]
          wp_bnd [of "d_call _"] wp_bnd [of "gets d_ctx"] wp_d_call wp_upd wp_gets wp_whenb wp_fail d_set_up_def)
  qed
qed

lemma wp_try_decoder:
  assumes ok: "dec_names_ok ff" and u: "d_unused codec s" and none: "d_chosen s = None"
  shows "wp (try_decoder ff n)
    (\<lambda>ok t. d_unused codec t \<and> d_chosen t = (if ok then Some n else None)) (\<lambda>_ _. False) s"
proof -
  obtain dec w where found: "decoder_by_name ff n (d_world s) = (dec, w)" by (rule prod.exhaust)
  have us: "d_unused codec (s\<lparr>d_world := w\<rparr>)" using u by (simp add: d_unused_def)
  have "fst (decoder_by_name ff n (d_world s)) \<in> {None, Some n}" using ok by (simp add: dec_names_ok_def)
  with found consider "dec = None" | "dec = Some n" by auto
  then show ?thesis
  proof cases
    case 1
    with found us none show ?thesis by (simp add: try_decoder_def wp_rules) (simp add: d_chosen_def)
  next
    case 2
    with found show ?thesis
      by (simp add: try_decoder_def wp_handle wp_bnd [of "d_call _"] wp_d_call wp_thn wp_ret wp_upd)
        (rule wp_mono [OF wp_setupDecoder [OF ok us]],
          auto simp: d_set_up_def d_unused_def d_chosen_def wp_thn wp_ret wp_upd)
  qed
qed

definition d_configuring :: "'w dec_ffmpeg \<Rightarrow> video_codec \<Rightarrow> 'w decoder \<Rightarrow> bool" where
  "d_configuring ff codec s \<longleftrightarrow> dec_names_ok ff \<and> d_unused codec s"

interpretation decoder_probing: probing "try_decoder ff" d_chosen "d_configuring ff codec"
  for ff codec
proof
  fix s n
  assume "d_configuring ff codec s" and "d_chosen s = None"
  then have ok: "dec_names_ok ff" "d_unused codec s" "d_chosen s = None"
    by (simp_all add: d_configuring_def)
  show "wp (try_decoder ff n) (\<lambda>ok t. d_configuring ff codec t \<and>
      d_chosen t = (if ok then Some n else None)) (\<lambda>_ _. False) s"
    by (rule wp_mono [OF wp_try_decoder [OF ok]]) (auto simp: d_configuring_def ok(1))
qed

lemma wp_StreamDecoder:
  assumes "dec_names_ok ff"
  shows "wp (StreamDecoder ff codec use_hw)
    (\<lambda>_ t. d_unused codec t \<and> (\<exists>names n. map_of FFMPEG_DECODERS codec = Some names \<and>
        d_chosen t = Some n \<and> n \<in> set (admissible use_hw names)))
    (\<lambda>f t. \<exists>e. f = Throw (StreamingError e)) (blank_decoder codec w)"
proof (cases "map_of FFMPEG_DECODERS codec")
  case None
  then show ?thesis by (simp add: StreamDecoder_def wp_rules)
next
  case (Some names)
  have "d_configuring ff codec (blank_decoder codec w)" "d_chosen (blank_decoder codec w) = None"
    using assms by (simp_all add: d_configuring_def d_unused_def blank_decoder_def d_chosen_def)
  from decoder_probing.probe_wp [OF this, of use_hw names] Some show ?thesis
    unfolding StreamDecoder_def
    by (auto simp: wp_thn wp_bnd [of "gets d_ctx"] wp_gets wp_whenb wp_fail elim!: wp_mono)
      (auto simp: d_configuring_def d_unused_def d_chosen_def)
qed

text \<open>
  What a constructed decoder is. When the constructor of \<open>StreamDecoder\<close> returns, the
  codec context belongs to one of the implementations listed for the codec, one without an
  underscore in its name when hardware decoders are not wanted, and nothing was decoded
  yet. When it fails, then with a \<open>StreamingError\<close>, never by undefined behaviour.
\<close>

theorem StreamDecoder_result:
  assumes "dec_names_ok ff"
  shows "case StreamDecoder ff codec use_hw (blank_decoder codec w) of
      (Inr _, t) \<Rightarrow> \<not> d_initialized t \<and> frames t = [] \<and>
        (\<exists>names n c. map_of FFMPEG_DECODERS codec = Some names \<and> n \<in> set names \<and>
          (use_hw \<or> CHR ''_'' \<notin> set n) \<and> d_ctx t = Some c \<and> d_name c = n)
    | (Inl f, t) \<Rightarrow> \<exists>msg. f = Throw (StreamingError msg)"
  using wp_StreamDecoder [OF assms, of codec use_hw w]
  by (auto simp: wp_def d_unused_def d_chosen_def admissible_def split: prod.splits sum.splits)

section \<open>The order of preference\<close>

text \<open>An FFmpeg whose answers do not change: it was built with the decoders \<open>listed\<close>, and can
  open those with \<open>opens\<close>.\<close>

definition steady_decoders :: "'w dec_ffmpeg \<Rightarrow> (string \<Rightarrow> bool) \<Rightarrow> (string \<Rightarrow> bool) \<Rightarrow> bool" where
  "steady_decoders ff listed opens \<longleftrightarrow>
     (\<forall>n w. fst (decoder_by_name ff n w) = (if listed n then Some n else None)) \<and>
     (\<forall>n w. \<exists>c. fst (d_alloc_context ff n w) = Some c \<and> d_name c = n) \<and>
     (\<forall>c w. 0 \<le> fst (d_codec_open ff c w) \<longleftrightarrow> opens (d_name c))"

lemma steady_dec_names_ok: "steady_decoders ff listed opens \<Longrightarrow> dec_names_ok ff"
  by (auto simp: steady_decoders_def dec_names_ok_def) (metis option.inject)

lemma wp_setupDecoder_exact:
  assumes st: "steady_decoders ff listed opens" and u: "d_unused codec s"
  shows "wp (setupDecoder ff n) (\<lambda>_ _. opens n) (\<lambda>f _. \<not> opens n \<and> (\<exists>e. f = Throw e)) s"
proof -
  have keep: "keeps (d_set_up codec n) never (whenb (contains ''qsv'' n) (dec_set_codec_option ff ''async_depth'' 1))"
    "keeps (d_set_up codec n) never (upd_dctx (\<lambda>c. c\<lparr>d_log_level_offset := 8\<rparr>))"
    "keeps (d_set_up codec n) never (bnd (gets d_codec) (\<lambda>codec. whenb (codec = H264 \<or> codec = H265)
            (upd_dctx (\<lambda>c. c\<lparr>d_chunks := True, d_error_concealment := 0\<rparr>))))"
    by (intro keeps_rules; simp)+
  have open_it: "wp (bnd (deref d_ctx) (\<lambda>c. bnd (d_call (d_codec_open ff c)) (\<lambda>result.
        whenb (result < 0) (fail (Throw (StreamingError ''failed to open decoder''))))))
      (\<lambda>_ _. opens n) (\<lambda>f _. \<not> opens n \<and> (\<exists>e. f = Throw e)) t" if t: "d_set_up codec n t" for t
  proof -
    obtain c where c: "d_ctx t = Some c" "d_name c = n" using d_set_up_ctx [OF t] by blast
    obtain r v where "d_codec_open ff c (d_world t) = (r, v)" by (rule prod.exhaust)
    moreover from this st c have "0 \<le> r \<longleftrightarrow> opens n" by (metis fst_conv steady_decoders_def)
    ultimately show ?thesis using c by (auto simp: wp_rules)
  qed
  obtain c w where c: "d_alloc_context ff n (d_world s) = (Some c, w)" "d_name c = n"
    using st by (metis prod.collapse steady_decoders_def)
  have start: "d_set_up codec n (s\<lparr>d_world := w, d_ctx := Some c\<rparr>)"
    using u c(2) by (simp add: d_set_up_def d_unused_def d_chosen_def)
  show ?thesis
    unfolding setupDecoder_def wp_thn wp_bnd [of "d_call (d_alloc_context ff n)"] wp_bnd [of "gets d_ctx"]
      wp_d_call wp_gets wp_upd wp_whenb [of "_ = None"] wp_fail c(1) prod.case
    by (simp, rule wp_mono [OF keepsD [OF keep(1) start]], rule wp_mono [OF keepsD [OF keep(2)]], assumption,
        rule wp_mono [OF keepsD [OF keep(3)]], assumption, erule open_it) simp_all
qed

lemma try_decoder_exact:
  assumes st: "steady_decoders ff listed opens" and u: "d_unused codec s"
  shows "fst (try_decoder ff n s) = Inr (listed n \<and> opens n)"
proof -
  obtain dec w where found: "decoder_by_name ff n (d_world s) = (dec, w)" by (rule prod.exhaust)
  with st have dec: "dec = (if listed n then Some n else None)" by (metis fst_conv steady_decoders_def)
  have "d_unused codec (s\<lparr>d_world := w\<rparr>)" using u by (simp add: d_unused_def)
  note body = wp_setupDecoder_exact [OF st this, of n]
  have "wp (try_decoder ff n) (\<lambda>ok _. ok = (listed n \<and> opens n)) never s"
    using found dec
    by (cases "listed n") (simp_all add: try_decoder_def wp_handle wp_bnd [of "d_call _"] wp_d_call wp_thn wp_ret,
        rule wp_mono [OF body], auto simp: wp_thn wp_upd wp_ret)
  then show ?thesis by (auto simp: wp_def split: prod.splits sum.splits)
qed

definition steady_d_configuring ::
  "'w dec_ffmpeg \<Rightarrow> (string \<Rightarrow> bool) \<Rightarrow> (string \<Rightarrow> bool) \<Rightarrow> video_codec \<Rightarrow> 'w decoder \<Rightarrow> bool" where
  "steady_d_configuring ff listed opens codec s \<longleftrightarrow>
     steady_decoders ff listed opens \<and> d_configuring ff codec s"

interpretation steady_decoder_probing: steady_probing "try_decoder ff" d_chosen
    "steady_d_configuring ff listed opens codec" "\<lambda>n. listed n \<and> opens n"
  for ff codec listed opens
proof
  fix s n
  assume "steady_d_configuring ff listed opens codec s" and none: "d_chosen s = None"
  then have st: "steady_decoders ff listed opens" and c: "d_configuring ff codec s"
    by (simp_all add: steady_d_configuring_def)
  show "wp (try_decoder ff n) (\<lambda>ok t. steady_d_configuring ff listed opens codec t \<and>
      d_chosen t = (if ok then Some n else None)) (\<lambda>_ _. False) s"
    by (rule wp_mono [OF decoder_probing.attempt_wp [OF c none]])
      (simp_all add: steady_d_configuring_def st)
  from c have "d_unused codec s" by (simp add: d_configuring_def)
  from try_decoder_exact [OF st this] show "fst (try_decoder ff n s) = Inr (listed n \<and> opens n)" .
qed

text \<open>
  The order of preference of the decoders. With an FFmpeg whose answers do not change,
  the constructor settles on the first implementation listed for the codec that FFmpeg
  knows and can open, among the ones without underscore when hardware decoders are not
  wanted; and it throws exactly when there is none.
\<close>

theorem StreamDecoder_first_usable:
  assumes "steady_decoders ff listed opens" and "map_of FFMPEG_DECODERS codec = Some names"
  shows "case StreamDecoder ff codec use_hw (blank_decoder codec w) of
      (Inr _, t) \<Rightarrow> (\<exists>n. d_chosen t = Some n \<and>
        List.find (\<lambda>n. listed n \<and> opens n) (admissible use_hw names) = Some n)
    | (Inl f, t) \<Rightarrow>
        f = Throw (StreamingError (''no usable decoder available for '' @ videoCodecName codec)) \<and>
        (\<forall>n \<in> set (admissible use_hw names). \<not> (listed n \<and> opens n))"
proof -
  let ?b = "blank_decoder codec w"
  have "steady_d_configuring ff listed opens codec ?b" "d_chosen ?b = None"
    using assms(1) steady_dec_names_ok [OF assms(1)]
    by (simp_all add: steady_d_configuring_def d_configuring_def d_unused_def blank_decoder_def d_chosen_def)
  from steady_decoder_probing.probe_first [OF this, of use_hw names]
  have "wp (StreamDecoder ff codec use_hw)
      (\<lambda>_ t. \<exists>n. d_chosen t = Some n \<and>
        List.find (\<lambda>n. listed n \<and> opens n) (admissible use_hw names) = Some n)
      (\<lambda>f t. f = Throw (StreamingError (''no usable decoder available for '' @ videoCodecName codec)) \<and>
        List.find (\<lambda>n. listed n \<and> opens n) (admissible use_hw names) = None) ?b"
    unfolding StreamDecoder_def
    by (auto simp: assms(2) wp_thn wp_bnd [of "gets d_ctx"] wp_gets wp_whenb wp_fail elim!: wp_mono)
      (auto simp: d_chosen_def intro: sym)
  then show ?thesis
    by (auto simp: wp_def find_None_iff split: prod.splits sum.splits)
qed

section \<open>Which frames are converted how\<close>

text \<open>
  A converted frame is an image of its size, in BGR order, without gaps between the lines.
\<close>

definition image_ok :: "image \<Rightarrow> bool" where
  "image_ok img \<longleftrightarrow> i_encoding img = BGR8 \<and> \<not> i_bigendian img \<and>
     unat (i_step img) = 3 * unat (i_width img) \<and>
     length (i_data img) = unat (i_step img) * unat (i_height img)"

text \<open>What FFmpeg documents: decoded frames have a positive size.\<close>

definition frames_sized :: "'w dec_ffmpeg \<Rightarrow> bool" where
  "frames_sized ff \<longleftrightarrow>
     (\<forall>c w frm. fst (receive_frame ff c w) = Inr frm \<longrightarrow> 0 < f_width frm \<and> 0 < f_height frm)"

definition dec_inv :: "'w decoder \<Rightarrow> bool" where
  "dec_inv s \<longleftrightarrow> d_ctx s \<noteq> None \<and>
     (\<forall>cv. d_sws s = Some cv \<longrightarrow> cv = (d_width s, d_height s, d_last_format s)) \<and>
     (\<forall>(cv, frm) \<in> set (scaled s). cv = (f_width frm, f_height frm, f_format frm)) \<and>
     (\<forall>img \<in> set (frames s). image_ok img)"

lemma image_data_Inr:
  "image_data n bs = Inr data \<Longrightarrow> length data = nat n \<and> data = bs @ replicate (nat n - length bs) 0"
  by (auto simp: image_data_def split: if_splits)

lemma unat_word_of_int: "0 \<le> n \<Longrightarrow> n < 2 ^ 32 \<Longrightarrow> unat (word_of_int n :: 32 word) = nat n"
  by (simp add: unat_eq_nat_uint uint_word_of_int)

lemma image_ok_new:
  assumes "0 < w" "0 < h" "int_fits (3 * w)" "int_fits (3 * w * h)" "length bytes = nat (3 * w * h)"
  shows "image_ok \<lparr>i_width = word_of_int w, i_height = word_of_int h, i_encoding = BGR8,
    i_bigendian = False, i_step = word_of_int (3 * w), i_data = bytes, i_stamp = t\<rparr>"
proof -
  have le: "h \<le> 3 * w * h" using assms(1,2) by (simp add: mult_le_cancel_right1)
  have lt: "3 * w * h < 2 ^ 31" using assms(4) by (simp add: int_fits_def)
  from le_less_trans [OF le lt] have "h < 2 ^ 32" by simp
  moreover have "3 * w < 2 ^ 32" "w < 2 ^ 32"
    using assms(1,3) by (auto simp: int_fits_def)
  ultimately have "unat (word_of_int h :: 32 word) = nat h" "unat (word_of_int w :: 32 word) = nat w"
    "unat (word_of_int (3 * w) :: 32 word) = 3 * nat w"
    using assms(1,2) unat_word_of_int [of "3 * w"] by (simp_all add: unat_word_of_int nat_mult_distrib)
  with assms show ?thesis
    by (simp add: image_ok_def nat_mult_distrib del: of_int_mult of_int_numeral)
qed

text \<open>What one turn of the loop adds: the image of the frame.\<close>

definition image_of :: "'w dec_ffmpeg \<Rightarrow> stamp \<Rightarrow> av_frame \<Rightarrow> image" where
  "image_of ff t frm =
     (let w = f_width frm; h = f_height frm; bytes = sws_scale ff (w, h, f_format frm) frm
      in \<lparr>i_width = word_of_int w, i_height = word_of_int h, i_encoding = BGR8, i_bigendian = False,
          i_step = word_of_int (3 * w),
          i_data = bytes @ replicate (nat (3 * w * h) - length bytes) 0, i_stamp = t\<rparr>)"

lemma wp_rescale:
  assumes "dec_inv s"
  shows "wp (rescale ff frm) (\<lambda>_ t. dec_inv t \<and> frames t = frames s \<and> d_initialized t = d_initialized s \<and>
      d_width t = f_width frm \<and> d_height t = f_height frm \<and> d_last_format t = f_format frm \<and>
      d_ctx t = d_ctx s) never s"
  using assms by (auto simp: rescale_def wp_rules Let_def dec_inv_def split: prod.splits)

lemma wp_convert_image:
  assumes inv: "dec_inv s" and size: "0 < f_width frm" "0 < f_height frm"
  shows "wp (convert_image ff t frm)
    (\<lambda>_ u. dec_inv u \<and> frames u = frames s @ [image_of ff t frm] \<and> d_ctx u = d_ctx s)
    (\<lambda>f u. dec_inv u \<and> frames u = frames s \<and> d_ctx u = d_ctx s) s"
  unfolding convert_image_def wp_thn [of "rescale ff frm"]
proof (rule wp_mono [OF wp_rescale [OF inv, of ff frm]])
  fix x u
  assume u: "dec_inv u \<and> frames u = frames s \<and> d_initialized u = d_initialized s \<and>
    d_width u = f_width frm \<and> d_height u = f_height frm \<and> d_last_format u = f_format frm \<and>
    d_ctx u = d_ctx s"
  let ?cv = "(f_width frm, f_height frm, f_format frm)" and ?n = "3 * f_width frm * f_height frm"
  have cv: "d_sws u = Some cv \<Longrightarrow> cv = ?cv" for cv using u by (auto simp: dec_inv_def)
  have inv': "dec_inv (u\<lparr>scaled := scaled u @ [(?cv, frm)]\<rparr>)"
    using u by (auto simp: dec_inv_def)
  show "wp (bnd (gets (\<lambda>s. (d_width s, d_height s))) (\<lambda>(w, h).
       if \<not> int_fits (3 * w) \<or> \<not> int_fits (3 * w * h) then fail IntOverflow
       else bnd (deref d_sws) (\<lambda>conversion.
         thn (upd (\<lambda>s. s\<lparr>scaled := scaled s @ [(conversion, frm)]\<rparr>))
        (bnd (lift_op (image_data (3 * w * h) (sws_scale ff conversion frm))) (\<lambda>bytes.
         upd (\<lambda>s. s\<lparr>frames := frames s @
           [\<lparr>i_width = word_of_int w, i_height = word_of_int h, i_encoding = BGR8,
             i_bigendian = False, i_step = word_of_int (3 * w), i_data = bytes, i_stamp = t\<rparr>]\<rparr>))))))
    (\<lambda>_ u. dec_inv u \<and> frames u = frames s @ [image_of ff t frm] \<and> d_ctx u = d_ctx s)
    (\<lambda>f u. dec_inv u \<and> frames u = frames s \<and> d_ctx u = d_ctx s) u"
  proof (cases "int_fits (3 * f_width frm) \<and> int_fits ?n \<and> d_sws u \<noteq> None")
    case False
    with u show ?thesis by (cases "d_sws u") (auto simp: wp_rules)
  next
    case True
    then have sws: "d_sws u = Some ?cv" using cv by blast
    show ?thesis
    proof (cases "image_data ?n (sws_scale ff ?cv frm)")
      case (Inl e)
      with True sws u inv' show ?thesis by (simp add: wp_rules)
    next
      case (Inr bytes)
      from image_data_Inr [OF Inr] have len: "length bytes = nat ?n"
        and bytes: "bytes = sws_scale ff ?cv frm @ replicate (nat ?n - length (sws_scale ff ?cv frm)) 0"
        by blast+
      have img: "image_of ff t frm = \<lparr>i_width = word_of_int (f_width frm),
          i_height = word_of_int (f_height frm), i_encoding = BGR8, i_bigendian = False,
          i_step = word_of_int (3 * f_width frm), i_data = bytes, i_stamp = t\<rparr>"
        by (simp add: image_of_def Let_def bytes [symmetric])
      have "image_ok (image_of ff t frm)"
        unfolding img by (rule image_ok_new) (use True size len in auto)
      then have fin: "dec_inv (u\<lparr>scaled := scaled u @ [(?cv, frm)], frames := frames u @ [image_of ff t frm]\<rparr>)"
        using inv' by (auto simp: dec_inv_def)
      show ?thesis
        using True sws u Inr fin unfolding img
        by (simp only: wp_bnd wp_gets wp_thn wp_upd wp_deref wp_lift_op prod.case if_False not_not
            option.case sum.case simp_thms) simp
    qed
  qed
qed simp

definition converted :: "'w dec_ffmpeg \<Rightarrow> stamp \<Rightarrow> 'w decoder \<Rightarrow> nat \<Rightarrow> fault + int \<times> nat \<Rightarrow> 'w decoder \<Rightarrow> bool" where
  "converted ff t s count r s' \<longleftrightarrow> dec_inv s' \<and> d_ctx s' = d_ctx s \<and>
     (\<exists>frms. frames s' = frames s @ map (image_of ff t) frms \<and>
       (\<forall>res n. r = Inr (res, n) \<longrightarrow> n = count + length frms))"

lemma converted_more:
  assumes "converted ff t u (count + 1) r s'" and "frames u = frames s @ [image_of ff t frm]"
    and "d_ctx u = d_ctx s"
  shows "converted ff t s count r s'"
proof -
  from assms(1) obtain frms where "frames s' = frames u @ map (image_of ff t) frms"
    "\<forall>res n. r = Inr (res, n) \<longrightarrow> n = count + 1 + length frms"
    by (auto simp: converted_def)
  with assms show ?thesis
    unfolding converted_def by (intro conjI exI [of _ "frm # frms"]) (auto simp: converted_def)
qed

lemma frame_loop_converts:
  assumes "frame_loop ff c t s count = Some res" and "dec_inv s" and "frames_sized ff"
  shows "converted ff t s count (fst res) (snd res)"
proof -
  have "dec_inv s \<longrightarrow> frames_sized ff \<longrightarrow> converted ff t s count (fst res) (snd res)"
    using assms(1)
  proof (rule frame_loop.raw_induct [rotated])
    fix loop :: "'w dec_ffmpeg \<Rightarrow> dec_ctx \<Rightarrow> stamp \<Rightarrow> 'w decoder \<Rightarrow> nat \<Rightarrow>
        ((fault + int \<times> nat) \<times> 'w decoder) option"
      and ff :: "'w dec_ffmpeg" and c t s count res
    assume IH: "\<And>ff c t s count res. loop ff c t s count = Some res \<Longrightarrow>
        dec_inv s \<longrightarrow> frames_sized ff \<longrightarrow> converted ff t s count (fst res) (snd res)"
      and res: "(case receive_frame ff c (d_world s) of
          (Inl result, w) \<Rightarrow> Some (Inr (result, count), s\<lparr>d_world := w\<rparr>)
        | (Inr frm, w) \<Rightarrow>
            (case convert_image ff t frm (s\<lparr>d_world := w\<rparr>) of
               (Inl e, s') \<Rightarrow> Some (Inl e, s')
             | (Inr _, s') \<Rightarrow> loop ff c t s' (count + 1))) = Some res"
    show "dec_inv s \<longrightarrow> frames_sized ff \<longrightarrow> converted ff t s count (fst res) (snd res)"
    proof (intro impI)
      assume inv: "dec_inv s" and sized: "frames_sized ff"
      obtain r w where r: "receive_frame ff c (d_world s) = (r, w)" by (rule prod.exhaust)
      let ?s = "s\<lparr>d_world := w\<rparr>"
      have inv': "dec_inv ?s" using inv by (simp add: dec_inv_def)
      show "converted ff t s count (fst res) (snd res)"
      proof (cases r)
        case (Inl a)
        with r res inv' show ?thesis by (auto simp: converted_def)
      next
        case (Inr frm)
        with r sized have size: "0 < f_width frm" "0 < f_height frm"
          by (auto simp: frames_sized_def) (metis fst_conv)+
        obtain x u where u: "convert_image ff t frm ?s = (x, u)" by (rule prod.exhaust)
        note conv = wp_convert_image [OF inv' size, of ff t]
        show ?thesis
        proof (cases x)
          case (Inl e)
          with u conv r Inr res show ?thesis
            by (auto simp: wp_def converted_def)
        next
          case x: (Inr y)
          with u conv have step: "dec_inv u" "frames u = frames s @ [image_of ff t frm]" "d_ctx u = d_ctx s"
            by (auto simp: wp_def)
          from r Inr res u x have "loop ff c t u (count + 1) = Some res" by simp
          from IH [OF this] step sized show ?thesis by (blast intro: converted_more)
        qed
      qed
    qed
  qed
  with assms show ?thesis by blast
qed

lemma wp_decodeVideo:
  assumes inv: "dec_inv s" and sized: "frames_sized ff"
  shows "wp (decodeVideo ff data)
    (\<lambda>n t. dec_inv t \<and> (\<exists>frms. frames t =
       (if d_initialized s then frames s else []) @ map (image_of ff (fstamp data)) frms \<and> n = length frms))
    (\<lambda>_. dec_inv) s" (is "wp _ ?Q ?E s")
proof -
  have rest: "wp (bnd (receive_frames ff (fstamp data)) (\<lambda>(result, count).
     thn (whenb (result \<noteq> d_eagain ff)
           (fail (Throw (DecodingError
             (''failed to receive frames from decoder: '' @ d_err_string ff result)))))
         (ret count))) ?Q ?E t"
    if t: "dec_inv t" "frames t = (if d_initialized s then frames s else [])" for t
  proof -
    obtain c where c: "d_ctx t = Some c" using t by (auto simp: dec_inv_def)
    have "wp (receive_frames ff (fstamp data))
      (\<lambda>(_, n) u. dec_inv u \<and> (\<exists>frms. frames u = frames t @ map (image_of ff (fstamp data)) frms \<and> n = length frms))
      ?E t"
    proof (cases "frame_loop ff c (fstamp data) t 0")
      case None
      with c t show ?thesis by (simp add: receive_frames_def wp_def bnd_def deref_def)
    next
      case (Some res)
      from frame_loop_converts [OF Some t(1) sized] Some c show ?thesis
        by (cases res) (auto simp: receive_frames_def wp_def bnd_def deref_def converted_def
            split: sum.splits)
    qed
    from wp_mono [OF this] t(2) show ?thesis
      by (auto simp: wp_bnd wp_thn wp_whenb wp_fail wp_ret elim!: wp_mono)
  qed
  obtain c where c: "d_ctx s = Some c" using inv by (auto simp: dec_inv_def)
  obtain r w where r: "send_packet ff c (fdata data, flength data) (d_world s) = (r, w)"
    by (rule prod.exhaust)
  have start: "dec_inv (s\<lparr>d_world := w\<rparr>)" "dec_inv (s\<lparr>frames := [], d_initialized := True, d_world := w\<rparr>)"
    using inv by (simp_all add: dec_inv_def)
  show ?thesis
    using c r start rest [of "s\<lparr>d_world := w\<rparr>"] rest [of "s\<lparr>frames := [], d_initialized := True, d_world := w\<rparr>"]
    by (simp add: decodeVideo_def wp_thn [of "bnd (gets d_initialized) _"] wp_bnd [of "gets d_initialized"]
        wp_bnd [of "deref d_ctx"] wp_bnd [of "d_call _"] wp_thn [of "whenb _ _"]
        wp_gets wp_whenb wp_upd wp_deref wp_d_call wp_fail)
qed

section \<open>Witness\<close>

text \<open>An FFmpeg with one decoder that makes one frame of every packet: as wide as the packet
  is long, one line high; every pixel gets the bytes 1, 2, 3.\<close>

definition soft_decoder :: "string \<Rightarrow> av_frame list dec_ffmpeg" where
  "soft_decoder name =
     \<lparr>d_eagain = -11, d_err_string = (\<lambda>_. ''error''),
      decoder_by_name = (\<lambda>n w. (if n = name then Some n else None, w)),
      d_alloc_context = (\<lambda>n w. (Some \<lparr>d_name = n, d_opts = [], d_log_level_offset = 0,
        d_chunks = False, d_error_concealment = 3, skip_frame = DISCARD_DEFAULT\<rparr>, w)),
      d_opt_set = (\<lambda>_ _ _ w. (0, w)), d_codec_open = (\<lambda>_ w. (0, w)),
      send_packet = (\<lambda>_ p _. (0, if 0 < snd p \<and> snd p < 100
        then [\<lparr>f_width = int (snd p), f_height = 1, f_format = PIX_YUV420P, f_planes = fst p\<rparr>] else [])),
      receive_frame = (\<lambda>_ w. case w of [] \<Rightarrow> (Inl (-11), []) | f # fs \<Rightarrow>
        if 0 < f_width f \<and> 0 < f_height f then (Inr f, fs) else (Inl (-1), fs)),
      d_sws_get = (\<lambda>_ w. (True, w)),
      sws_scale = (\<lambda>(w, h, _) _. concat (replicate (nat (w * h)) [1, 2, 3]))\<rparr>"

lemma soft_decoder_ok: "dec_names_ok (soft_decoder name)" "frames_sized (soft_decoder name)"
  by (auto simp: dec_names_ok_def frames_sized_def soft_decoder_def split: list.splits if_splits)

theorem StreamDecoder_result_witness:
  "case StreamDecoder (soft_decoder ''h264'') H264 False (blank_decoder H264 []) of
      (Inr _, t) \<Rightarrow> \<not> d_initialized t \<and> frames t = [] \<and>
        (\<exists>names n c. map_of FFMPEG_DECODERS H264 = Some names \<and> n \<in> set names \<and>
          (False \<or> CHR ''_'' \<notin> set n) \<and> d_ctx t = Some c \<and> d_name c = n)
    | (Inl f, t) \<Rightarrow> \<exists>msg. f = Throw (StreamingError msg)"
  by (rule StreamDecoder_result [OF soft_decoder_ok(1)])

theorem StreamDecoder_first_usable_witness:
  "case StreamDecoder (soft_decoder ''vp8'') VP8 True (blank_decoder VP8 []) of
      (Inr _, t) \<Rightarrow> d_chosen t = Some ''vp8''
    | (Inl _, _) \<Rightarrow> False"
proof -
  let ?names = "[''vp8_qsv'', ''vp8_cuvid'', ''vp8'']"
  have st: "steady_decoders (soft_decoder ''vp8'') (\<lambda>n. n = ''vp8'') (\<lambda>_. True)"
    by (simp add: steady_decoders_def soft_decoder_def)
  have names: "map_of FFMPEG_DECODERS VP8 = Some ?names"
    by (simp add: FFMPEG_DECODERS_def)
  have "List.find (\<lambda>n. n = ''vp8'' \<and> True) (admissible True ?names) = Some ''vp8''"
    by (simp add: admissible_def)
  moreover from this have "''vp8'' \<in> set (admissible True ?names)" by (simp add: admissible_def)
  ultimately show ?thesis
    using StreamDecoder_first_usable [OF st names, of True "[]"]
    by (auto split: prod.splits sum.splits)
qed

end
