(* ===== verification/Decoder_Run.thy ===== *)
theory Decoder_Run
  imports Stream_Decoder
begin

text \<open>
  What a constructed decoder does over its whole life: the client calls
  \<^verbatim>\<open>decodeVideo\<close>, \<^verbatim>\<open>nextFrame\<close> and \<^verbatim>\<open>setDecodeFrames\<close> in any order, and decoding may
  fail at any time. As in the theory on runs of the encoder, the last section says what
  comes out when FFmpeg does its work.
\<close>

section \<open>The client of a decoder\<close>

datatype dec_call = Decode frame_data | TakeImage | Restrict decode_frames

fun dec_step :: "'w dec_ffmpeg \<Rightarrow> 'w decoder \<Rightarrow> dec_call \<Rightarrow> 'w decoder" where
  "dec_step ff s (Decode data) = snd (decodeVideo ff data s)"
| "dec_step ff s TakeImage = snd (nextFrame s)"
| "dec_step ff s (Restrict which) = snd (setDecodeFrames which s)"

definition dec_sys_inv :: "'w dec_ffmpeg \<Rightarrow> 'w decoder \<Rightarrow> bool" where
  "dec_sys_inv ff s \<longleftrightarrow> frames_sized ff \<and> dec_inv s"

lemma wp_setDecodeFrames:
  "dec_inv s \<Longrightarrow> wp (setDecodeFrames which) (\<lambda>_ t. dec_inv t \<and> frames t = frames s) never s"
  by (auto simp: setDecodeFrames_def wp_upd_dctx dec_inv_def)

interpretation decoder_client: stepper "dec_step ff" "dec_sys_inv ff"
  for ff
proof
  fix s call
  assume "dec_sys_inv ff s"
  then have sized: "frames_sized ff" and inv: "dec_inv s" by (simp_all add: dec_sys_inv_def)
  show "dec_sys_inv ff (dec_step ff s call)"
  proof (cases call)
    case (Decode data)
    have "wp (decodeVideo ff data) (\<lambda>_. dec_inv) (\<lambda>_. dec_inv) s"
      by (rule wp_mono [OF wp_decodeVideo [OF inv sized]]) auto
    from wp_state [OF this] Decode sized show ?thesis by (simp add: dec_sys_inv_def)
  next
    case TakeImage
    with inv sized show ?thesis
      by (cases "frames s") (auto simp: nextFrame_def dec_inv_def dec_sys_inv_def)
  next
    case (Restrict which)
    have "wp (setDecodeFrames which) (\<lambda>_. dec_inv) (\<lambda>_. dec_inv) s"
      by (rule wp_mono [OF wp_setDecodeFrames [OF inv]]) auto
    from wp_state [OF this] Restrict sized show ?thesis by (simp add: dec_sys_inv_def)
  qed
qed

definition reachable_decoder :: "'w dec_ffmpeg \<Rightarrow> 'w decoder \<Rightarrow> bool" where
  "reachable_decoder ff s \<longleftrightarrow> dec_names_ok ff \<and> frames_sized ff \<and>
     (\<exists>codec use_hw w s0 calls.
        StreamDecoder ff codec use_hw (blank_decoder codec w) = (Inr (), s0) \<and>
        s = foldl (dec_step ff) s0 calls)"

lemma reachable_dec_inv: "reachable_decoder ff s \<Longrightarrow> frames_sized ff \<and> dec_inv s"
proof -
  assume "reachable_decoder ff s"
  then obtain codec use_hw w s0 calls where ok: "dec_names_ok ff" and sized: "frames_sized ff"
    and s0: "StreamDecoder ff codec use_hw (blank_decoder codec w) = (Inr (), s0)"
    and s: "s = foldl (dec_step ff) s0 calls"
    by (auto simp: reachable_decoder_def)
  from wp_result [OF wp_StreamDecoder [OF ok] s0] have "d_unused codec s0" "d_ctx s0 \<noteq> None"
    by (auto simp: d_chosen_def)
  then have scaled: "d_sws s0 = None \<and> frames s0 = [] \<and> scaled s0 = []" "d_ctx s0 \<noteq> None"
    by (simp_all add: d_unused_def)
  then have "dec_sys_inv ff s0" using sized by (simp add: dec_sys_inv_def dec_inv_def)
  from decoder_client.run_inv [OF this, of calls] show ?thesis by (simp add: s dec_sys_inv_def)
qed

section \<open>The images\<close>

text \<open>
  C37: decoded images are well formed. Whatever FFmpeg decodes, however often the size of
  the video changes, every image that waits for \<open>nextFrame\<close> is a BGR image whose lines are
  three bytes per pixel apart and whose data are exactly as many lines as it is high. (The
  sizes are those of the message, 32 bits wide: a frame for which they would wrap around is
  never turned into an image.)
\<close>

theorem decoder_images_ok:
  assumes "reachable_decoder ff s" and "img \<in> set (frames s)"
  shows "i_encoding img = BGR8 \<and> unat (i_step img) = 3 * unat (i_width img) \<and>
    length (i_data img) = unat (i_step img) * unat (i_height img)"
  using reachable_dec_inv [OF assms(1)] assms(2) by (auto simp: dec_inv_def image_ok_def)

text \<open>
  The scaling context always fits. Every frame that was ever converted was converted
  with a scaling context made for exactly its size and pixel format, also when these change
  in the middle of the stream and when creating a context failed before.
\<close>

theorem decoder_scaling_fits:
  assumes "reachable_decoder ff s" and "(cv, frm) \<in> set (scaled s)"
  shows "cv = (f_width frm, f_height frm, f_format frm)"
  using reachable_dec_inv [OF assms(1)] assms(2) by (auto simp: dec_inv_def)

text \<open>
  What a call returns. When \<open>decodeVideo\<close> returns a count, exactly that many images
  were appended to the queue (which the first call empties), all of them with the time
  stamp of the packet.
\<close>

theorem decodeVideo_counts:
  assumes "reachable_decoder ff s" and "decodeVideo ff data s = (Inr n, t)"
  shows "\<exists>imgs. frames t = (if d_initialized s then frames s else []) @ imgs \<and> n = length imgs \<and>
    (\<forall>img \<in> set imgs. i_stamp img = fstamp data \<and> i_encoding img = BGR8)"
proof -
  from reachable_dec_inv [OF assms(1)] have "frames_sized ff" "dec_inv s" by simp_all
  from wp_result [OF wp_decodeVideo [OF this(2,1)] assms(2)] obtain frms where
    "frames t = (if d_initialized s then frames s else []) @ map (image_of ff (fstamp data)) frms"
    "n = length frms" by blast
  then show ?thesis
    by (intro exI [of _ "map (image_of ff (fstamp data)) frms"]) (auto simp: image_of_def Let_def)
qed

section \<open>The receiving loop\<close>

text \<open>
  FFmpeg gives finitely many frames for what it was given: something in its world decreases
  with every frame, and scaling images does not increase it.
\<close>

definition exhausting :: "'w dec_ffmpeg \<Rightarrow> bool" where
  "exhausting ff \<longleftrightarrow> (\<exists>left :: 'w \<Rightarrow> nat.
     (\<forall>c w frm w'. receive_frame ff c w = (Inr frm, w') \<longrightarrow> left w' < left w) \<and>
     (\<forall>cv w. left (snd (d_sws_get ff cv w)) \<le> left w))"

abbreviation returns :: "fault \<Rightarrow> 's \<Rightarrow> bool" where
  "returns \<equiv> \<lambda>e _. e \<noteq> Diverges"

lemma convert_image_returns:
  assumes "\<forall>cv w. left (snd (d_sws_get ff cv w)) \<le> left w"
  shows "wp (convert_image ff t frm) (\<lambda>_ u. left (d_world u) \<le> (left (d_world s) :: nat)) returns s"
proof -
  have less: "left w' \<le> left w" if "d_sws_get ff cv w = (ok, w')" for cv w ok w'
    using assms [rule_format, of cv w] that by simp
  have image: "image_data n bs \<noteq> Inl Diverges" for n bs
    by (simp add: image_data_def)
  have "wp (rescale ff frm) (\<lambda>_ u. left (d_world u) \<le> left (d_world s)) returns s"
    using less by (auto simp: rescale_def wp_bnd wp_gets wp_whenb wp_d_call wp_upd Let_def split: prod.split)
  then show ?thesis
    unfolding convert_image_def wp_thn [of "rescale ff frm"]
    by (rule wp_mono) (auto simp: wp_rules image split: option.split sum.split)
qed

lemma frame_loop_returns:
  assumes frames: "\<forall>c w frm w'. receive_frame ff c w = (Inr frm, w') \<longrightarrow> left w' < (left w :: nat)"
    and sws: "\<forall>cv w. left (snd (d_sws_get ff cv w)) \<le> left w"
  shows "\<exists>r u. frame_loop ff c t s n = Some (r, u) \<and> r \<noteq> Inl Diverges"
proof (induction "left (d_world s)" arbitrary: s n rule: less_induct)
  case less
  obtain x w where x: "receive_frame ff c (d_world s) = (x, w)" by (rule prod.exhaust)
  show ?case
  proof (cases x)
    case (Inl result)
    with x show ?thesis by (simp add: frame_loop.simps)
  next
    case (Inr frm)
    obtain r u where r: "convert_image ff t frm (s\<lparr>d_world := w\<rparr>) = (r, u)" by (rule prod.exhaust)
    have w: "left w < left (d_world s)" using frames x Inr by blast
    with convert_image_returns [OF sws, of t frm "s\<lparr>d_world := w\<rparr>"] r
    have "case r of Inl e \<Rightarrow> e \<noteq> Diverges | Inr _ \<Rightarrow> left (d_world u) < left (d_world s)"
      by (auto simp: wp_def split: sum.splits)
    with less [of u "n + 1"] x Inr r show ?thesis by (cases r) (simp_all add: frame_loop.simps [of ff c t s])
  qed
qed

lemma decodeVideo_returns:
  assumes "exhausting ff"
  shows "wp (decodeVideo ff data) (\<lambda>_ _. True) returns s"
proof -
  obtain left :: "'a \<Rightarrow> nat" where left:
    "\<forall>c w frm w'. receive_frame ff c w = (Inr frm, w') \<longrightarrow> left w' < left w"
    "\<forall>cv w. left (snd (d_sws_get ff cv w)) \<le> left w"
    using assms by (auto simp: exhausting_def)
  have "wp (receive_frames ff t) (\<lambda>_ _. True) returns u" for t u
  proof -
    have "wp (\<lambda>s. case frame_loop ff c t s 0 of None \<Rightarrow> (Inl Diverges, s) | Some (r, s') \<Rightarrow> (r, s'))
        (\<lambda>_ _. True) returns v" for c v
      using frame_loop_returns [OF left, of c t v 0] by (auto simp: wp_def split: sum.split)
    then show ?thesis by (simp add: receive_frames_def wp_bnd wp_deref split: option.split)
  qed
  then have loop: "wp (receive_frames ff t) Q returns u" if "\<And>a v. Q a v" for t u Q
    by (rule wp_mono) (use that in auto)
  have rest: "wp (bnd (receive_frames ff (fstamp data)) (\<lambda>(result, count).
      thn (whenb (P result) (fail (Throw (E result)))) (ret count))) (\<lambda>_ _. True) returns u" for P E u
    unfolding wp_bnd [of "receive_frames _ _"]
    by (rule loop) (simp add: wp_thn wp_whenb wp_fail wp_ret split: prod.split)
  show ?thesis
    unfolding decodeVideo_def wp_thn wp_bnd [of "gets _"] wp_bnd [of "deref _"] wp_bnd [of "d_call _"]
      wp_gets wp_deref wp_d_call wp_whenb wp_upd wp_fail
    by (simp add: rest split: option.split prod.split)
qed

section \<open>Delivery\<close>

text \<open>
  \<open>hands_frames ff c w fs r w'\<close>: asked again and again from the world \<open>w\<close> on, FFmpeg gives the
  frames \<open>fs\<close> and then the result \<open>r\<close>, which for a decoder that needs more input is \<^verbatim>\<open>AVERROR(EAGAIN)\<close>.
\<close>

primrec hands_frames :: "'w dec_ffmpeg \<Rightarrow> dec_ctx \<Rightarrow> 'w \<Rightarrow> av_frame list \<Rightarrow> int \<Rightarrow> 'w \<Rightarrow> bool" where
  "hands_frames ff c w [] r w' \<longleftrightarrow> receive_frame ff c w = (Inl r, w')"
| "hands_frames ff c w (p # ps) r w' \<longleftrightarrow>
     (\<exists>v. receive_frame ff c w = (Inr p, v) \<and> hands_frames ff c v ps r w')"

lemma hands_sized:
  "hands_frames ff c w ps r w' \<Longrightarrow> frames_sized ff \<Longrightarrow> frm \<in> set ps \<Longrightarrow> 0 < f_width frm \<and> 0 < f_height frm"
proof (induction ps arbitrary: w)
  case (Cons p ps)
  then obtain v where "receive_frame ff c w = (Inr p, v)" "hands_frames ff c v ps r w'" by auto
  moreover from this(1) Cons.prems(2) have "0 < f_width p \<and> 0 < f_height p"
    unfolding frames_sized_def by (metis fst_conv)
  ultimately show ?case using Cons by auto
qed simp

definition frame_fits :: "'w dec_ffmpeg \<Rightarrow> av_frame \<Rightarrow> bool" where
  "frame_fits ff frm \<longleftrightarrow> int_fits (3 * f_width frm) \<and> int_fits (3 * f_width frm * f_height frm) \<and>
     length (sws_scale ff (f_width frm, f_height frm, f_format frm) frm)
       \<le> nat (3 * f_width frm * f_height frm)"

text \<open>Scaling contexts can be made; that belongs to another library and does not influence the decoder.\<close>

definition scalers_at_hand :: "'w dec_ffmpeg \<Rightarrow> bool" where
  "scalers_at_hand ff \<longleftrightarrow> (\<forall>cv w. d_sws_get ff cv w = (True, w))"

lemma convert_image_total:
  assumes inv: "dec_inv s" and sws: "scalers_at_hand ff"
    and size: "0 < f_width frm" "0 < f_height frm" and fits: "frame_fits ff frm"
  shows "\<exists>u. convert_image ff t frm s = (Inr (), u) \<and> dec_inv u \<and> d_ctx u = d_ctx s \<and>
    d_world u = d_world s \<and> frames u = frames s @ [image_of ff t frm]"
proof -
  let ?cv = "(f_width frm, f_height frm, f_format frm)"
  have get: "d_sws_get ff cv w = (True, w)" for cv w
    using sws unfolding scalers_at_hand_def by blast
  have "wp (rescale ff frm) (\<lambda>_ u. d_sws u = Some ?cv \<and> d_width u = f_width frm \<and>
      d_height u = f_height frm \<and> d_world u = d_world s) never s"
    using inv by (auto simp: rescale_def wp_rules Let_def get dec_inv_def)
  then obtain u where u: "rescale ff frm s = (Inr (), u)" "d_sws u = Some ?cv"
    "d_width u = f_width frm" "d_height u = f_height frm" "d_world u = d_world s"
    by (auto simp: wp_def split: prod.splits sum.splits)
  obtain r v where r: "convert_image ff t frm s = (r, v)" by (rule prod.exhaust)
  with u fits size have "r = Inr () \<and> d_world v = d_world s"
    by (auto simp: convert_image_def thn_def bnd_def gets_def deref_def upd_def lift_op_def fail_def
        frame_fits_def image_data_def mult_less_0_iff split: if_splits)
  with r wp_convert_image [OF inv size, of ff t] show ?thesis by (auto simp: wp_def)
qed

lemma frame_loop_delivers:
  assumes "hands_frames ff c w ps r w'" and "d_world s = w" and "dec_inv s"
    and "\<forall>frm \<in> set ps. 0 < f_width frm \<and> 0 < f_height frm \<and> frame_fits ff frm"
    and sws: "scalers_at_hand ff"
  shows "\<exists>u. frame_loop ff c t s count = Some (Inr (r, count + length ps), u) \<and> d_world u = w' \<and>
    frames u = frames s @ map (image_of ff t) ps"
  using assms(1-4)
proof (induction ps arbitrary: w s count)
  case Nil
  then show ?case by (simp add: frame_loop.simps)
next
  case (Cons p ps)
  then obtain v where v: "receive_frame ff c w = (Inr p, v)" "hands_frames ff c v ps r w'" by auto
  let ?s = "s\<lparr>d_world := v\<rparr>"
  have "dec_inv ?s" using Cons.prems(3) by (simp add: dec_inv_def)
  from convert_image_total [OF this sws, of p t] Cons.prems(4) obtain u where
    u: "convert_image ff t p ?s = (Inr (), u)" "dec_inv u" "d_world u = v"
      "frames u = frames s @ [image_of ff t p]" by auto
  with v(1) Cons.prems(2) have "frame_loop ff c t s count = frame_loop ff c t u (count + 1)"
    by (subst frame_loop.simps) simp
  with Cons.IH [OF v(2) u(3,2), of "count + 1"] Cons.prems(4) u(4) show ?case by auto
qed

text \<open>
  C36: what goes in comes out. Let FFmpeg, in the state in which it happens to be, accept the packet
  given to a decoder, and then, asked again and again, give some frames (none, for example, while
  it waits for the rest of a picture) and at last a result that is no frame. Then the
  receiving loop ends, and the queue grows by exactly the images of these frames, in order, with
  the packet's time stamp. If the last result is that FFmpeg needs more input, their number is
  returned; otherwise \<^verbatim>\<open>DecodingError\<close> is thrown, and the images stay in the queue. (The
  conditions: scaling contexts can be made; three bytes for each pixel of a frame are counted by an \<^verbatim>\<open>int\<close> without
  overflow; and \<^verbatim>\<open>sws_scale\<close> writes no more than these bytes.)
\<close>

theorem decodeVideo_delivers:
  assumes reach: "reachable_decoder ff s" and c: "d_ctx s = Some c" and sws: "scalers_at_hand ff"
    and sent: "send_packet ff c (fdata data, flength data) (d_world s) = (0, v)"
    and handed: "hands_frames ff c v fs r v'" and ok: "\<forall>frm \<in> set fs. frame_fits ff frm"
  shows "\<exists>t. decodeVideo ff data s = (if r = d_eagain ff then Inr (length fs)
      else Inl (Throw (DecodingError (''failed to receive frames from decoder: '' @ d_err_string ff r))), t) \<and>
    d_world t = v' \<and>
    frames t = (if d_initialized s then frames s else []) @ map (image_of ff (fstamp data)) fs"
proof -
  let ?s = "s\<lparr>frames := if d_initialized s then frames s else [], d_initialized := True, d_world := v\<rparr>"
  have "frames_sized ff" and "dec_inv s" using reachable_dec_inv [OF reach] by simp_all
  then have inv: "dec_inv ?s" and fits: "\<forall>frm \<in> set fs. 0 < f_width frm \<and> 0 < f_height frm \<and> frame_fits ff frm"
    using hands_sized [OF handed] ok by (auto simp: dec_inv_def)
  have "d_world ?s = v" by simp
  from frame_loop_delivers [OF handed this inv fits sws, of "fstamp data" 0] obtain u where
    u: "frame_loop ff c (fstamp data) ?s 0 = Some (Inr (r, length fs), u)" "d_world u = v'"
      "frames u = frames ?s @ map (image_of ff (fstamp data)) fs" by auto
  have "?s = (if d_initialized s then s\<lparr>d_world := v\<rparr>
      else s\<lparr>frames := [], d_initialized := True, d_world := v\<rparr>)"
    by simp
  with u sent c show ?thesis
    by (simp add: decodeVideo_def receive_frames_def d_call_def op_defs split: if_splits)
qed

section \<open>Witnesses\<close>

definition dec_soft_run :: "av_frame list decoder" where
  "dec_soft_run = foldl (dec_step (soft_decoder ''h264''))
     (snd (StreamDecoder (soft_decoder ''h264'') H264 False (blank_decoder H264 [])))
     [Decode (mk_frame 2 [9, 9] 5), Decode (mk_frame 2 [7] 6)]"

lemma dec_soft_constructed:
  "\<exists>s. StreamDecoder (soft_decoder ''h264'') H264 False (blank_decoder H264 []) = (Inr (), s)"
proof -
  have "fst (StreamDecoder (soft_decoder ''h264'') H264 False (blank_decoder H264 [])) = Inr ()"
    by code_simp
  then show ?thesis by (metis prod.collapse)
qed

lemma dec_soft_reachable: "reachable_decoder (soft_decoder ''h264'') dec_soft_run"
  using soft_decoder_ok dec_soft_constructed unfolding reachable_decoder_def dec_soft_run_def
  by (metis snd_conv)

theorem decoder_images_ok_witness:
  "length (frames dec_soft_run) = 2 \<and>
    (let img = hd (frames dec_soft_run) in
      i_encoding img = BGR8 \<and> unat (i_step img) = 3 * unat (i_width img) \<and>
      length (i_data img) = unat (i_step img) * unat (i_height img))"
proof -
  have n: "length (frames dec_soft_run) = 2" by code_simp
  then have "hd (frames dec_soft_run) \<in> set (frames dec_soft_run)" by (auto simp: numeral_eq_Suc length_Suc_conv)
  from decoder_images_ok [OF dec_soft_reachable this] n show ?thesis by (simp add: Let_def)
qed

theorem decoder_scaling_fits_witness:
  "\<exists>frm. hd (scaled dec_soft_run) = ((f_width frm, f_height frm, f_format frm), frm)"
proof -
  have "scaled dec_soft_run \<noteq> []" by code_simp
  then have "hd (scaled dec_soft_run) \<in> set (scaled dec_soft_run)" by simp
  then show ?thesis
    using decoder_scaling_fits [OF dec_soft_reachable] by (metis prod.collapse)
qed

theorem decodeVideo_counts_witness:
  "\<exists>t imgs. decodeVideo (soft_decoder ''h264'') (mk_frame 2 [1, 2, 3] 9) dec_soft_run = (Inr 1, t) \<and>
    frames t = frames dec_soft_run @ imgs \<and> 1 = length imgs \<and>
    (\<forall>img \<in> set imgs. i_stamp img = 9 \<and> i_encoding img = BGR8)"
proof -
  let ?r = "decodeVideo (soft_decoder ''h264'') (mk_frame 2 [1, 2, 3] 9) dec_soft_run"
  have r: "fst ?r = Inr 1" and ini: "d_initialized dec_soft_run" by code_simp+
  from r have eq: "?r = (Inr 1, snd ?r)" by (metis prod.collapse)
  from decodeVideo_counts [OF dec_soft_reachable eq] ini obtain imgs where
    "frames (snd ?r) = frames dec_soft_run @ imgs \<and> 1 = length imgs \<and>
      (\<forall>img \<in> set imgs. i_stamp img = 9 \<and> i_encoding img = BGR8)"
    by auto
  with eq show ?thesis by blast
qed

theorem decodeVideo_delivers_witness:
  "\<exists>t. decodeVideo (soft_decoder ''h264'') (mk_frame 2 [1] 9) dec_soft_run = (Inr 1, t) \<and>
    frames t = frames dec_soft_run @ [\<lparr>i_width = 1, i_height = 1, i_encoding = BGR8,
      i_bigendian = False, i_step = 3, i_data = [1, 2, 3], i_stamp = 9\<rparr>]"
proof -
  let ?ff = "soft_decoder ''h264''" and ?data = "mk_frame 2 [1] 9"
  let ?frm = "\<lparr>f_width = 1, f_height = 1, f_format = PIX_YUV420P, f_planes = [1, 0, 0]\<rparr>"
  let ?c = "the (d_ctx dec_soft_run)"
  have run: "d_ctx dec_soft_run = Some ?c" "d_initialized dec_soft_run" by code_simp+
  have sws: "scalers_at_hand ?ff" by (simp add: scalers_at_hand_def soft_decoder_def)
  have sent: "send_packet ?ff ?c (fdata ?data, flength ?data) (d_world dec_soft_run) = (0, [?frm])"
    by (simp add: soft_decoder_def mk_frame_def numeral_eq_Suc)
  have handed: "hands_frames ?ff ?c [?frm] [?frm] (d_eagain ?ff) []" by (simp add: soft_decoder_def)
  have fits: "\<forall>frm \<in> set [?frm]. frame_fits ?ff frm"
    by (simp add: frame_fits_def soft_decoder_def int_fits_def)
  have img: "image_of ?ff 9 ?frm = \<lparr>i_width = 1, i_height = 1, i_encoding = BGR8,
      i_bigendian = False, i_step = 3, i_data = [1, 2, 3], i_stamp = 9\<rparr>"
    by (simp add: image_of_def soft_decoder_def)
  from decodeVideo_delivers [OF dec_soft_reachable run(1) sws sent handed fits] run(2) img
  show ?thesis by auto
qed

end
