(* ===== verification/Stream_Server.thy ===== *)
theory Stream_Server
  imports Frame_Injector Video_Codec
begin

text \<open>
  The RTSP server (\<^verbatim>\<open>src/src/stream_server.h\<close>, \<^verbatim>\<open>src/src/stream_server.cpp\<close>): it
  owns at most one media session, and keeps for every media source that live555 plays a
  \<open>FrameInjector\<close>, into which the publisher's frames go.

  Objects of live555 are known by their addresses (natural numbers, never used twice, none
  of them the null pointer); the injectors live in a store. What the build system decides is
  the record \<open>build\<close>. Results of the operating system and of live555 are arguments.
\<close>

section \<open>What live555 supports\<close>

record build =
  has_h265 :: bool
  has_vpx :: bool
  has_av1 :: bool

definition isSupported :: "build \<Rightarrow> video_codec \<Rightarrow> bool" where
  "isSupported b codec =
     (case codec of
        H264 \<Rightarrow> True
      | H265 \<Rightarrow> has_h265 b
      | MPEG4 \<Rightarrow> True
      | VP8 \<Rightarrow> has_vpx b
      | VP9 \<Rightarrow> has_vpx b
      | AV1 \<Rightarrow> has_av1 b
      | _ \<Rightarrow> False)"

datatype sink_class = H264Sink | H265Sink | MPEG4ESSink | VP8Sink | VP9Sink | AV1Sink

record rtp_sink =
  sink_class :: sink_class
  k_preferred :: "32 word"
  k_max :: "32 word"

definition createVideoRTPSink :: "build \<Rightarrow> video_codec \<Rightarrow> sink_class option" where
  "createVideoRTPSink b codec =
     (case codec of
        H264 \<Rightarrow> Some H264Sink
      | H265 \<Rightarrow> if has_h265 b then Some H265Sink else None
      | MPEG4 \<Rightarrow> Some MPEG4ESSink
      | VP8 \<Rightarrow> if has_vpx b then Some VP8Sink else None
      | VP9 \<Rightarrow> if has_vpx b then Some VP9Sink else None
      | AV1 \<Rightarrow> if has_av1 b then Some AV1Sink else None
      | _ \<Rightarrow> None)"

text \<open>A framer is a source of its own that reads from the injector, or the injector itself.\<close>

datatype framer = H264Framer | H265Framer | MPEG4Framer | Direct

definition createDiscreteFramer :: "build \<Rightarrow> video_codec \<Rightarrow> framer option" where
  "createDiscreteFramer b codec =
     (case codec of
        H264 \<Rightarrow> Some H264Framer
      | H265 \<Rightarrow> if has_h265 b then Some H265Framer else None
      | MPEG4 \<Rightarrow> Some MPEG4Framer
      | VP8 \<Rightarrow> Some Direct
      | VP9 \<Rightarrow> Some Direct
      | AV1 \<Rightarrow> Some Direct
      | _ \<Rightarrow> None)"

lemma supported_creates:
  "isSupported b c \<longleftrightarrow> createVideoRTPSink b c \<noteq> None"
  "isSupported b c \<Longrightarrow> createDiscreteFramer b c \<noteq> None"
  by (cases c; simp add: isSupported_def createVideoRTPSink_def createDiscreteFramer_def)+

section \<open>Ports\<close>

text \<open>The argument is the address in network byte order.\<close>

definition sockToPort :: "(32 word \<Rightarrow> 32 word) \<Rightarrow> 32 word \<Rightarrow> 16 word" where
  "sockToPort ntohl addr = ucast (16384 + and (ntohl addr) 0x7ffe)"

definition initial_port :: "nat \<Rightarrow> 16 word" where
  "initial_port random = of_nat (49152 + 2 * (random mod 8192))"

section \<open>The class\<close>

datatype session_kind = MulticastSession | UnicastSession "16 word"

record server =
  s_codec :: video_codec
  udp_packet_size :: "32 word"
  s_url :: string
  streams :: "(nat \<times> nat) list"
  sms :: "(nat \<times> session_kind) option"
  rtp_sink :: "rtp_sink option"
  mcast_ports :: "(16 word \<times> 16 word) option"
  sessions :: "(nat \<times> session_kind) list"
  injectors :: "nat \<Rightarrow> injector"
  next_addr :: nat

definition preferredPacketSize :: "server \<Rightarrow> 32 word" where
  "preferredPacketSize s = (if udp_packet_size s < 982 then udp_packet_size s else 982)"

definition maxPacketSize :: "server \<Rightarrow> 32 word" where
  "maxPacketSize s = udp_packet_size s"

definition hasActiveStreams :: "server \<Rightarrow> bool" where
  "hasActiveStreams s = (streams s \<noteq> [])"

text \<open>\<^verbatim>\<open>StreamServer::create\<close>; \<open>bound\<close> tells whether live555 could open the port.\<close>

definition create_server :: "bool \<Rightarrow> (nat \<Rightarrow> string) \<Rightarrow> nat \<Rightarrow> 32 word \<Rightarrow> fault + server" where
  "create_server bound port_text udp_port packet_size =
     (if \<not> bound
      then Inl (Throw (StreamingError
             (if udp_port = 0 then ''cannot create RTSP server''
              else ''cannot create RTSP server on port '' @ port_text udp_port)))
      else Inr \<lparr>s_codec = Unknown, udp_packet_size = packet_size, s_url = [], streams = [],
             sms = None, rtp_sink = None, mcast_ports = None, sessions = [],
             injectors = (\<lambda>_. new_injector), next_addr = 1\<rparr>)"

section \<open>Frames and sources\<close>

definition on_injector :: "nat \<Rightarrow> (injector \<Rightarrow> injector) \<Rightarrow> server \<Rightarrow> server" where
  "on_injector p f s = s\<lparr>injectors := (injectors s)(p := f (injectors s p))\<rparr>"

definition sendFrame :: "frame_data \<Rightarrow> server \<Rightarrow> server" where
  "sendFrame frame s = fold (\<lambda>(source, p). on_injector p (injectFrame frame)) (streams s) s"

text \<open>\<^verbatim>\<open>FrameInjector::createNew\<close>, and the framer in front of it: the addresses of the new
  injector and of the source that plays.\<close>

definition new_source :: "framer \<Rightarrow> server \<Rightarrow> (nat \<times> nat) \<times> server" where
  "new_source framer s =
     (let p = next_addr s; s1 = s\<lparr>injectors := (injectors s)(p := new_injector), next_addr := p + 1\<rparr>
      in if framer = Direct then ((p, p), s1) else ((p + 1, p), s1\<lparr>next_addr := p + 2\<rparr>))"

definition newStreamSource :: "nat \<Rightarrow> nat \<Rightarrow> server \<Rightarrow> server" where
  "newStreamSource source injector s =
     (if map_of (streams s) source = None
      then s\<lparr>streams := streams s @ [(source, injector)]\<rparr> else s)"

definition closeStreamSource :: "nat \<Rightarrow> server \<Rightarrow> server" where
  "closeStreamSource source s =
     (let s1 = (case map_of (streams s) source of
                  None \<Rightarrow> s
                | Some p \<Rightarrow> (on_injector p inj_shutdown s)
                    \<lparr>streams := filter (\<lambda>(src, _). src \<noteq> source) (streams s)\<rparr>)
      in if streams s1 = [] then s1\<lparr>rtp_sink := None\<rparr> else s1)"

section \<open>Start and stop\<close>

definition stop :: "server \<Rightarrow> server" where
  "stop s =
     (let old_sms = sms s;
          s1 = s\<lparr>sms := None, rtp_sink := None\<rparr>;
          s2 = fold (\<lambda>(source, p). on_injector p inj_shutdown) (streams s1) s1;
          s3 = s2\<lparr>streams := [], s_url := []\<rparr>
      in case old_sms of
           None \<Rightarrow> s3
         | Some old \<Rightarrow> s3\<lparr>sessions := removeAll old (sessions s3)\<rparr>)"

definition sized_sink :: "server \<Rightarrow> sink_class \<Rightarrow> rtp_sink" where
  "sized_sink s k = \<lparr>sink_class = k, k_preferred = preferredPacketSize s, k_max = maxPacketSize s\<rparr>"

definition add_session :: "session_kind \<Rightarrow> server \<Rightarrow> server" where
  "add_session kind s =
     (let p = next_addr s
      in s\<lparr>sms := Some (p, kind), sessions := sessions s @ [(p, kind)], next_addr := p + 1\<rparr>)"

text \<open>What \<^verbatim>\<open>start\<close> gets from its surroundings: a random multicast address, whether the host
  has a name, a random number, and the URL that live555 makes for the session.\<close>

record surroundings =
  to_host_order :: "32 word \<Rightarrow> 32 word"
  ssm_address :: "32 word"
  hostname_ok :: bool
  random_number :: nat
  rtsp_url :: string

definition open_groupsocks :: "surroundings \<Rightarrow> server \<Rightarrow> server" where
  "open_groupsocks e s =
     (if mcast_ports s = None
      then let port = sockToPort (to_host_order e) (ssm_address e)
           in s\<lparr>mcast_ports := Some (port, port + 1)\<rparr>
      else s)"

definition alloc_source :: "framer \<Rightarrow> (server, nat \<times> nat) op" where
  "alloc_source framer = (\<lambda>s. case new_source framer s of (ps, s') \<Rightarrow> (Inr ps, s'))"

lemma wp_alloc_source:
  "wp (alloc_source framer) Q E s = (case new_source framer s of (ps, s') \<Rightarrow> Q ps s')"
  by (simp add: wp_def alloc_source_def split: prod.splits)

definition start_multicast :: "build \<Rightarrow> surroundings \<Rightarrow> (server, unit) op" where
  "start_multicast b e =
     thn (upd (open_groupsocks e))
    (bnd (gets (\<lambda>s. createVideoRTPSink b (s_codec s))) (\<lambda>k.
     thn (upd (\<lambda>s. s\<lparr>rtp_sink := map_option (sized_sink s) k\<rparr>))
    (thn (bnd (gets s_codec) (\<lambda>codec. whenb (k = None)
            (fail (Throw (StreamingError (''cannot instantiate VideoRTPSink for '' @ videoCodecName codec))))))
    (thn (whenb (\<not> hostname_ok e)
            (fail (Throw (StreamingError ''missing or invalid hostname on this system''))))
    (thn (upd (add_session MulticastSession))
    (bnd (gets s_codec) (\<lambda>codec.
       case createDiscreteFramer b codec of
         None \<Rightarrow> fail (Throw (StreamingError (''cannot instantiate FramedSource for '' @ videoCodecName codec)))
       | Some framer \<Rightarrow>
           bnd (alloc_source framer) (\<lambda>(source, injector).
             upd (newStreamSource source injector)))))))))"

definition start :: "build \<Rightarrow> surroundings \<Rightarrow> video_codec \<Rightarrow> bool \<Rightarrow> (server, unit) op" where
  "start b e codec use_multicast =
     thn (upd stop)
    (thn (whenb (\<not> isSupported b codec)
           (fail (Throw (StreamingError (videoCodecName codec @ '' is not supported on your system'')))))
    (thn (upd (\<lambda>s. s\<lparr>s_codec := codec\<rparr>))
    (thn (if use_multicast then start_multicast b e
          else upd (add_session (UnicastSession (initial_port (random_number e)))))
         (upd (\<lambda>s. s\<lparr>s_url := rtsp_url e\<rparr>)))))"

section \<open>The unicast subsession\<close>

text \<open>
  The callbacks of \<^verbatim>\<open>UnicastServerMediaSubsession\<close>, which run in the event loop while the
  server exists. \<open>dummy\<close> is \<^verbatim>\<open>dummy_session_\<close>: live555 makes a source and a sink that
  are never played to find out the SDP description.
\<close>

definition createNewRTPSink :: "build \<Rightarrow> bool \<Rightarrow> server \<Rightarrow> rtp_sink option \<times> server" where
  "createNewRTPSink b dummy s =
     (let sink = map_option (sized_sink s) (createVideoRTPSink b (s_codec s))
      in (sink, if dummy then s else s\<lparr>rtp_sink := sink\<rparr>))"

definition createNewStreamSource :: "build \<Rightarrow> bool \<Rightarrow> server \<Rightarrow> nat option \<times> server" where
  "createNewStreamSource b dummy s =
     (case createDiscreteFramer b (s_codec s) of
        Some framer \<Rightarrow>
          (case new_source framer s of ((source, injector), s1) \<Rightarrow>
             (Some source, if dummy then s1 else newStreamSource source injector s1))
      | None \<Rightarrow>
          (case new_source Direct s of ((_, injector), s1) \<Rightarrow>
             (None, on_injector injector inj_shutdown s1)))"

text \<open>\<^verbatim>\<open>sdpLines\<close>: the sink that describes the stream, if the server has one, and the
  server afterwards; \<open>cached\<close> tells whether the base class knows the description already
  and does not need the dummy objects.\<close>

definition sdpLines :: "build \<Rightarrow> bool \<Rightarrow> server \<Rightarrow> rtp_sink option \<times> server" where
  "sdpLines b cached s =
     (rtp_sink s,
      if cached \<or> rtp_sink s \<noteq> None then s
      else case createNewStreamSource b True s of
             (None, s1) \<Rightarrow> s1
           | (Some source, s1) \<Rightarrow> closeStreamSource source (snd (createNewRTPSink b True s1)))"

section \<open>Injectors in the store\<close>

lemma on_injector_frame [simp]:
  "streams (on_injector p f s) = streams s" "sms (on_injector p f s) = sms s"
  "sessions (on_injector p f s) = sessions s" "rtp_sink (on_injector p f s) = rtp_sink s"
  "next_addr (on_injector p f s) = next_addr s" "s_codec (on_injector p f s) = s_codec s"
  "udp_packet_size (on_injector p f s) = udp_packet_size s"
  "mcast_ports (on_injector p f s) = mcast_ports s" "s_url (on_injector p f s) = s_url s"
  by (simp_all add: on_injector_def)

lemma injectors_on [simp]:
  "injectors (on_injector p f s) q = (if q = p then f (injectors s p) else injectors s q)"
  by (simp add: on_injector_def)

text \<open>The same update for every source of a list, where no two share an injector.\<close>

abbreviation on_each :: "(injector \<Rightarrow> injector) \<Rightarrow> (nat \<times> nat) list \<Rightarrow> server \<Rightarrow> server" where
  "on_each f ps \<equiv> fold (\<lambda>(source, p). on_injector p f) ps"

lemma on_each_frame [simp]:
  "streams (on_each f ps s) = streams s" "sms (on_each f ps s) = sms s"
  "sessions (on_each f ps s) = sessions s" "rtp_sink (on_each f ps s) = rtp_sink s"
  "next_addr (on_each f ps s) = next_addr s" "s_codec (on_each f ps s) = s_codec s"
  "udp_packet_size (on_each f ps s) = udp_packet_size s"
  "mcast_ports (on_each f ps s) = mcast_ports s" "s_url (on_each f ps s) = s_url s"
  by (induction ps arbitrary: s) auto

lemma injectors_on_each:
  "distinct (map snd ps) \<Longrightarrow>
    injectors (on_each f ps s) q = (if q \<in> snd ` set ps then f (injectors s q) else injectors s q)"
  by (induction ps arbitrary: s) (auto simp: image_iff)

section \<open>The invariant\<close>

definition fresh_streams :: "server \<Rightarrow> bool" where
  "fresh_streams s \<longleftrightarrow> distinct (map fst (streams s)) \<and> distinct (map snd (streams s)) \<and>
     (\<forall>(source, p) \<in> set (streams s).
        source < next_addr s \<and> p < next_addr s \<and> \<not> is_shutdown (injectors s p))"

definition sink_ok :: "build \<Rightarrow> server \<Rightarrow> bool" where
  "sink_ok b s \<longleftrightarrow> (\<forall>k. rtp_sink s = Some k \<longrightarrow>
     createVideoRTPSink b (s_codec s) = Some (sink_class k) \<and> k = sized_sink s (sink_class k))"

definition session_ok :: "server \<Rightarrow> bool" where
  "session_ok s \<longleftrightarrow> sessions s = (case sms s of None \<Rightarrow> [] | Some x \<Rightarrow> [x])"

definition ports_ok :: "16 word \<times> 16 word \<Rightarrow> bool" where
  "ports_ok pq \<longleftrightarrow> (case pq of (p, q) \<Rightarrow>
     16384 \<le> unat p \<and> unat p \<le> 49150 \<and> even (unat p) \<and> unat q = unat p + 1)"

definition srv_inv :: "build \<Rightarrow> server \<Rightarrow> bool" where
  "srv_inv b s \<longleftrightarrow> fresh_streams s \<and> sink_ok b s \<and> session_ok s \<and>
     (\<forall>pq. mcast_ports s = Some pq \<longrightarrow> ports_ok pq)"

lemmas srv_inv_defs = srv_inv_def fresh_streams_def sink_ok_def session_ok_def

lemma sized_sink_cong: "udp_packet_size s' = udp_packet_size s \<Longrightarrow> sized_sink s' = sized_sink s"
  by (simp add: sized_sink_def preferredPacketSize_def maxPacketSize_def fun_eq_iff)

lemma unat_sockToPort: "unat (sockToPort h a) = 16384 + unat (and (h a) 0x7ffe)"
proof -
  have "and (h a) 0x7ffe \<le> 0x7ffe" by (rule word_and_le1)
  then have le: "unat (and (h a) 0x7ffe) \<le> 0x7ffe" by (simp add: word_le_nat_alt)
  have "unat (16384 + and (h a) 0x7ffe) = 16384 + unat (and (h a) 0x7ffe)"
    using le by (subst unat_plus_if') simp
  with le show ?thesis
    by (simp add: sockToPort_def unsigned_ucast_eq take_bit_nat_eq_self)
qed

lemma ports_ok_multicast: "ports_ok (sockToPort h a, sockToPort h a + 1)"
proof -
  have "and (h a) 0x7ffe \<le> 0x7ffe" by (rule word_and_le1)
  then have le: "unat (and (h a) 0x7ffe) \<le> 0x7ffe" by (simp add: word_le_nat_alt)
  have "even (unat (and (h a) 0x7ffe))" by (simp add: even_and_iff unsigned_and_eq)
  moreover have "unat (sockToPort h a + 1) = unat (sockToPort h a) + 1"
    using le by (subst unat_plus_if') (simp add: unat_sockToPort)
  ultimately show ?thesis
    using le by (simp add: ports_ok_def unat_sockToPort)
qed

section \<open>Every operation keeps it\<close>

lemma stop_simps [simp]:
  "streams (stop s) = []" "sms (stop s) = None" "rtp_sink (stop s) = None"
  "next_addr (stop s) = next_addr s" "s_codec (stop s) = s_codec s"
  "udp_packet_size (stop s) = udp_packet_size s" "mcast_ports (stop s) = mcast_ports s"
  "s_url (stop s) = []"
  "sessions (stop s) = (case sms s of None \<Rightarrow> sessions s | Some old \<Rightarrow> removeAll old (sessions s))"
  by (simp_all add: stop_def Let_def split: option.splits)

lemma injectors_stop:
  "distinct (map snd (streams s)) \<Longrightarrow>
    injectors (stop s) q = (if q \<in> snd ` set (streams s) then inj_shutdown (injectors s q) else injectors s q)"
  using injectors_on_each [of "streams s" inj_shutdown "s\<lparr>sms := None, rtp_sink := None\<rparr>" q]
  by (simp add: stop_def Let_def split: option.splits)

lemma stop_inv: "srv_inv b s \<Longrightarrow> srv_inv b (stop s)"
  by (auto simp: srv_inv_defs split: option.splits)

lemma new_source_inv:
  assumes "srv_inv b s" and "new_source framer s = ((src, p), s')"
  shows "srv_inv b s' \<and> srv_inv b (newStreamSource src p s') \<and> streams s' = streams s \<and>
    sms s' = sms s \<and> s_codec s' = s_codec s \<and> map_of (streams s) src = None"
proof -
  have lt: "\<forall>(source, q) \<in> set (streams s). source < next_addr s \<and> q < next_addr s"
    using assms(1) by (auto simp: srv_inv_defs)
  have src: "src \<in> {next_addr s, next_addr s + 1}" "p = next_addr s"
    using assms(2) by (auto simp: new_source_def Let_def split: if_splits)
  have none: "map_of (streams s) src = None"
    using lt src by (auto simp: map_of_eq_None_iff)
  have old: "\<not> is_shutdown (injectors s' q) \<longleftrightarrow> \<not> is_shutdown (injectors s q)" if "q < next_addr s" for q
    using assms(2) that by (auto simp: new_source_def Let_def split: if_splits)
  have same: "streams s' = streams s" "sms s' = sms s" "s_codec s' = s_codec s" "sessions s' = sessions s"
    "rtp_sink s' = rtp_sink s" "udp_packet_size s' = udp_packet_size s" "mcast_ports s' = mcast_ports s"
    "next_addr s < next_addr s'" "src < next_addr s'" "\<not> is_shutdown (injectors s' p)"
    using assms(2) by (auto simp: new_source_def Let_def new_injector_def split: if_splits)
  have rest: "sink_ok b s'" "session_ok s'" "\<forall>pq. mcast_ports s' = Some pq \<longrightarrow> ports_ok pq"
    "sink_ok b (newStreamSource src p s')" "session_ok (newStreamSource src p s')"
    "\<forall>pq. mcast_ports (newStreamSource src p s') = Some pq \<longrightarrow> ports_ok pq"
    using assms(1) same sized_sink_cong [of s' s] sized_sink_cong [of "newStreamSource src p s'" s]
    by (simp_all add: srv_inv_defs newStreamSource_def)
  have fresh: "fresh_streams s'"
    using assms(1) lt same old by (fastforce simp: srv_inv_defs)
  have "src \<notin> fst ` set (streams s)" "p \<notin> snd ` set (streams s)"
    using lt src by auto
  with fresh same src have "fresh_streams (newStreamSource src p s')"
    by (auto simp: fresh_streams_def newStreamSource_def)
  with rest fresh same none show ?thesis by (simp add: srv_inv_def)
qed

lemma add_session_inv:
  "srv_inv b s \<Longrightarrow> sms s = None \<Longrightarrow> srv_inv b (add_session kind s)"
  using sized_sink_cong [of "add_session kind s" s]
  by (auto simp: srv_inv_defs add_session_def Let_def)

lemma add_session_simps [simp]:
  "streams (add_session kind s) = streams s" "s_codec (add_session kind s) = s_codec s"
  "\<exists>p. sms (add_session kind s) = Some (p, kind)"
  by (simp_all add: add_session_def Let_def)

lemma open_groupsocks_simps [simp]:
  "sms (open_groupsocks e s) = sms s" "streams (open_groupsocks e s) = streams s"
  "s_codec (open_groupsocks e s) = s_codec s" "udp_packet_size (open_groupsocks e s) = udp_packet_size s"
  "sessions (open_groupsocks e s) = sessions s" "rtp_sink (open_groupsocks e s) = rtp_sink s"
  "next_addr (open_groupsocks e s) = next_addr s" "injectors (open_groupsocks e s) = injectors s"
  by (simp_all add: open_groupsocks_def Let_def)

lemma open_groupsocks_inv: "srv_inv b s \<Longrightarrow> srv_inv b (open_groupsocks e s)"
  using sized_sink_cong [of "open_groupsocks e s" s] ports_ok_multicast
  by (simp add: srv_inv_defs) (auto simp: open_groupsocks_def Let_def)

lemma set_sink_inv:
  assumes "srv_inv b s" and "k = map_option (sized_sink s) (createVideoRTPSink b (s_codec s))"
  shows "srv_inv b (s\<lparr>rtp_sink := k\<rparr>)"
proof -
  have "sized_sink (s\<lparr>rtp_sink := k\<rparr>) = sized_sink s" by (rule sized_sink_cong) simp
  moreover have "sink_class (sized_sink s j) = j" for j by (simp add: sized_sink_def)
  ultimately show ?thesis using assms by (auto simp: srv_inv_defs)
qed

text \<open>
  What a multicast start does to a server that was stopped; only the host's name can be in
  the way.
\<close>

lemma wp_start_multicast:
  assumes inv: "srv_inv b s" and none: "sms s = None" "streams s = []"
    and sup: "isSupported b (s_codec s)"
  shows "wp (start_multicast b e)
    (\<lambda>_ t. srv_inv b t \<and> hostname_ok e \<and> length (streams t) = 1 \<and> s_codec t = s_codec s \<and>
      (\<exists>p. sms t = Some (p, MulticastSession)))
    (\<lambda>f t. srv_inv b t \<and> \<not> hostname_ok e \<and> streams t = [] \<and>
      f = Throw (StreamingError ''missing or invalid hostname on this system'')) s" (is "wp _ ?Q ?E s")
proof -
  obtain k where k: "createVideoRTPSink b (s_codec s) = Some k" using sup supported_creates(1) by blast
  obtain fr where fr: "createDiscreteFramer b (s_codec s) = Some fr" using sup supported_creates(2) by blast
  let ?s = "open_groupsocks e s"
  let ?t = "?s\<lparr>rtp_sink := Some (sized_sink ?s k)\<rparr>"
  have inv2: "srv_inv b ?t"
    by (rule set_sink_inv [OF open_groupsocks_inv [OF inv]]) (simp add: k)
  let ?u = "add_session MulticastSession ?t"
  have inv3: "srv_inv b ?u" using inv2 none(1) by (intro add_session_inv) simp_all
  obtain src p v where v: "new_source fr ?u = ((src, p), v)" by (metis prod.exhaust)
  note new = new_source_inv [OF inv3 v]
  have sms_u: "\<exists>q. sms ?u = Some (q, MulticastSession)" by simp
  have v': "streams v = []" "s_codec v = s_codec s" "sms v = sms ?u"
    using new none(2) by simp_all
  have fin: "?Q () (newStreamSource src p v)" if "hostname_ok e"
  proof -
    have "newStreamSource src p v = v\<lparr>streams := [(src, p)]\<rparr>"
      using v'(1) by (simp add: newStreamSource_def)
    with that v' new sms_u show ?thesis by simp
  qed
  have err: "\<not> hostname_ok e \<Longrightarrow> ?E (Throw (StreamingError ''missing or invalid hostname on this system'')) ?t"
    using inv2 none(2) by simp
  have src: "wp (alloc_source fr)
      (\<lambda>a. wp (case a of (source, injector) \<Rightarrow> upd (newStreamSource source injector)) ?Q ?E) ?E ?u"
    if "hostname_ok e"
    using fin [OF that] by (simp add: wp_alloc_source v wp_upd)
  show ?thesis
    unfolding start_multicast_def wp_thn wp_bnd wp_upd wp_gets wp_whenb wp_fail
    using k fr err src by (cases "hostname_ok e") (simp_all add: wp_bnd)
qed

lemma wp_start:
  assumes inv: "srv_inv b s"
  shows "wp (start b e codec use_multicast)
    (\<lambda>_ t. srv_inv b t \<and> isSupported b codec \<and> s_codec t = codec \<and> s_url t = rtsp_url e \<and>
      (if use_multicast then length (streams t) = 1 \<and> (\<exists>p. sms t = Some (p, MulticastSession))
       else streams t = [] \<and> (\<exists>p. sms t = Some (p, UnicastSession (initial_port (random_number e))))))
    (\<lambda>f t. srv_inv b t \<and> streams t = [] \<and>
      (if isSupported b codec
       then use_multicast \<and> \<not> hostname_ok e \<and>
         f = Throw (StreamingError ''missing or invalid hostname on this system'')
       else f = Throw (StreamingError (videoCodecName codec @ '' is not supported on your system''))))
    s" (is "wp _ ?Q ?E s")
proof (cases "isSupported b codec")
  case False
  with stop_inv [OF inv] show ?thesis by (simp add: start_def wp_thn wp_upd wp_whenb wp_fail)
next
  case True
  let ?s = "(stop s)\<lparr>s_codec := codec\<rparr>"
  have url: "srv_inv b t \<Longrightarrow> srv_inv b (t\<lparr>s_url := u\<rparr>)" for t u
    using sized_sink_cong [of "t\<lparr>s_url := u\<rparr>" t] by (simp add: srv_inv_defs)
  have inv': "srv_inv b ?s"
    using stop_inv [OF inv] by (simp add: srv_inv_defs)
  show ?thesis
  proof (cases use_multicast)
    case mc: True
    have "wp (start_multicast b e) (\<lambda>_. wp (upd (\<lambda>s. s\<lparr>s_url := rtsp_url e\<rparr>)) ?Q ?E) ?E ?s"
      by (rule wp_mono [OF wp_start_multicast [OF inv']]) (use True mc url in \<open>auto simp: wp_upd\<close>)
    with True mc show ?thesis by (simp add: start_def wp_thn wp_upd wp_whenb)
  next
    case uc: False
    from add_session_inv [OF inv', of "UnicastSession (initial_port (random_number e))"] url
    have "srv_inv b ((add_session (UnicastSession (initial_port (random_number e))) ?s)\<lparr>s_url := rtsp_url e\<rparr>)"
      by simp
    with True uc show ?thesis by (simp add: start_def wp_thn wp_upd wp_whenb)
  qed
qed

text \<open>Updates of injectors that do not shut one down in use.\<close>

lemma sized_sink_on [simp]: "sized_sink (on_injector p f s) = sized_sink s"
  by (rule sized_sink_cong) simp

lemma on_injector_inv:
  assumes "srv_inv b s" and "p \<in> snd ` set (streams s) \<Longrightarrow> \<not> is_shutdown (injectors s p) \<Longrightarrow> \<not> is_shutdown (f (injectors s p))"
  shows "srv_inv b (on_injector p f s)"
proof -
  have "\<not> is_shutdown (injectors (on_injector p f s) q)" if "(src, q) \<in> set (streams s)" for src q
  proof -
    from that assms(1) have "\<not> is_shutdown (injectors s q)" by (auto simp: srv_inv_defs)
    moreover from that have "q \<in> snd ` set (streams s)" by force
    ultimately show ?thesis using assms(2) by auto
  qed
  with assms(1) show ?thesis by (auto simp: srv_inv_def fresh_streams_def sink_ok_def session_ok_def simp del: injectors_on)
qed

lemma injectFrame_shutdown [simp]: "is_shutdown (injectFrame f j) = is_shutdown j"
  by (simp add: injectFrame_def)

lemma doGetNextFrame_shutdown [simp]: "is_shutdown (fst (doGetNextFrame j)) = is_shutdown j"
  by (simp add: doGetNextFrame_def)

lemma inject_inv: "srv_inv b s \<Longrightarrow> srv_inv b (on_injector p (injectFrame f) s)"
  by (simp add: on_injector_inv)

lemma sendFrame_inv: "srv_inv b s \<Longrightarrow> srv_inv b (sendFrame frame s)"
proof -
  have "srv_inv b s \<Longrightarrow> srv_inv b (on_each (injectFrame frame) ps s)" for ps
    by (induction ps arbitrary: s) (auto simp: inject_inv)
  then show "srv_inv b s \<Longrightarrow> ?thesis" by (simp add: sendFrame_def)
qed

lemma closeStreamSource_inv:
  assumes inv: "srv_inv b s"
  shows "srv_inv b (closeStreamSource source s)"
proof -
  have none: "srv_inv b t \<Longrightarrow> srv_inv b (t\<lparr>rtp_sink := None\<rparr>)" for t
    by (simp add: srv_inv_defs)
  show ?thesis
  proof (cases "map_of (streams s) source")
    case None
    with inv none show ?thesis by (simp add: closeStreamSource_def)
  next
    case (Some p)
    let ?rest = "filter (\<lambda>(src, _). src \<noteq> source) (streams s)"
    let ?t = "(on_injector p inj_shutdown s)\<lparr>streams := ?rest\<rparr>"
    have d: "distinct (map fst (streams s))" "distinct (map snd (streams s))"
      using inv by (simp_all add: srv_inv_defs)
    from Some have "(source, p) \<in> set (streams s)" by (rule map_of_SomeD)
    with d(2) have other: "\<forall>(src, q) \<in> set ?rest. q \<noteq> p"
      by (fastforce simp: distinct_map inj_on_def)
    have keep: "distinct (map fst ?rest)" "distinct (map snd ?rest)"
      using d by (simp_all add: distinct_map_filter)
    have "sized_sink ?t = sized_sink s" by (rule sized_sink_cong) simp
    with inv keep other have "srv_inv b ?t"
      by (auto simp: srv_inv_defs)
    then have "srv_inv b (?t\<lparr>rtp_sink := None\<rparr>)" by (rule none)
    moreover have "closeStreamSource source s = (if ?rest = [] then ?t\<lparr>rtp_sink := None\<rparr> else ?t)"
      using Some by (simp add: closeStreamSource_def Let_def)
    ultimately show ?thesis using \<open>srv_inv b ?t\<close> by metis
  qed
qed

lemma createNewRTPSink_inv: "srv_inv b s \<Longrightarrow> srv_inv b (snd (createNewRTPSink b dummy s))"
  by (simp add: createNewRTPSink_def Let_def set_sink_inv)

lemma createNewStreamSource_inv:
  assumes inv: "srv_inv b s"
  shows "srv_inv b (snd (createNewStreamSource b dummy s))"
proof (cases "createDiscreteFramer b (s_codec s)")
  case (Some framer)
  obtain src p t where t: "new_source framer s = ((src, p), t)" by (metis prod.exhaust)
  from new_source_inv [OF inv t] Some t show ?thesis by (simp add: createNewStreamSource_def)
next
  case None
  obtain src p t where t: "new_source Direct s = ((src, p), t)" by (metis prod.exhaust)
  from t have p: "p = next_addr s" "streams t = streams s"
    by (auto simp: new_source_def Let_def)
  have "p \<notin> snd ` set (streams t)" using p inv by (auto simp: srv_inv_defs)
  with new_source_inv [OF inv t] have "srv_inv b (on_injector p inj_shutdown t)"
    by (intro on_injector_inv) auto
  with None t show ?thesis by (simp add: createNewStreamSource_def)
qed

lemma sdpLines_inv: "srv_inv b s \<Longrightarrow> srv_inv b (snd (sdpLines b cached s))"
  using createNewStreamSource_inv [of b s True]
  by (auto simp: sdpLines_def split: prod.split option.split
      intro!: closeStreamSource_inv createNewRTPSink_inv)

section \<open>The server at work\<close>

text \<open>
  The publisher's calls, the callbacks of the event loop, and the consumption of frames by
  live555, in any order.
\<close>

datatype srv_event =
    Start surroundings video_codec bool
  | Stop
  | Send frame_data
  | Describe bool
  | OpenSource
  | OpenSink
  | CloseSource nat
  | Consume nat nat

fun srv_step :: "build \<Rightarrow> server \<Rightarrow> srv_event \<Rightarrow> server" where
  "srv_step b s (Start e codec mc) = snd (start b e codec mc s)"
| "srv_step b s Stop = stop s"
| "srv_step b s (Send frame) = sendFrame frame s"
| "srv_step b s (Describe cached) = snd (sdpLines b cached s)"
| "srv_step b s OpenSource = snd (createNewStreamSource b False s)"
| "srv_step b s OpenSink = snd (createNewRTPSink b False s)"
| "srv_step b s (CloseSource source) = closeStreamSource source s"
| "srv_step b s (Consume p m) =
     on_injector p (\<lambda>j. fst (doGetNextFrame
       (j\<lparr>awaiting := True, fMaxSize := m, fNumTruncatedBytes := 0\<rparr>))) s"

interpretation server_machine: stepper "srv_step b" "srv_inv b"
  for b
proof
  fix s e
  assume inv: "srv_inv b s"
  show "srv_inv b (srv_step b s e)"
  proof (cases e)
    case (Start env codec mc)
    have "wp (start b env codec mc) (\<lambda>_. srv_inv b) (\<lambda>_. srv_inv b) s"
      by (rule wp_mono [OF wp_start [OF inv]]) simp_all
    from wp_state [OF this] Start show ?thesis by simp
  qed (use inv in \<open>simp_all add: stop_inv sendFrame_inv sdpLines_inv createNewStreamSource_inv
      createNewRTPSink_inv closeStreamSource_inv on_injector_inv\<close>)
qed

definition reachable_server :: "build \<Rightarrow> server \<Rightarrow> bool" where
  "reachable_server b s \<longleftrightarrow>
     (\<exists>bound port_text port psize s0 es. create_server bound port_text port psize = Inr s0 \<and>
       s = foldl (srv_step b) s0 es)"

lemma create_inv: "create_server bound port_text port psize = Inr s \<Longrightarrow> srv_inv b s"
  by (auto simp: create_server_def srv_inv_defs split: if_splits)

lemma reachable_server_inv: "reachable_server b s \<Longrightarrow> srv_inv b s"
  using create_inv server_machine.run_inv unfolding reachable_server_def by blast

section \<open>Properties\<close>

text \<open>
  C13: a frame reaches every client once. Sending a frame appends it to the queue of the
  injector of every active source, exactly once, and triggers its delivery; no other
  injector is touched. (No source shares its injector with another one, and none of these
  injectors was shut down.)
\<close>

theorem server_sends_to_all:
  assumes "reachable_server b s"
  shows "(\<forall>p \<in> snd ` set (streams s).
      injectors (sendFrame frame s) p = (injectors s p)
        \<lparr>frame_queue := frame_queue (injectors s p) @ [frame], trigger_pending := True\<rparr>) \<and>
    (\<forall>p. p \<notin> snd ` set (streams s) \<longrightarrow> injectors (sendFrame frame s) p = injectors s p)"
proof -
  have "fresh_streams s" using reachable_server_inv [OF assms] by (simp add: srv_inv_def)
  then have "distinct (map snd (streams s))" and "\<forall>p \<in> snd ` set (streams s). \<not> is_shutdown (injectors s p)"
    by (auto simp: fresh_streams_def)
  then show ?thesis by (simp add: sendFrame_def injectors_on_each injectFrame_def)
qed

text \<open>
  Stopping is complete. After \<open>stop\<close> no source is active, live555 serves no media
  session any more, there is no sink left to describe, and every injector that was active
  is shut down with an empty queue.
\<close>

theorem server_stop_complete:
  assumes "reachable_server b s"
  shows "\<not> hasActiveStreams (stop s) \<and> sessions (stop s) = [] \<and> sms (stop s) = None \<and>
    rtp_sink (stop s) = None \<and>
    (\<forall>p \<in> snd ` set (streams s). is_shutdown (injectors (stop s) p) \<and>
       frame_queue (injectors (stop s) p) = [])"
  using reachable_server_inv [OF assms]
  by (auto simp: hasActiveStreams_def srv_inv_defs injectors_stop inj_shutdown_def split: option.splits)

text \<open>
  One session at a time, described truthfully. In every reachable state live555 serves
  exactly the media session that the server remembers, if any; the sink that \<open>sdpLines\<close>
  describes is of the class that belongs to the current codec, and its packet sizes are the
  configured ones, the preferred size never above the maximum.
\<close>

theorem server_session_and_sink:
  assumes "reachable_server b s"
  shows "sessions s = (case sms s of None \<Rightarrow> [] | Some x \<Rightarrow> [x]) \<and>
    (\<forall>k. fst (sdpLines b cached s) = Some k \<longrightarrow>
      createVideoRTPSink b (s_codec s) = Some (sink_class k) \<and> isSupported b (s_codec s) \<and>
      k_max k = udp_packet_size s \<and> k_preferred k \<le> k_max k \<and> k_preferred k \<le> 982)"
proof -
  have inv: "srv_inv b s" by (rule reachable_server_inv [OF assms])
  have sizes: "k_max k = udp_packet_size s \<and> k_preferred k \<le> k_max k \<and> k_preferred k \<le> 982"
    if "k = sized_sink s c" for k c
    unfolding that by (simp add: sized_sink_def preferredPacketSize_def maxPacketSize_def not_less less_imp_le)
  have sink: "createVideoRTPSink b (s_codec s) = Some (sink_class k) \<and> k = sized_sink s (sink_class k)"
    if "rtp_sink s = Some k" for k
    using inv that by (simp add: srv_inv_def sink_ok_def)
  have "sessions s = (case sms s of None \<Rightarrow> [] | Some x \<Rightarrow> [x])"
    using inv by (simp add: srv_inv_def session_ok_def)
  moreover have "isSupported b (s_codec s)" if "createVideoRTPSink b (s_codec s) = Some c" for c
    using supported_creates(1) [of b "s_codec s"] that by simp
  ultimately show ?thesis
    unfolding sdpLines_def fst_conv using sink sizes by blast
qed

text \<open>
  What starting does. \<open>start\<close> succeeds for every supported codec, unless multicast is
  wanted on a host without a name; then the session is there, and in the multicast case
  there is an active source from the beginning on. A codec that the build does not support
  is refused, and no source is left active.
\<close>

theorem server_start_outcome:
  assumes "reachable_server b s"
  shows "case start b e codec use_multicast s of
      (Inr _, t) \<Rightarrow> isSupported b codec \<and> s_codec t = codec \<and> sms t \<noteq> None \<and>
        s_url t = rtsp_url e \<and> (hasActiveStreams t \<longleftrightarrow> use_multicast)
    | (Inl f, t) \<Rightarrow> \<not> hasActiveStreams t \<and>
        ((\<not> isSupported b codec \<and>
          f = Throw (StreamingError (videoCodecName codec @ '' is not supported on your system''))) \<or>
         (isSupported b codec \<and> use_multicast \<and> \<not> hostname_ok e \<and>
          f = Throw (StreamingError ''missing or invalid hostname on this system'')))"
  using wp_start [OF reachable_server_inv [OF assms], of e codec use_multicast]
  by (auto simp: wp_def hasActiveStreams_def split: prod.splits sum.splits if_splits)

text \<open>
  Closing a source. When live555 closes a source, its injector is shut down and is
  never used again, all other sources stay as they are, and the sink is forgotten with the
  last of them.
\<close>

theorem server_close_isolated:
  assumes "reachable_server b s" and "(source, p) \<in> set (streams s)"
  shows "set (streams (closeStreamSource source s)) = set (streams s) - {(source, p)} \<and>
    is_shutdown (injectors (closeStreamSource source s) p) \<and>
    (\<forall>q. q \<noteq> p \<longrightarrow> injectors (closeStreamSource source s) q = injectors s q) \<and>
    (streams s = [(source, p)] \<longrightarrow> rtp_sink (closeStreamSource source s) = None)"
proof -
  have d: "distinct (map fst (streams s))"
    using reachable_server_inv [OF assms(1)] by (simp add: srv_inv_defs)
  with assms(2) have m: "map_of (streams s) source = Some p" by simp
  have "{x \<in> set (streams s). fst x \<noteq> source} = set (streams s) - {(source, p)}"
  proof -
    have uniq: "q = p" if "(source, q) \<in> set (streams s)" for q
      using map_of_is_SomeI [OF d that] m by simp
    show ?thesis using assms(2) by (auto dest: uniq)
  qed
  moreover have "streams (closeStreamSource source s) = filter (\<lambda>x. fst x \<noteq> source) (streams s)"
    "injectors (closeStreamSource source s) = (injectors s)(p := inj_shutdown (injectors s p))"
    by (simp_all add: closeStreamSource_def m Let_def case_prod_unfold on_injector_def)
  moreover have "rtp_sink (closeStreamSource source s) = None" if "streams s = [(source, p)]"
    using that by (simp add: closeStreamSource_def Let_def)
  ultimately show ?thesis by (simp add: inj_shutdown_def)
qed

text \<open>
  The ports. Whatever multicast address is chosen and however bytes are ordered on the
  host, RTP gets an even port from 16384 to 49150 and RTCP the one above it; the first port
  of a unicast session is an even one from 49152 to 65534, so that its companion fits into
  16 bits, too.
\<close>

theorem server_ports:
  "let p = sockToPort ntohl addr; q = initial_port random in
    16384 \<le> unat p \<and> unat p \<le> 49150 \<and> even (unat p) \<and> unat (p + 1) = unat p + 1 \<and>
    49152 \<le> unat q \<and> unat q \<le> 65534 \<and> even (unat q) \<and> unat (q + 1) = unat q + 1"
proof -
  have m: "random mod 8192 < 8192" by simp
  have q: "unat (initial_port random) = 49152 + 2 * (random mod 8192)"
    using m unfolding initial_port_def by (subst unat_of_nat) simp
  moreover have "unat (initial_port random + 1) = unat (initial_port random) + 1"
    using m q by (subst unat_plus_if') simp
  ultimately show ?thesis
    using ports_ok_multicast [of ntohl addr] m by (auto simp: Let_def ports_ok_def)
qed

section \<open>Witnesses\<close>

definition full_build :: build where
  "full_build = \<lparr>has_h265 = True, has_vpx = True, has_av1 = False\<rparr>"

definition plain_host :: surroundings where
  "plain_host = \<lparr>to_host_order = (\<lambda>w. w), ssm_address = 0xE8010203, hostname_ok = True,
     random_number = 8195, rtsp_url = ''rtsp://host/''\<rparr>"

definition server_events :: "srv_event list" where
  "server_events = [Start plain_host H264 False, Describe False, OpenSource, OpenSink,
     Send (mk_frame 2 [0x67] 5)]"

definition serving :: server where
  "serving = foldl (srv_step full_build)
     (case create_server True (\<lambda>_. ''0'') 0 1354 of Inr s \<Rightarrow> s) server_events"

lemma serving_reachable: "reachable_server full_build serving"
proof -
  obtain s0 where "create_server True (\<lambda>_. ''0'') 0 1354 = Inr s0" by (simp add: create_server_def)
  moreover from this have "serving = foldl (srv_step full_build) s0 server_events" by (simp add: serving_def)
  ultimately show ?thesis unfolding reachable_server_def by blast
qed

lemmas server_ops = start_def stop_def add_session_def createNewStreamSource_def createNewRTPSink_def
  new_source_def newStreamSource_def closeStreamSource_def sdpLines_def sendFrame_def
  createVideoRTPSink_def createDiscreteFramer_def isSupported_def create_server_def

lemma serving_is:
  "streams serving = [(5, 4)] \<and> s_codec serving = H264 \<and> udp_packet_size serving = 1354 \<and>
    rtp_sink serving \<noteq> None \<and> frame_queue (injectors serving 4) = [mk_frame 2 [0x67] 5]"
  by (simp add: serving_def server_events_def server_ops op_defs plain_host_def Let_def
      on_injector_def injectFrame_def new_injector_def)

lemma serving_streams: "streams serving = [(5, 4)]"
  by (simp add: serving_is)

theorem server_sends_to_all_witness:
  "frame_queue (injectors serving 4) = [mk_frame 2 [0x67] 5] \<and>
    frame_queue (injectors (sendFrame (mk_frame 2 [0x68] 6) serving) 4) =
      [mk_frame 2 [0x67] 5, mk_frame 2 [0x68] 6]"
proof -
  have "frame_queue (injectors serving 4) = [mk_frame 2 [0x67] 5]" by (simp add: serving_is)
  with server_sends_to_all [OF serving_reachable, of "mk_frame 2 [0x68] 6"] serving_streams
  show ?thesis by simp
qed

theorem server_stop_complete_witness:
  "\<not> hasActiveStreams (stop serving) \<and> sessions (stop serving) = [] \<and>
    is_shutdown (injectors (stop serving) 4)"
  using server_stop_complete [OF serving_reachable] serving_streams by simp

theorem server_session_and_sink_witness:
  "\<exists>k. fst (sdpLines full_build False serving) = Some k \<and> sink_class k = H264Sink \<and> k_max k = 1354"
proof -
  have sink: "fst (sdpLines full_build False serving) \<noteq> None" by (simp add: serving_is sdpLines_def)
  have known: "createVideoRTPSink full_build (s_codec serving) = Some H264Sink" "udp_packet_size serving = 1354"
    by (simp_all add: serving_is createVideoRTPSink_def)
  from sink obtain k where "fst (sdpLines full_build False serving) = Some k" by blast
  with server_session_and_sink [OF serving_reachable, of False] known show ?thesis by auto
qed

theorem server_start_outcome_witness:
  "case start full_build plain_host AV1 True serving of
      (Inr _, t) \<Rightarrow> False
    | (Inl f, t) \<Rightarrow> \<not> hasActiveStreams t \<and>
        f = Throw (StreamingError (videoCodecName AV1 @ '' is not supported on your system''))"
proof -
  have "\<not> isSupported full_build AV1" by (simp add: isSupported_def full_build_def)
  with server_start_outcome [OF serving_reachable, where e = plain_host and codec = AV1 and use_multicast = True] show ?thesis
    by (auto split: prod.splits sum.splits)
qed

theorem server_close_isolated_witness:
  "streams serving = [(5, 4)] \<and> is_shutdown (injectors (closeStreamSource 5 serving) 4) \<and>
    rtp_sink (closeStreamSource 5 serving) = None"
  using server_close_isolated [OF serving_reachable, of 5 4] serving_streams by simp

end
