(* ===== verification/Stream_Client.thy ===== *)
theory Stream_Client
  imports Frame_Extractor
begin

text \<open>
  The RTSP client (\<^verbatim>\<open>src/src/stream_client.h\<close>, \<^verbatim>\<open>src/src/stream_client.cpp\<close>):
  \<open>StreamClient\<close>, which the subscriber talks to, and \<open>Live555Client\<close>, the callbacks of one
  connection. A connection goes through DESCRIBE, SETUP and PLAY; every reply continues it.

  The media session that live555 makes of an SDP description is a list of subsessions. The
  state carries two records of the past: \<open>trail\<close>, the requests that were sent and the
  handlers of the subscriber that were called, in order, and \<open>pending\<close>, the request that
  waits for its reply. Handlers are called last in their operations, so what they do happens
  after the step; only the handler for started subsessions can make a difference, by
  throwing, and is an argument (\<open>accepts\<close>). Times are in milliseconds.
\<close>

section \<open>The classes\<close>

record subsession =
  ss_codec :: string
  ss_initiates :: bool
  ss_sprops :: "string option"
  ss_packets :: "nat option"
  ss_sink :: "extractor option"

datatype request = DESCRIBE | SETUP nat | PLAY

datatype rtsp_note =
    Send request
  | SendTeardown
  | SubsessionStarted video_codec nat
  | SubsessionFinished nat
  | SessionReady
  | SessionStarted
  | SessionFailed int string
  | SessionFinished
  | SessionTimeout
  | ReceiveData video_codec nat frame_data
  | Workaround454

record live_client =
  sdp_session :: "subsession list option"
  current :: "nat option"
  has_video :: bool
  session_active :: bool
  iter :: "nat option"
  l_timeout :: int
  timeout_task :: bool
  received_packets :: nat
  pending :: "request option"

record stream_client =
  c_url :: string
  c_codec :: video_codec
  retried_on_454_error :: bool
  c_timeout :: int
  client :: "live_client option"
  trail :: "rtsp_note list"

definition new_client :: "string \<Rightarrow> stream_client" where
  "new_client url =
     \<lparr>c_url = url, c_codec = Unknown, retried_on_454_error = False, c_timeout = 0, client = None,
      trail = []\<rparr>"

definition new_live :: live_client where
  "new_live =
     \<lparr>sdp_session = None, current = None, has_video = False, session_active = False, iter = None,
      l_timeout = 0, timeout_task = False, received_packets = 0, pending = None\<rparr>"

definition emit :: "rtsp_note \<Rightarrow> (stream_client, unit) op" where
  "emit n = upd (\<lambda>s. s\<lparr>trail := trail s @ [n]\<rparr>)"

definition upd_live :: "(live_client \<Rightarrow> live_client) \<Rightarrow> (stream_client, unit) op" where
  "upd_live f = bnd (deref client) (\<lambda>c. upd (\<lambda>s. s\<lparr>client := Some (f c)\<rparr>))"

definition send :: "request \<Rightarrow> (stream_client, unit) op" where
  "send r = thn (emit (Send r)) (upd_live (\<lambda>c. c\<lparr>pending := Some r\<rparr>))"

lemma wp_emit [wp_rules]: "wp (emit n) Q E s = Q () (s\<lparr>trail := trail s @ [n]\<rparr>)"
  by (simp add: emit_def wp_upd)

lemma wp_upd_live [wp_rules]:
  "wp (upd_live f) Q E s =
     (case client s of None \<Rightarrow> E NullDeref s | Some c \<Rightarrow> Q () (s\<lparr>client := Some (f c)\<rparr>))"
  by (simp add: upd_live_def wp_rules split: option.split)

lemma wp_send [wp_rules]:
  "wp (send r) Q E s =
     (case client s of None \<Rightarrow> E NullDeref (s\<lparr>trail := trail s @ [Send r]\<rparr>)
      | Some c \<Rightarrow> Q () (s\<lparr>trail := trail s @ [Send r], client := Some (c\<lparr>pending := Some r\<rparr>)\<rparr>))"
  by (simp add: send_def wp_rules split: option.split)

section \<open>One connection\<close>

definition live_setSessionTimeout :: "int \<Rightarrow> live_client \<Rightarrow> live_client" where
  "live_setSessionTimeout t c =
     (let c1 = c\<lparr>l_timeout := t, timeout_task := False\<rparr>
      in if t > 0 \<and> session_active c1 then c1\<lparr>timeout_task := True\<rparr> else c1)"

definition teardown :: "(stream_client, unit) op" where
  "teardown =
     thn (upd_live (\<lambda>c. c\<lparr>session_active := False\<rparr>))
    (thn (bnd (deref client) (\<lambda>c.
            case sdp_session c of
              None \<Rightarrow> ret ()
            | Some subsessions \<Rightarrow>
                thn (whenb (subsessions \<noteq> []) (emit SendTeardown))
                    (upd_live (\<lambda>c. c\<lparr>sdp_session := None\<rparr>))))
         (upd_live (\<lambda>c. c\<lparr>timeout_task := False\<rparr>)))"

definition disconnect :: "(stream_client, unit) op" where
  "disconnect =
     bnd (gets client) (\<lambda>c. whenb (c \<noteq> None)
       (thn teardown (upd (\<lambda>s. s\<lparr>client := None\<rparr>))))"

definition connect :: "(stream_client, unit) op" where
  "connect =
     bnd (gets client) (\<lambda>c.
       if c \<noteq> None then fail (Throw (StreamingError ''client is connected already''))
       else thn (upd (\<lambda>s. s\<lparr>client := Some (live_setSessionTimeout (c_timeout s) new_live)\<rparr>))
                (send DESCRIBE))"

definition sessionFailed :: "int \<Rightarrow> string \<Rightarrow> (stream_client, unit) op" where
  "sessionFailed code message =
     bnd (gets retried_on_454_error) (\<lambda>retried.
       if code = 454 \<and> \<not> retried
       then thn (emit Workaround454)
           (thn (upd (\<lambda>s. s\<lparr>retried_on_454_error := True\<rparr>))
           (thn disconnect
                connect))
       else emit (SessionFailed code message))"

definition sessionStarted :: "(stream_client, unit) op" where
  "sessionStarted = thn (upd (\<lambda>s. s\<lparr>retried_on_454_error := False\<rparr>)) (emit SessionStarted)"

text \<open>
  \<^verbatim>\<open>setupNextSubsession\<close> recurs along the iterator: \<open>k\<close> is its position, the list holds the
  subsessions from there on.
\<close>

primrec setup_next :: "nat \<Rightarrow> subsession list \<Rightarrow> (stream_client, unit) op" where
  "setup_next k [] =
     thn (upd_live (\<lambda>c. c\<lparr>current := None, iter := None\<rparr>))
    (bnd (deref client) (\<lambda>c.
       if \<not> has_video c
       then thn teardown (sessionFailed 415 ''no playable media subsession'')
       else thn (emit SessionReady) (send PLAY)))"
| "setup_next k (ss # rest) =
     thn (upd_live (\<lambda>c. c\<lparr>current := Some k, iter := Some (k + 1)\<rparr>))
    (bnd (deref client) (\<lambda>c.
       if ss_initiates ss \<and> fromRTSPCodecName (ss_codec ss) \<noteq> Unknown \<and> \<not> has_video c
       then send (SETUP k)
       else setup_next (k + 1) rest))"

definition setupNextSubsession :: "(stream_client, unit) op" where
  "setupNextSubsession =
     bnd (deref client) (\<lambda>c.
     bnd (lift_op (case (iter c, sdp_session c) of
            (Some k, Some subsessions) \<Rightarrow> Inr (k, subsessions) | _ \<Rightarrow> Inl NullDeref))
       (\<lambda>(k, subsessions). setup_next k (drop k subsessions)))"

text \<open>\<open>parsed\<close> is the media session that live555 makes of the SDP description, if it can.\<close>

definition continueAfterDESCRIBE ::
  "int \<Rightarrow> string \<Rightarrow> subsession list option \<Rightarrow> (stream_client, unit) op" where
  "continueAfterDESCRIBE resultCode resultString parsed =
     (if resultCode \<noteq> 0 then sessionFailed resultCode resultString
      else thn (upd_live (\<lambda>c. c\<lparr>has_video := False\<rparr>))
        (case parsed of
           None \<Rightarrow> sessionFailed 500 ''cannot create MediaSession''
         | Some subsessions \<Rightarrow>
             thn (upd_live (\<lambda>c. c\<lparr>sdp_session := Some subsessions\<rparr>))
               (if subsessions = []
                then thn teardown (sessionFailed 415 ''no media subsession'')
                else thn (upd_live (\<lambda>c. c\<lparr>iter := Some 0\<rparr>)) setupNextSubsession)))"

definition upd_subsession :: "nat \<Rightarrow> (subsession \<Rightarrow> subsession) \<Rightarrow> live_client \<Rightarrow> live_client" where
  "upd_subsession i f c =
     c\<lparr>sdp_session := map_option (\<lambda>subs. if i < length subs then subs[i := f (subs ! i)] else subs) (sdp_session c)\<rparr>"

text \<open>The subsession that \<^verbatim>\<open>subsession_\<close> points to.\<close>

definition current_subsession :: "live_client \<Rightarrow> fault + nat \<times> subsession" where
  "current_subsession c =
     (case (current c, sdp_session c) of
        (Some i, Some subs) \<Rightarrow> if i < length subs then Inr (i, subs ! i) else Inl NullDeref
      | _ \<Rightarrow> Inl NullDeref)"

text \<open>The body of the \<^verbatim>\<open>try\<close> block in \<^verbatim>\<open>continueAfterSETUP\<close>.\<close>

definition play_subsession ::
  "(string \<Rightarrow> byte list list) \<Rightarrow> (video_codec \<Rightarrow> exn option) \<Rightarrow> (stream_client, unit) op" where
  "play_subsession parse accepts =
     bnd (deref client) (\<lambda>c.
     bnd (lift_op (current_subsession c)) (\<lambda>(i, ss).
       let codec = fromRTSPCodecName (ss_codec ss)
       in thn (emit (SubsessionStarted codec i))
         (thn (case accepts codec of Some e \<Rightarrow> fail (Throw e) | None \<Rightarrow> ret ())
         (bnd (lift_op (FrameExtractor parse True (ss_codec ss) (ss_sprops ss))) (\<lambda>sink.
          thn (upd_live (upd_subsession i (\<lambda>ss. ss\<lparr>ss_sink := Some (continuePlaying sink)\<rparr>)))
         (thn (upd_live (\<lambda>c. c\<lparr>has_video := True\<rparr>))
              (upd (\<lambda>s. s\<lparr>c_codec := codec\<rparr>))))))))"

definition continueAfterSETUP ::
  "(string \<Rightarrow> byte list list) \<Rightarrow> (video_codec \<Rightarrow> exn option) \<Rightarrow> int \<Rightarrow> (stream_client, unit) op" where
  "continueAfterSETUP parse accepts resultCode =
     thn (whenb (resultCode = 0) (handle (play_subsession parse accepts) (\<lambda>e. ret ())))
         setupNextSubsession"

definition continueAfterPLAY :: "int \<Rightarrow> string \<Rightarrow> (stream_client, unit) op" where
  "continueAfterPLAY resultCode resultString =
     (if resultCode = 0
      then thn (upd_live (\<lambda>c. if l_timeout c > 0 then c\<lparr>session_active := True, timeout_task := True\<rparr>
                              else c\<lparr>session_active := True\<rparr>))
               sessionStarted
      else thn teardown (sessionFailed resultCode resultString))"

definition subsessionAfterPlaying :: "nat \<Rightarrow> (stream_client, unit) op" where
  "subsessionAfterPlaying i =
     thn (emit (SubsessionFinished i))
    (thn (upd_live (upd_subsession i (\<lambda>ss. ss\<lparr>ss_sink := None\<rparr>)))
    (bnd (deref client) (\<lambda>c.
       if \<exists>ss \<in> set (case sdp_session c of None \<Rightarrow> [] | Some subs \<Rightarrow> subs). ss_sink ss \<noteq> None then ret ()
       else thn teardown (emit SessionFinished))))"

definition total_packets :: "subsession list \<Rightarrow> nat" where
  "total_packets subs = sum_list (map (\<lambda>ss. case ss_packets ss of None \<Rightarrow> 0 | Some n \<Rightarrow> n) subs)"

definition checkTimeout :: "(stream_client, unit) op" where
  "checkTimeout =
     thn (upd_live (\<lambda>c. c\<lparr>timeout_task := False\<rparr>))
    (bnd (deref client) (\<lambda>c.
       case sdp_session c of
         None \<Rightarrow> ret ()
       | Some subs \<Rightarrow>
           if total_packets subs \<noteq> received_packets c
           then upd_live (\<lambda>c. c\<lparr>received_packets := total_packets subs, timeout_task := True\<rparr>)
           else emit SessionTimeout))"

definition setSessionTimeout :: "int \<Rightarrow> stream_client \<Rightarrow> stream_client" where
  "setSessionTimeout t s = s\<lparr>c_timeout := t, client := map_option (live_setSessionTimeout t) (client s)\<rparr>"

section \<open>The client at work\<close>

text \<open>
  What can happen, from outside and from the event loop. live555 answers a request once, and
  only the one that is outstanding; it reports the end of a subsession that is played, and
  runs a timer that is set.
\<close>

datatype client_event =
    Connect
  | Disconnect
  | SetTimeout int
  | DescribeReply int string "subsession list option"
  | SetupReply int "video_codec \<Rightarrow> exn option"
  | PlayReply int string
  | Ends nat
  | TimerExpires
  | Packet nat
  | Arrives nat arrival

definition on_reply :: "(request \<Rightarrow> bool) \<Rightarrow> (stream_client, unit) op \<Rightarrow> (stream_client, unit) op" where
  "on_reply is m =
     bnd (gets client) (\<lambda>c.
       case Option.bind c pending of
         Some r \<Rightarrow> whenb (is r) (thn (upd_live (\<lambda>c. c\<lparr>pending := None\<rparr>)) m)
       | None \<Rightarrow> ret ())"

definition is_setup :: "request \<Rightarrow> bool" where
  "is_setup r = (case r of SETUP i \<Rightarrow> True | _ \<Rightarrow> False)"

definition timer_set :: "live_client option \<Rightarrow> bool" where
  "timer_set c = (case c of None \<Rightarrow> False | Some l \<Rightarrow> timeout_task l)"

lemma is_setup_iff [simp]: "is_setup r \<longleftrightarrow> (\<exists>i. r = SETUP i)"
  by (simp add: is_setup_def split: request.split)

lemma timer_set_iff [simp]: "timer_set c \<longleftrightarrow> (\<exists>l. c = Some l \<and> timeout_task l)"
  by (simp add: timer_set_def split: option.split)

definition subsession_at :: "stream_client \<Rightarrow> nat \<Rightarrow> subsession option" where
  "subsession_at s i =
     (case Option.bind (client s) sdp_session of
        Some subs \<Rightarrow> if i < length subs then Some (subs ! i) else None
      | None \<Rightarrow> None)"

text \<open>The frame extractor of a subsession gets data and passes frames on.\<close>

definition arrive ::
  "(int \<Rightarrow> nat \<Rightarrow> fault + stamp) \<Rightarrow> nat \<Rightarrow> nat \<Rightarrow> arrival \<Rightarrow> stream_client \<Rightarrow> stream_client" where
  "arrive mk_time pad i a s =
     (case Option.bind (subsession_at s i) ss_sink of
        None \<Rightarrow> s
      | Some x \<Rightarrow>
          let y = ext_step mk_time pad x a;
              new = drop (length (received x)) (received y)
          in s\<lparr>client := map_option (upd_subsession i (\<lambda>ss. ss\<lparr>ss_sink := Some y\<rparr>)) (client s),
               trail := trail s @ map (\<lambda>(codec, f). ReceiveData codec i f) new\<rparr>)"

definition more_packets :: "subsession \<Rightarrow> subsession" where
  "more_packets ss = ss\<lparr>ss_packets := map_option Suc (ss_packets ss)\<rparr>"

definition client_op ::
  "(string \<Rightarrow> byte list list) \<Rightarrow> (int \<Rightarrow> nat \<Rightarrow> fault + stamp) \<Rightarrow> nat \<Rightarrow> client_event \<Rightarrow>
   (stream_client, unit) op" where
  "client_op parse mk_time pad e =
     (case e of
        Connect \<Rightarrow> connect
      | Disconnect \<Rightarrow> disconnect
      | SetTimeout t \<Rightarrow> upd (setSessionTimeout t)
      | DescribeReply code msg parsed \<Rightarrow>
          on_reply (\<lambda>r. r = DESCRIBE)
            (continueAfterDESCRIBE code msg (map_option (map (\<lambda>ss. ss\<lparr>ss_sink := None\<rparr>)) parsed))
      | SetupReply code accepts \<Rightarrow>
          on_reply is_setup (continueAfterSETUP parse accepts code)
      | PlayReply code msg \<Rightarrow> on_reply (\<lambda>r. r = PLAY) (continueAfterPLAY code msg)
      | Ends i \<Rightarrow>
          bnd (gets (\<lambda>s. Option.bind (subsession_at s i) ss_sink)) (\<lambda>sink.
            whenb (sink \<noteq> None) (subsessionAfterPlaying i))
      | TimerExpires \<Rightarrow>
          bnd (gets client) (\<lambda>c. whenb (timer_set c) checkTimeout)
      | Packet i \<Rightarrow> upd (\<lambda>s. s\<lparr>client := map_option (upd_subsession i more_packets) (client s)\<rparr>)
      | Arrives i a \<Rightarrow> upd (arrive mk_time pad i a))"

section \<open>Invariant\<close>

definition playing :: "live_client \<Rightarrow> nat" where
  "playing c = (case sdp_session c of None \<Rightarrow> 0
     | Some subs \<Rightarrow> length (filter (\<lambda>ss. ss_sink ss \<noteq> None) subs))"

definition playable :: "subsession \<Rightarrow> bool" where
  "playable ss \<longleftrightarrow> ss_initiates ss \<and> fromRTSPCodecName (ss_codec ss) \<noteq> Unknown"

definition pending_ok :: "live_client \<Rightarrow> bool" where
  "pending_ok c \<longleftrightarrow>
     (case pending c of
        None \<Rightarrow> True
      | Some DESCRIBE \<Rightarrow> sdp_session c = None \<and> \<not> has_video c
      | Some (SETUP i) \<Rightarrow> \<not> has_video c \<and> current c = Some i \<and> iter c = Some (i + 1) \<and>
          (\<exists>subs. sdp_session c = Some subs \<and> i < length subs \<and> playable (subs ! i))
      | Some PLAY \<Rightarrow> has_video c)"

definition live_inv :: "live_client \<Rightarrow> bool" where
  "live_inv c \<longleftrightarrow>
     (timeout_task c \<longrightarrow> session_active c \<and> 0 < l_timeout c) \<and>
     (session_active c \<longrightarrow> pending c = None \<and> has_video c) \<and>
     playing c \<le> 1 \<and> (0 < playing c \<longrightarrow> has_video c) \<and> pending_ok c"

text \<open>
  Reading the trail for the workaround: whether it was used since the last session started,
  and whether it was never used twice in a row.
\<close>

fun retry_scan :: "rtsp_note list \<Rightarrow> bool \<times> bool \<Rightarrow> bool \<times> bool" where
  "retry_scan [] st = st"
| "retry_scan (Workaround454 # ns) st = retry_scan ns (True, snd st \<and> \<not> fst st)"
| "retry_scan (SessionStarted # ns) st = retry_scan ns (False, snd st)"
| "retry_scan (n # ns) st = retry_scan ns st"

lemma retry_scan_append: "retry_scan (ms @ ns) st = retry_scan ns (retry_scan ms st)"
  by (induction ms st rule: retry_scan.induct) simp_all

definition client_inv :: "stream_client \<Rightarrow> bool" where
  "client_inv s \<longleftrightarrow> (\<forall>c. client s = Some c \<longrightarrow> live_inv c) \<and>
     retry_scan (trail s) (False, True) = (retried_on_454_error s, True)"

lemmas client_inv_defs = client_inv_def live_inv_def pending_ok_def retry_scan_append

text \<open>
  After a reply was handled in a client with the trail \<open>past\<close>: the next request was sent, or
  the session is active and was reported, or the subscriber was told of the failure.
\<close>

definition settled :: "rtsp_note list \<Rightarrow> stream_client \<Rightarrow> bool" where
  "settled past s \<longleftrightarrow> (\<exists>ns n. trail s = past @ ns @ [n] \<and>
     (case n of
        Send r \<Rightarrow> \<exists>c. client s = Some c \<and> pending c = Some r
      | SessionStarted \<Rightarrow> \<exists>c. client s = Some c \<and> session_active c
      | SessionFailed _ _ \<Rightarrow> True
      | _ \<Rightarrow> False))"

section \<open>Every operation keeps it\<close>

definition torn_down :: "live_client \<Rightarrow> live_client" where
  "torn_down c = c\<lparr>session_active := False, sdp_session := None, timeout_task := False\<rparr>"

definition teardown_notes :: "live_client \<Rightarrow> rtsp_note list" where
  "teardown_notes c = (case sdp_session c of None \<Rightarrow> [] | Some subs \<Rightarrow> if subs = [] then [] else [SendTeardown])"

lemma teardown_eq:
  assumes "client s = Some c"
  shows "teardown s = (Inr (), s\<lparr>client := Some (torn_down c), trail := trail s @ teardown_notes c\<rparr>)"
proof (cases "sdp_session c")
  case None
  have "c\<lparr>session_active := False, timeout_task := False\<rparr> = torn_down c"
    using None by (cases c) (simp add: torn_down_def)
  with None assms show ?thesis
    by (cases s) (simp add: teardown_def op_defs emit_def upd_live_def teardown_notes_def)
next
  case (Some subs)
  with assms show ?thesis
    by (cases s) (auto simp: teardown_def op_defs emit_def upd_live_def torn_down_def teardown_notes_def)
qed

lemma wp_teardown:
  "client s = Some c \<Longrightarrow> wp teardown Q E s =
    Q () (s\<lparr>client := Some (torn_down c), trail := trail s @ teardown_notes c\<rparr>)"
  by (simp add: wp_def teardown_eq)

lemma retry_scan_teardown [simp]: "retry_scan (teardown_notes c) st = st"
  by (simp add: teardown_notes_def split: option.split)

lemma playing_torn_down [simp]: "playing (torn_down c) = 0"
  by (simp add: playing_def torn_down_def)

lemma torn_down_simps [simp]:
  "pending (torn_down c) = pending c" "has_video (torn_down c) = has_video c"
  "session_active (torn_down c) = False" "timeout_task (torn_down c) = False"
  "sdp_session (torn_down c) = None"
  by (simp_all add: torn_down_def)

lemma settled_later: "settled (past @ ns) t \<Longrightarrow> settled past t"
  unfolding settled_def
proof (elim exE conjE)
  fix ms n
  assume "trail t = (past @ ns) @ ms @ [n]" and "case n of
      Send r \<Rightarrow> \<exists>c. client t = Some c \<and> pending c = Some r
    | SessionStarted \<Rightarrow> \<exists>c. client t = Some c \<and> session_active c
    | SessionFailed _ _ \<Rightarrow> True
    | _ \<Rightarrow> False"
  then show "\<exists>ns n. trail t = past @ ns @ [n] \<and> (case n of
      Send r \<Rightarrow> \<exists>c. client t = Some c \<and> pending c = Some r
    | SessionStarted \<Rightarrow> \<exists>c. client t = Some c \<and> session_active c
    | SessionFailed _ _ \<Rightarrow> True
    | _ \<Rightarrow> False)"
    by (intro exI [of _ "ns @ ms"] exI [of _ n]) simp
qed

lemma wp_settled_later:
  "wp m (\<lambda>_ t. client_inv t \<and> settled (past @ ns) t) E s \<Longrightarrow> wp m (\<lambda>_ t. client_inv t \<and> settled past t) E s"
  by (erule wp_mono) (auto intro: settled_later)

lemma live_inv_torn_down: "pending c = None \<Longrightarrow> live_inv (torn_down c)"
  by (simp add: live_inv_def pending_ok_def)

lemma live_setSessionTimeout_inv: "live_inv c \<Longrightarrow> live_inv (live_setSessionTimeout t c)"
  by (auto simp: live_setSessionTimeout_def live_inv_def pending_ok_def playing_def Let_def
      split: option.splits request.splits)

lemma new_live_inv: "live_inv ((live_setSessionTimeout t new_live)\<lparr>pending := Some DESCRIBE\<rparr>)"
  by (simp add: live_setSessionTimeout_def new_live_def live_inv_def pending_ok_def playing_def)

lemma wp_connect:
  assumes "client_inv s" and "client s = None"
  shows "wp connect (\<lambda>_ t. client_inv t \<and> settled (trail s) t) never s"
  using assms new_live_inv
  by (auto simp: connect_def wp_rules client_inv_def retry_scan_append settled_def)

lemma wp_disconnect:
  assumes "client_inv s"
  shows "wp disconnect (\<lambda>_ t. client_inv t \<and> client t = None \<and>
      retried_on_454_error t = retried_on_454_error s \<and> (\<exists>ns. trail t = trail s @ ns)) never s"
  using assms by (cases "client s")
    (auto simp: disconnect_def wp_rules wp_teardown client_inv_def retry_scan_append split: option.splits)

lemma wp_sessionFailed:
  assumes inv: "client_inv s" and idle: "\<forall>c. client s = Some c \<longrightarrow> pending c = None"
  shows "wp (sessionFailed code msg) (\<lambda>_ t. client_inv t \<and> settled (trail s) t) never s"
proof (cases "code = 454 \<and> \<not> retried_on_454_error s")
  case True
  let ?s = "s\<lparr>trail := trail s @ [Workaround454], retried_on_454_error := True\<rparr>"
  have "client_inv ?s" using inv True by (simp add: client_inv_def retry_scan_append)
  from wp_disconnect [OF this] have "wp (thn disconnect connect) (\<lambda>_ t. client_inv t \<and> settled (trail s) t) never ?s"
    unfolding wp_thn
  proof (rule wp_mono)
    fix t
    assume "client_inv t \<and> client t = None \<and> retried_on_454_error t = retried_on_454_error ?s \<and>
      (\<exists>ns. trail t = trail ?s @ ns)"
    then obtain ns where t: "client_inv t" "client t = None" "trail t = trail s @ Workaround454 # ns" by auto
    from wp_connect [OF t(1,2)] show "wp connect (\<lambda>_ t. client_inv t \<and> settled (trail s) t) never t"
      unfolding t(3) by (rule wp_settled_later)
  qed
  with True show ?thesis by (simp add: sessionFailed_def wp_bnd wp_gets wp_thn [of "emit _"] wp_thn [of "upd _"] wp_emit wp_upd)
next
  case False
  with inv show ?thesis
    by (auto simp: sessionFailed_def wp_rules client_inv_def retry_scan_append settled_def)
qed

text \<open>The first subsession that can be played.\<close>

primrec first_playable :: "nat \<Rightarrow> subsession list \<Rightarrow> nat option" where
  "first_playable k [] = None"
| "first_playable k (ss # rest) = (if playable ss then Some k else first_playable (k + 1) rest)"

definition next_request :: "live_client \<Rightarrow> nat \<Rightarrow> subsession list \<Rightarrow> rtsp_note list" where
  "next_request c k rest =
     (if has_video c then [SessionReady, Send PLAY]
      else case first_playable k rest of
        Some i \<Rightarrow> [Send (SETUP i)]
      | None \<Rightarrow> teardown_notes c @ [SessionFailed 415 ''no playable media subsession''])"

lemma wp_setup_next:
  assumes "client_inv s" and "client s = Some c" and "pending c = None" and "\<not> session_active c"
    and "sdp_session c = Some subs" and "rest = drop k subs"
  shows "wp (setup_next k rest)
    (\<lambda>_ t. client_inv t \<and> settled (trail s) t \<and> trail t = trail s @ next_request c k rest) never s"
  using assms
proof (induction rest arbitrary: k s c)
  case Nil
  let ?c = "c\<lparr>current := None, iter := None\<rparr>"
  have live: "live_inv c" using Nil.prems(1,2) by (simp add: client_inv_def)
  show ?case
  proof (cases "has_video c")
    case True
    with Nil.prems live show ?thesis
      by (simp add: wp_rules client_inv_defs settled_def next_request_def playing_def)
  next
    case False
    let ?s = "s\<lparr>client := Some (torn_down ?c), trail := trail s @ teardown_notes c\<rparr>"
    have same: "teardown_notes ?c = teardown_notes c" by (simp add: teardown_notes_def)
    have inv': "client_inv ?s"
      using Nil.prems(1,3) live_inv_torn_down [of ?c] by (simp add: client_inv_def retry_scan_append)
    then have "wp (sessionFailed 415 ''no playable media subsession'')
        (\<lambda>_ t. client_inv t \<and> settled (trail s) t \<and> trail t = trail s @ next_request c k []) never ?s"
      using False by (simp add: sessionFailed_def wp_rules client_inv_def retry_scan_append settled_def next_request_def)
    with False Nil.prems show ?thesis
      by (simp add: wp_thn wp_bnd wp_upd_live wp_deref wp_teardown same)
  qed
next
  case (Cons ss rest)
  let ?c = "c\<lparr>current := Some k, iter := Some (k + 1)\<rparr>" and ?s = "s\<lparr>client := Some (c\<lparr>current := Some k, iter := Some (k + 1)\<rparr>)\<rparr>"
  have lt: "k < length subs" using Cons.prems(6) by (metis drop_all linorder_not_le list.distinct(1))
  have k: "k < length subs" "ss = subs ! k" "rest = drop (k + 1) subs"
    using trans [OF Cons.prems(6) Cons_nth_drop_Suc [OF lt, symmetric]] lt by simp_all
  have live: "live_inv c" using Cons.prems(1,2) by (simp add: client_inv_def)
  show ?case
  proof (cases "playable ss \<and> \<not> has_video c")
    case True
    with Cons.prems(1-5) live lt k(2) show ?thesis
      by (auto simp: wp_rules playable_def client_inv_defs settled_def next_request_def playing_def)
  next
    case False
    have inv': "client_inv ?s"
      using Cons.prems(1-5) live by (simp add: client_inv_defs playing_def)
    have "wp (setup_next (k + 1) rest)
        (\<lambda>_ t. client_inv t \<and> settled (trail ?s) t \<and> trail t = trail ?s @ next_request ?c (k + 1) rest) never ?s"
      by (rule Cons.IH [OF inv']) (use Cons.prems(3-5) k(3) in simp_all)
    moreover have "teardown_notes ?c = teardown_notes c" by (simp add: teardown_notes_def)
    then have "next_request ?c (k + 1) rest = next_request c k (ss # rest)"
      using False by (auto simp: next_request_def split: option.split)
    ultimately show ?thesis
      using False Cons.prems(2) by (auto simp: wp_thn wp_bnd wp_upd_live wp_deref playable_def)
  qed
qed

text \<open>Between two requests of a connection.\<close>

definition setting_up :: "live_client \<Rightarrow> nat \<Rightarrow> bool" where
  "setting_up c k \<longleftrightarrow> pending c = None \<and> \<not> session_active c \<and> iter c = Some k \<and> sdp_session c \<noteq> None"

lemma wp_setupNextSubsession:
  assumes "client_inv s" and "client s = Some c" and "setting_up c k" and "sdp_session c = Some subs"
  shows "wp setupNextSubsession
    (\<lambda>_ t. client_inv t \<and> settled (trail s) t \<and> trail t = trail s @ next_request c k (drop k subs)) never s"
  using wp_setup_next [OF assms(1,2) _ _ assms(4) refl, of k] assms
  by (simp add: setupNextSubsession_def wp_bnd wp_deref wp_lift_op setting_up_def)

lemma playing_fresh: "playing (c\<lparr>sdp_session := Some (map (\<lambda>ss. ss\<lparr>ss_sink := None\<rparr>) subs)\<rparr>) = 0"
  by (simp add: playing_def)

lemma quiet_live:
  "pending c = None \<Longrightarrow> \<not> session_active c \<Longrightarrow> \<not> timeout_task c \<Longrightarrow> playing c = 0 \<Longrightarrow> live_inv c"
  by (simp add: live_inv_def pending_ok_def)

lemma wp_continueAfterDESCRIBE:
  assumes inv: "client_inv s" and c: "client s = Some c" "pending c = None" "\<not> session_active c"
    "sdp_session c = None"
    and parsed: "parsed = map_option (map (\<lambda>ss. ss\<lparr>ss_sink := None\<rparr>)) sdp"
  shows "wp (continueAfterDESCRIBE code msg parsed) (\<lambda>_ t. client_inv t \<and> settled (trail s) t) never s"
    (is "wp _ ?Q _ s")
proof -
  have live: "live_inv c" and tick: "\<not> timeout_task c"
    using inv c(1,3) by (auto simp: client_inv_def live_inv_def)
  have inv': "client_inv (s\<lparr>client := Some d, trail := trail s @ teardown_notes e\<rparr>)"
    "client_inv (s\<lparr>client := Some d\<rparr>)" if "live_inv d" for d e
    using inv that by (simp_all add: client_inv_def retry_scan_append)
  let ?c = "c\<lparr>has_video := False\<rparr>"
  show ?thesis
  proof (cases "code = 0")
    case False
    with wp_sessionFailed [OF inv] c show ?thesis by (simp add: continueAfterDESCRIBE_def)
  next
    case ok: True
    show ?thesis
    proof (cases sdp)
      case None
      have "live_inv ?c" by (rule quiet_live) (use c tick in \<open>simp_all add: playing_def\<close>)
      from wp_sessionFailed [OF inv'(2) [OF this]] c(2)
      have "wp (sessionFailed 500 ''cannot create MediaSession'') ?Q never (s\<lparr>client := Some ?c\<rparr>)" by simp
      with ok None parsed c(1) show ?thesis
        by (simp add: continueAfterDESCRIBE_def wp_thn wp_upd_live)
    next
      case (Some subs)
      let ?subs = "map (\<lambda>ss. ss\<lparr>ss_sink := None\<rparr>) subs"
      let ?d = "?c\<lparr>sdp_session := Some ?subs\<rparr>"
      show ?thesis
      proof (cases "subs = []")
        case True
        have "live_inv (torn_down ?d)" by (rule live_inv_torn_down) (simp add: c(2))
        from wp_sessionFailed [OF inv'(1) [OF this, of ?d], of 415 "''no media subsession''"] c(2)
        have "wp (sessionFailed 415 ''no media subsession'')
            (\<lambda>_ t. client_inv t \<and> settled (trail s @ teardown_notes ?d) t) never
            (s\<lparr>client := Some (torn_down ?d), trail := trail s @ teardown_notes ?d\<rparr>)" by simp
        then have "wp (sessionFailed 415 ''no media subsession'') ?Q never
            (s\<lparr>client := Some (torn_down ?d), trail := trail s @ teardown_notes ?d\<rparr>)"
          by (rule wp_settled_later)
        with ok Some True parsed c(1) show ?thesis
          by (simp add: continueAfterDESCRIBE_def wp_thn wp_upd_live wp_teardown)
      next
        case False
        let ?e = "?d\<lparr>iter := Some 0\<rparr>"
        have "live_inv ?e" by (rule quiet_live) (use c tick in \<open>simp_all add: playing_def\<close>)
        then have "client_inv (s\<lparr>client := Some ?e\<rparr>)" by (rule inv'(2))
        from wp_setupNextSubsession [OF this, of ?e 0 ?subs] c
        have "wp setupNextSubsession (\<lambda>_ t. client_inv t \<and> settled (trail s) t \<and>
            trail t = trail s @ next_request ?e 0 ?subs) never (s\<lparr>client := Some ?e\<rparr>)"
          by (simp add: setting_up_def)
        then have "wp setupNextSubsession ?Q never (s\<lparr>client := Some ?e\<rparr>)"
          by (rule wp_mono) simp_all
        with ok Some False parsed c(1) show ?thesis
          by (simp add: continueAfterDESCRIBE_def wp_thn wp_upd_live)
      qed
    qed
  qed
qed

lemma filter_update_length: "length (filter P (xs[i := x])) \<le> Suc (length (filter P xs))"
  by (induction xs arbitrary: i) (auto split: nat.split simp: le_SucI)

lemma filter_clear:
  "length (filter P xs) \<le> 1 \<Longrightarrow> i < length xs \<Longrightarrow> P (xs ! i) \<Longrightarrow> \<not> P y \<Longrightarrow> filter P (xs[i := y]) = []"
proof (induction xs arbitrary: i)
  case (Cons x xs)
  show ?case
  proof (cases i)
    case 0
    with Cons.prems show ?thesis by simp
  next
    case (Suc j)
    then have "xs ! j \<in> set (filter P xs)" using Cons.prems by simp
    then have "0 < length (filter P xs)" by (metis length_pos_if_in_set)
    with Cons.prems(1) have "\<not> P x" "length (filter P xs) \<le> 1" by (auto split: if_splits)
    with Cons.IH [of j] Cons.prems Suc show ?thesis by simp
  qed
qed simp

lemma append_nals_fault: "append_nals buf nals = Inl f \<Longrightarrow> \<exists>e. f = Throw e"
  by (induction buf nals rule: append_nals.induct) (auto split: if_splits)

lemma FrameExtractor_fault: "FrameExtractor parse alive name sprops = Inl f \<Longrightarrow> \<exists>e. f = Throw e"
  by (auto simp: FrameExtractor_def Let_def dest: append_nals_fault split: if_splits option.splits sum.splits)

definition playing_now :: "nat \<Rightarrow> rtsp_note list \<Rightarrow> stream_client \<Rightarrow> bool" where
  "playing_now i past s \<longleftrightarrow> client_inv s \<and> (\<exists>ns. trail s = past @ ns) \<and> (\<exists>c. client s = Some c \<and> setting_up c (i + 1))"

lemma wp_play_subsession:
  assumes inv: "client_inv s" and c: "client s = Some c" "pending c = None" "\<not> session_active c"
    "\<not> has_video c" "current c = Some i" "iter c = Some (i + 1)" "sdp_session c = Some subs" "i < length subs"
  shows "wp (handle (play_subsession parse accepts) (\<lambda>e. ret ())) (\<lambda>_. playing_now i (trail s)) never s"
proof -
  let ?codec = "fromRTSPCodecName (ss_codec (subs ! i))"
  let ?s = "s\<lparr>trail := trail s @ [SubsessionStarted ?codec i]\<rparr>"
  have live: "live_inv c" and tick: "\<not> timeout_task c" and quiet: "playing c = 0"
    using inv c by (auto simp: client_inv_def live_inv_def)
  have inv1: "client_inv ?s" using inv by (simp add: client_inv_def retry_scan_append)
  have stay: "playing_now i (trail s) ?s" using inv1 c by (auto simp: playing_now_def setting_up_def)
  have sub: "current_subsession c = Inr (i, subs ! i)" using c by (simp add: current_subsession_def)
  show ?thesis
  proof (cases "accepts ?codec")
    case (Some e)
    with c(1) sub stay show ?thesis
      by (simp add: play_subsession_def wp_handle wp_bnd wp_deref wp_lift_op Let_def wp_thn wp_emit wp_fail wp_ret)
  next
    case none: None
    show ?thesis
    proof (cases "FrameExtractor parse True (ss_codec (subs ! i)) (ss_sprops (subs ! i))")
      case (Inl f)
      with FrameExtractor_fault [OF Inl] none c(1) sub stay show ?thesis
        by (auto simp: play_subsession_def wp_handle wp_bnd wp_deref wp_lift_op Let_def wp_thn wp_emit wp_ret)
    next
      case (Inr x)
      let ?f = "\<lambda>ss. ss\<lparr>ss_sink := Some (continuePlaying x)\<rparr>"
      let ?d = "(upd_subsession i ?f c)\<lparr>has_video := True\<rparr>"
      have subs': "sdp_session ?d = Some (subs[i := ?f (subs ! i)])"
        using c by (simp add: upd_subsession_def)
      have "filter (\<lambda>ss. ss_sink ss \<noteq> None) subs = []" using quiet c(7) by (simp add: playing_def)
      then have "length (filter (\<lambda>ss. ss_sink ss \<noteq> None) (subs[i := ?f (subs ! i)])) \<le> 1"
        using filter_update_length [of "\<lambda>ss. ss_sink ss \<noteq> None" subs i "?f (subs ! i)"] by simp
      then have one: "playing ?d \<le> 1" unfolding playing_def subs' by simp
      have rest: "pending ?d = None" "\<not> session_active ?d" "\<not> timeout_task ?d" "iter ?d = Some (i + 1)"
        using c tick by (simp_all add: upd_subsession_def)
      have "live_inv ?d" using one rest by (simp add: live_inv_def pending_ok_def)
      with inv1 have "client_inv (?s\<lparr>client := Some ?d, c_codec := ?codec\<rparr>)"
        by (simp add: client_inv_def)
      then have "playing_now i (trail s) (?s\<lparr>client := Some ?d, c_codec := ?codec\<rparr>)"
        using rest subs' by (auto simp: playing_now_def setting_up_def)
      with none Inr c(1) sub show ?thesis
        by (simp add: play_subsession_def wp_handle wp_bnd wp_deref wp_lift_op Let_def wp_thn wp_emit
            wp_ret wp_upd_live wp_upd)
    qed
  qed
qed

lemma wp_continueAfterSETUP:
  assumes inv: "client_inv s" and c: "client s = Some c" "pending c = None" "\<not> session_active c"
    "\<not> has_video c" "current c = Some i" "iter c = Some (i + 1)" "sdp_session c = Some subs" "i < length subs"
  shows "wp (continueAfterSETUP parse accepts code) (\<lambda>_ t. client_inv t \<and> settled (trail s) t) never s"
proof -
  have cont: "wp setupNextSubsession (\<lambda>_ t. client_inv t \<and> settled (trail s) t) never t" if t: "playing_now i (trail s) t" for t
  proof -
    from t obtain d subs ns where d: "client_inv t" "client t = Some d" "setting_up d (i + 1)" "sdp_session d = Some subs"
      and ns: "trail t = trail s @ ns"
      by (auto simp: playing_now_def setting_up_def)
    have "wp setupNextSubsession (\<lambda>_ u. client_inv u \<and> settled (trail t) u) never t"
      by (rule wp_mono [OF wp_setupNextSubsession [OF d]]) auto
    then show ?thesis unfolding ns by (rule wp_settled_later)
  qed
  have "playing_now i (trail s) s" using inv c by (auto simp: playing_now_def setting_up_def)
  with wp_play_subsession [OF assms, of parse accepts] show ?thesis
    unfolding continueAfterSETUP_def wp_thn wp_whenb
    by (cases "code = 0") (auto intro: cont elim!: wp_mono)
qed

lemma wp_continueAfterPLAY:
  assumes inv: "client_inv s" and c: "client s = Some c" "pending c = None" "\<not> session_active c" "has_video c"
  shows "wp (continueAfterPLAY code msg) (\<lambda>_ t. client_inv t \<and> settled (trail s) t) never s"
proof (cases "code = 0")
  case True
  with assms show ?thesis
    by (auto simp: continueAfterPLAY_def sessionStarted_def wp_rules client_inv_defs settled_def playing_def)
next
  case False
  let ?s = "s\<lparr>client := Some (torn_down c), trail := trail s @ teardown_notes c\<rparr>"
  have "client_inv ?s"
    using inv c(2) live_inv_torn_down by (simp add: client_inv_def retry_scan_append)
  from wp_sessionFailed [OF this, of code msg] c(2)
  have "wp (sessionFailed code msg) (\<lambda>_ t. client_inv t \<and> settled (trail s @ teardown_notes c) t) never ?s"
    by simp
  then have "wp (sessionFailed code msg) (\<lambda>_ t. client_inv t \<and> settled (trail s) t) never ?s"
    by (rule wp_settled_later)
  with False c(1) show ?thesis by (simp add: continueAfterPLAY_def wp_thn wp_teardown)
qed

lemma wp_subsessionAfterPlaying:
  assumes inv: "client_inv s" and c: "client s = Some c"
    and sink: "Option.bind (subsession_at s i) ss_sink \<noteq> None"
  shows "wp (subsessionAfterPlaying i) (\<lambda>_ t. client_inv t \<and>
      (\<exists>ns. trail t = trail s @ ns @ [SessionFinished]) \<and> client t \<noteq> None) never s"
proof -
  obtain subs where subs: "sdp_session c = Some subs" "i < length subs" "ss_sink (subs ! i) \<noteq> None"
    using c sink by (auto simp: subsession_at_def split: option.splits if_splits)
  let ?f = "\<lambda>ss. ss\<lparr>ss_sink := None\<rparr>"
  let ?d = "upd_subsession i ?f c"
  have live: "live_inv c" using inv c by (simp add: client_inv_def)
  have one: "length (filter (\<lambda>ss. ss_sink ss \<noteq> None) subs) \<le> 1"
    using live subs by (simp add: live_inv_def playing_def)
  have clear: "filter (\<lambda>ss. ss_sink ss \<noteq> None) (subs[i := ?f (subs ! i)]) = []"
    by (rule filter_clear [OF one subs(2,3)]) simp
  have "subs ! i \<in> set (filter (\<lambda>ss. ss_sink ss \<noteq> None) subs)" using subs by simp
  then have "0 < playing c" unfolding playing_def subs(1) option.case by (rule length_pos_if_in_set)
  then have has: "has_video c" using live by (simp add: live_inv_def)
  have d: "sdp_session ?d = Some (subs[i := ?f (subs ! i)])" "pending ?d = pending c" "has_video ?d = has_video c"
    using subs by (simp_all add: upd_subsession_def)
  have "live_inv (torn_down ?d)"
    using live has subs(1) d by (auto simp: live_inv_def pending_ok_def split: option.splits request.splits)
  then have inv': "client_inv (s\<lparr>trail := trail s @ ns @ [SessionFinished], client := Some (torn_down ?d)\<rparr>)"
    if "retry_scan ns (retry_scan (trail s) (False, True)) = retry_scan (trail s) (False, True)" for ns
    using inv that by (simp add: client_inv_def retry_scan_append)
  have none: "\<not> (\<exists>ss \<in> set (subs[i := ?f (subs ! i)]). ss_sink ss \<noteq> None)"
    using clear by (simp add: filter_empty_conv)
  have "wp (subsessionAfterPlaying i) Q E s = Q () (s\<lparr>trail := trail s @
      (SubsessionFinished i # teardown_notes ?d) @ [SessionFinished], client := Some (torn_down ?d)\<rparr>)" for Q E
    using c d(1) none
    by (simp add: subsessionAfterPlaying_def wp_thn wp_emit wp_upd_live wp_bnd wp_deref wp_teardown
        del: bex_simps) (cases s, simp)
  with inv' [of "SubsessionFinished i # teardown_notes ?d"] show ?thesis by simp
qed

lemma playing_upd:
  assumes "\<And>ss. ss_sink (f ss) = None \<longleftrightarrow> ss_sink ss = None"
  shows "playing (upd_subsession i f c) = playing c"
proof (cases "sdp_session c")
  case (Some subs)
  have "length (filter (\<lambda>ss. ss_sink ss \<noteq> None) (subs[i := f (subs ! i)])) =
      length (filter (\<lambda>ss. ss_sink ss \<noteq> None) subs)" if "i < length subs"
    using that
  proof (induction subs arbitrary: i)
    case (Cons x xs)
    then show ?case by (cases i) (simp_all add: assms del: not_None_eq)
  qed simp
  with Some show ?thesis by (simp add: upd_subsession_def playing_def)
qed (simp add: upd_subsession_def playing_def)

lemma live_inv_upd:
  assumes "live_inv c" and "\<And>ss. ss_sink (f ss) = None \<longleftrightarrow> ss_sink ss = None"
    and "\<And>ss. playable (f ss) = playable ss"
  shows "live_inv (upd_subsession i f c)"
proof -
  have same: "pending (upd_subsession i f c) = pending c" "has_video (upd_subsession i f c) = has_video c"
    "current (upd_subsession i f c) = current c" "iter (upd_subsession i f c) = iter c"
    "sdp_session (upd_subsession i f c) = None \<longleftrightarrow> sdp_session c = None"
    by (simp_all add: upd_subsession_def)
  have sub: "\<exists>subs'. sdp_session (upd_subsession i f c) = Some subs' \<and> k < length subs' \<and> playable (subs' ! k)"
    if "sdp_session c = Some subs" "k < length subs" "playable (subs ! k)" for k subs
    using that assms(3) by (auto simp: upd_subsession_def nth_list_update)
  have "pending_ok (upd_subsession i f c)"
  proof (cases "\<exists>k. pending c = Some (SETUP k)")
    case True
    then obtain k where k: "pending c = Some (SETUP k)" by blast
    with assms(1) obtain subs where "sdp_session c = Some subs" "k < length subs" "playable (subs ! k)"
      by (auto simp: live_inv_def pending_ok_def)
    from sub [OF this] assms(1) k same show ?thesis by (simp add: live_inv_def pending_ok_def)
  next
    case False
    with assms(1) same show ?thesis
      by (simp add: live_inv_def pending_ok_def split: option.splits request.splits)
  qed
  moreover have "timeout_task (upd_subsession i f c) = timeout_task c"
    "session_active (upd_subsession i f c) = session_active c" "l_timeout (upd_subsession i f c) = l_timeout c"
    "pending (upd_subsession i f c) = pending c" "has_video (upd_subsession i f c) = has_video c"
    by (simp_all add: upd_subsession_def)
  ultimately show ?thesis using assms(1) playing_upd [OF assms(2)] by (simp add: live_inv_def)
qed

lemma retry_scan_data: "retry_scan (map (\<lambda>(codec, f). ReceiveData codec i f) xs) st = st"
  by (induction xs) auto

lemma arrive_inv: "client_inv s \<Longrightarrow> client_inv (arrive mk_time pad i a s)"
proof -
  assume inv: "client_inv s"
  show ?thesis
  proof (cases "Option.bind (subsession_at s i) ss_sink")
    case None
    with inv show ?thesis by (simp add: arrive_def)
  next
    case (Some x)
    let ?f = "\<lambda>ss. ss\<lparr>ss_sink := Some (ext_step mk_time pad x a)\<rparr>"
    obtain c subs where c: "client s = Some c" "sdp_session c = Some subs" "i < length subs" "ss_sink (subs ! i) = Some x"
      using Some by (auto simp: subsession_at_def bind_eq_Some_conv split: option.splits if_splits)
    have "upd_subsession i ?f c = upd_subsession i (\<lambda>ss. if ss_sink ss = None then ss else ?f ss) c"
      using c by (simp add: upd_subsession_def)
    moreover have "live_inv (upd_subsession i (\<lambda>ss. if ss_sink ss = None then ss else ?f ss) c)"
      by (rule live_inv_upd) (use inv c in \<open>auto simp: client_inv_def playable_def\<close>)
    ultimately have "live_inv (upd_subsession i ?f c)" by simp
    with inv Some c show ?thesis
      by (simp add: arrive_def Let_def client_inv_def retry_scan_append retry_scan_data)
  qed
qed

lemma wp_checkTimeout:
  assumes "client_inv s" and "client s = Some c" and "timeout_task c"
  shows "wp checkTimeout (\<lambda>_. client_inv) never s"
proof -
  have live: "live_inv c" using assms by (simp add: client_inv_def)
  have "live_inv (c\<lparr>timeout_task := False\<rparr>)" "live_inv (c\<lparr>received_packets := n, timeout_task := True\<rparr>)" for n
    using live assms(3) by (auto simp: live_inv_def pending_ok_def playing_def split: option.splits request.splits)
  with assms show ?thesis
    by (auto simp: checkTimeout_def wp_rules client_inv_def retry_scan_append split: option.splits)
qed

text \<open>A reply settles the connection when it answers the outstanding request.\<close>

definition answers :: "client_event \<Rightarrow> request \<Rightarrow> bool" where
  "answers e r \<longleftrightarrow>
     (case e of
        DescribeReply _ _ _ \<Rightarrow> r = DESCRIBE
      | SetupReply _ _ \<Rightarrow> is_setup r
      | PlayReply _ _ \<Rightarrow> r = PLAY
      | _ \<Rightarrow> False)"

lemma wp_reply:
  assumes inv: "client_inv s" and c: "client s = Some c" "pending c = Some r" and a: "answers e r"
  shows "wp (client_op parse mk_time pad e) (\<lambda>_ t. client_inv t \<and> settled (trail s) t) never s"
proof -
  let ?c = "c\<lparr>pending := None\<rparr>" and ?s = "s\<lparr>client := Some (c\<lparr>pending := None\<rparr>)\<rparr>"
  have live: "live_inv c" using inv c by (simp add: client_inv_def)
  then have act: "\<not> session_active c" and tick: "\<not> timeout_task c" and ok: "pending_ok c"
    using c(2) by (auto simp: live_inv_def)
  have "live_inv ?c" using live tick act by (auto simp: live_inv_def pending_ok_def playing_def)
  then have inv': "client_inv ?s" using inv by (simp add: client_inv_def)
  show ?thesis
  proof (cases e)
    case (DescribeReply code msg sdp)
    with a ok c have "sdp_session c = None" by (auto simp: answers_def pending_ok_def)
    with wp_continueAfterDESCRIBE [OF inv', of ?c _ sdp code msg] act
    have "wp (continueAfterDESCRIBE code msg (map_option (map (\<lambda>ss. ss\<lparr>ss_sink := None\<rparr>)) sdp))
        (\<lambda>_ t. client_inv t \<and> settled (trail s) t) never ?s" by simp
    with DescribeReply a c show ?thesis
      by (simp add: client_op_def on_reply_def wp_bnd wp_gets wp_whenb wp_thn wp_upd_live answers_def)
  next
    case (SetupReply code accepts)
    with a obtain i where r: "r = SETUP i" by (auto simp: answers_def)
    with ok c(2) obtain subs where "\<not> has_video c" "current c = Some i" "iter c = Some (i + 1)"
      "sdp_session c = Some subs" "i < length subs"
      by (auto simp: pending_ok_def)
    with wp_continueAfterSETUP [OF inv', of ?c i subs parse accepts code] act
    have "wp (continueAfterSETUP parse accepts code) (\<lambda>_ t. client_inv t \<and> settled (trail s) t) never ?s" by simp
    with SetupReply r c show ?thesis
      by (simp add: client_op_def on_reply_def wp_bnd wp_gets wp_whenb wp_thn wp_upd_live)
  next
    case (PlayReply code msg)
    with a ok c have "has_video c" by (auto simp: answers_def pending_ok_def)
    with wp_continueAfterPLAY [OF inv', of ?c code msg] act
    have "wp (continueAfterPLAY code msg) (\<lambda>_ t. client_inv t \<and> settled (trail s) t) never ?s" by simp
    with PlayReply a c show ?thesis
      by (simp add: client_op_def on_reply_def wp_bnd wp_gets wp_whenb wp_thn wp_upd_live answers_def)
  qed (use a in \<open>simp_all add: answers_def\<close>)
qed

lemma wp_client_op:
  assumes inv: "client_inv s"
  shows "wp (client_op parse mk_time pad e) (\<lambda>_. client_inv)
    (\<lambda>f t. client_inv t \<and> e = Connect \<and> client s \<noteq> None \<and>
      f = Throw (StreamingError ''client is connected already'')) s"
proof (cases "\<exists>c r. client s = Some c \<and> pending c = Some r \<and> answers e r")
  case True
  then obtain c r where "client s = Some c" "pending c = Some r" "answers e r" by blast
  from wp_reply [OF inv this] show ?thesis by (rule wp_mono) simp_all
next
  case not_answer: False
  show ?thesis
  proof (cases e)
    case Connect
    show ?thesis
    proof (cases "client s")
      case None
      from wp_connect [OF inv None] Connect show ?thesis
        by (auto simp: client_op_def elim!: wp_mono)
    next
      case (Some c)
      with Connect inv show ?thesis by (simp add: client_op_def connect_def wp_rules)
    qed
  next
    case Disconnect
    from wp_disconnect [OF inv] Disconnect show ?thesis
      by (auto simp: client_op_def elim!: wp_mono)
  next
    case (SetTimeout t)
    with inv show ?thesis
      by (auto simp: client_op_def wp_upd setSessionTimeout_def client_inv_def live_setSessionTimeout_inv)
  next
    case (Ends i)
    with inv show ?thesis
    proof (cases "Option.bind (subsession_at s i) ss_sink")
      case (Some x)
      then obtain c where "client s = Some c" by (cases "client s") (auto simp: subsession_at_def)
      from wp_subsessionAfterPlaying [OF inv this, of i] Some
      have "wp (subsessionAfterPlaying i) (\<lambda>_. client_inv) (\<lambda>f t. client_inv t \<and> e = Connect \<and>
          client s \<noteq> None \<and> f = Throw (StreamingError ''client is connected already'')) s"
        by (auto elim!: wp_mono)
      with Some Ends show ?thesis by (simp add: client_op_def wp_bnd wp_gets wp_whenb)
    qed (simp add: client_op_def wp_rules)
  next
    case TimerExpires
    with inv wp_checkTimeout [OF inv] show ?thesis
      by (cases "client s") (auto simp: client_op_def wp_bnd wp_gets wp_whenb elim!: wp_mono)
  next
    case (Packet i)
    have "live_inv c \<Longrightarrow> live_inv (upd_subsession i more_packets c)" for c
      by (rule live_inv_upd) (simp_all add: more_packets_def playable_def)
    with Packet inv show ?thesis by (auto simp: client_op_def wp_upd client_inv_def)
  next
    case (Arrives i a)
    with inv show ?thesis by (simp add: client_op_def wp_upd arrive_inv)
  qed (use not_answer inv in \<open>auto simp: client_op_def on_reply_def wp_rules answers_def split: option.splits\<close>)
qed

definition client_step ::
  "(string \<Rightarrow> byte list list) \<Rightarrow> (int \<Rightarrow> nat \<Rightarrow> fault + stamp) \<Rightarrow> nat \<Rightarrow> stream_client \<Rightarrow> client_event \<Rightarrow> stream_client"
  where "client_step parse mk_time pad s e = snd (client_op parse mk_time pad e s)"

interpretation client_machine: stepper "client_step parse mk_time pad" client_inv
  for parse mk_time pad
proof
  fix s e
  assume inv: "client_inv s"
  have "wp (client_op parse mk_time pad e) (\<lambda>_. client_inv) (\<lambda>_. client_inv) s"
    by (rule wp_mono [OF wp_client_op [OF inv]]) simp_all
  from wp_state [OF this] show "client_inv (client_step parse mk_time pad s e)"
    by (simp add: client_step_def)
qed

abbreviation client_run ::
  "(string \<Rightarrow> byte list list) \<Rightarrow> (int \<Rightarrow> nat \<Rightarrow> fault + stamp) \<Rightarrow> nat \<Rightarrow> string \<Rightarrow> client_event list \<Rightarrow> stream_client"
  where "client_run parse mk_time pad url es \<equiv> foldl (client_step parse mk_time pad) (new_client url) es"

lemma client_run_inv: "client_inv (client_run parse mk_time pad url es)"
  by (rule client_machine.run_inv) (simp add: new_client_def client_inv_def)

end
