(* ===== verification/Client_Run.thy ===== *)
theory Client_Run
  imports Stream_Client
begin

text \<open>
  What the RTSP client (theory \<open>Stream_Client\<close>) guarantees in every state that it reaches,
  whatever the server answers, in whatever order things happen.
\<close>

section \<open>A client at work\<close>

abbreviation no_sprops :: "string \<Rightarrow> byte list list" where
  "no_sprops sp \<equiv> []"

abbreviation plain_time :: "int \<Rightarrow> nat \<Rightarrow> fault + stamp" where
  "plain_time s ns \<equiv> Inr (s * 1000000000 + int ns)"

definition audio_then_video :: "subsession list" where
  "audio_then_video =
     [\<lparr>ss_codec = ''OPUS'', ss_initiates = True, ss_sprops = None, ss_packets = None, ss_sink = None\<rparr>,
      \<lparr>ss_codec = ''JPEG'', ss_initiates = True, ss_sprops = None, ss_packets = Some 0, ss_sink = None\<rparr>]"

definition described :: "client_event list" where
  "described = [SetTimeout 2000, Connect, DescribeReply 0 [] (Some audio_then_video)]"

definition played :: "client_event list" where
  "played = described @ [SetupReply 0 (\<lambda>_. None)]"

definition active :: "client_event list" where
  "active = played @ [PlayReply 0 [], Packet 1]"

abbreviation at_work :: "client_event list \<Rightarrow> stream_client" where
  "at_work es \<equiv> client_run no_sprops plain_time 64 ''rtsp://camera'' es"

lemmas client_eval = described_def played_def active_def audio_then_video_def client_step_def
  client_op_def on_reply_def op_defs emit_def upd_live_def send_def new_client_def new_live_def
  setSessionTimeout_def live_setSessionTimeout_def connect_def continueAfterDESCRIBE_def
  setupNextSubsession_def continueAfterSETUP_def play_subsession_def current_subsession_def
  continueAfterPLAY_def sessionStarted_def upd_subsession_def FrameExtractor_def Let_def
  fromRTSPCodecName_def more_packets_def

lemma described_client:
  "\<exists>c. client (at_work described) = Some c \<and> pending c = Some (SETUP 1) \<and>
     sdp_session c = Some audio_then_video"
  by (simp add: client_eval)

lemma played_client:
  "\<exists>c. client (at_work played) = Some c \<and> pending c = Some PLAY \<and>
     Option.bind (subsession_at (at_work played) 1) ss_sink \<noteq> None"
  by (simp add: client_eval continuePlaying_def subsession_at_def)

lemma active_client:
  "\<exists>c. client (at_work active) = Some c \<and> timeout_task c \<and> session_active c \<and>
     sdp_session c \<noteq> None \<and> received_packets c = 0 \<and>
     map ss_packets (the (sdp_session c)) = [None, Some 1]"
  by (simp add: client_eval continuePlaying_def)

section \<open>Every request is followed up\<close>

lemma client_op_step: "client_op parse mk_time pad e s = (r, t) \<Longrightarrow> client_step parse mk_time pad s e = t"
  by (simp add: client_step_def)

text \<open>
  C8: when the server answers the outstanding request of a connection, with success or with an
  error, the client does not get stuck: afterwards the next request is out, or the session is
  active and was reported, or the failure was reported to the subscriber.
\<close>

theorem client_replies_settle:
  assumes "s = client_run parse mk_time pad url es"
    and "client s = Some c" and "pending c = Some r" and "answers e r"
  shows "fst (client_op parse mk_time pad e s) = Inr () \<and> settled (trail s) (client_step parse mk_time pad s e)"
proof -
  have "client_inv s" unfolding assms(1) by (rule client_run_inv)
  from wp_reply [OF this assms(2-4), of parse mk_time pad] show ?thesis
    by (auto simp: wp_def client_step_def split: prod.splits sum.splits)
qed

theorem client_replies_settle_witness:
  "\<exists>c r. client (at_work described) = Some c \<and> pending c = Some r \<and> answers (SetupReply 454 (\<lambda>_. None)) r \<and>
     settled (trail (at_work described)) (client_step no_sprops plain_time 64 (at_work described) (SetupReply 454 (\<lambda>_. None)))"
proof -
  from described_client obtain c where c: "client (at_work described) = Some c" "pending c = Some (SETUP 1)" by blast
  have a: "answers (SetupReply 454 (\<lambda>_. None)) (SETUP 1)" by (simp add: answers_def)
  from client_replies_settle [OF refl c a] c a show ?thesis by blast
qed

text \<open>
  No event makes the client touch a null pointer or a subsession that is not there. The only
  failure is the exception of \<open>connect\<close> on a connected client.
\<close>

theorem client_never_faults:
  assumes "client_op parse mk_time pad e (client_run parse mk_time pad url es) = (Inl f, t)"
  shows "e = Connect \<and> client (client_run parse mk_time pad url es) \<noteq> None \<and>
    f = Throw (StreamingError ''client is connected already'') \<and> t = client_run parse mk_time pad url es"
proof -
  let ?s = "client_run parse mk_time pad url es"
  from wp_fault [OF wp_client_op [OF client_run_inv] assms] have
    *: "e = Connect" "client ?s \<noteq> None" "f = Throw (StreamingError ''client is connected already'')" by simp_all
  with assms show ?thesis by (auto simp: client_op_def connect_def op_defs split: if_splits)
qed

theorem client_never_faults_witness:
  "client_op no_sprops plain_time 64 Connect (at_work active) =
     (Inl (Throw (StreamingError ''client is connected already'')), at_work active)"
proof -
  from active_client obtain c where "client (at_work active) = Some c" by blast
  then have "fst (client_op no_sprops plain_time 64 Connect (at_work active)) \<noteq> Inr ()"
    by (simp add: client_op_def connect_def op_defs)
  then obtain f t where "client_op no_sprops plain_time 64 Connect (at_work active) = (Inl f, t)"
    by (cases "client_op no_sprops plain_time 64 Connect (at_work active)") (auto elim: sum.exhaust)
  with client_never_faults [OF this] show ?thesis by simp
qed

section \<open>One video stream per session\<close>

text \<open>
  C28: in every reachable state at most one subsession of the connection is played, and one is
  played only once the session is known to have video. PLAY is sent, and the session becomes
  active, only with video; an active session waits for no reply; and the watchdog timer runs
  only in an active session with a positive timeout.
\<close>

theorem client_session_invariant:
  assumes "client (client_run parse mk_time pad url es) = Some c"
  shows "playing c \<le> 1 \<and> (playing c = 1 \<longrightarrow> has_video c) \<and>
    (pending c = Some PLAY \<longrightarrow> has_video c \<and> \<not> session_active c) \<and>
    (session_active c \<longrightarrow> has_video c \<and> pending c = None) \<and>
    (timeout_task c \<longrightarrow> session_active c \<and> 0 < l_timeout c)"
proof -
  have "live_inv c" using client_run_inv assms unfolding client_inv_def by blast
  then show ?thesis by (auto simp: live_inv_def pending_ok_def)
qed

theorem client_session_invariant_witness:
  "\<exists>c. client (at_work active) = Some c \<and> timeout_task c \<and> playing c \<le> 1 \<and> has_video c \<and> 0 < l_timeout c"
proof -
  from active_client obtain c where c: "client (at_work active) = Some c" "timeout_task c" by blast
  from client_session_invariant [OF c(1)] c show ?thesis by blast
qed

section \<open>The workaround for a 454 reply\<close>

lemma retry_scan_bad: "\<not> snd st \<Longrightarrow> \<not> snd (retry_scan ns st)"
  by (induction ns st rule: retry_scan.induct) auto

lemma retry_scan_used: "fst st \<Longrightarrow> SessionStarted \<notin> set ns \<Longrightarrow> fst (retry_scan ns st)"
  by (induction ns st rule: retry_scan.induct) auto

lemma retry_scan_spaced:
  assumes "snd (retry_scan (as @ Workaround454 # bs @ Workaround454 # cs) (False, True))"
  shows "SessionStarted \<in> set bs"
proof (rule ccontr)
  assume no: "SessionStarted \<notin> set bs"
  let ?st = "retry_scan bs (True, snd (retry_scan as (False, True)) \<and> \<not> fst (retry_scan as (False, True)))"
  have "fst ?st" by (rule retry_scan_used) (simp_all add: no)
  then have "\<not> snd (retry_scan cs (True, snd ?st \<and> \<not> fst ?st))" by (intro retry_scan_bad) simp
  with assms show False by (simp add: retry_scan_append)
qed

text \<open>
  The workaround for a 454 reply, which connects anew without telling the subscriber, cannot
  loop: between two uses a session was started. The next failure is reported.
\<close>

theorem client_retries_once:
  assumes "trail (client_run parse mk_time pad url es) = as @ Workaround454 # bs @ Workaround454 # cs"
  shows "SessionStarted \<in> set bs"
proof (rule retry_scan_spaced)
  show "snd (retry_scan (as @ Workaround454 # bs @ Workaround454 # cs) (False, True))"
    using client_run_inv [of parse mk_time pad url es] unfolding client_inv_def assms [symmetric] by simp
qed

definition twice :: "client_event list" where
  "twice = [Connect, DescribeReply 454 [] None, DescribeReply 0 [] (Some audio_then_video),
     SetupReply 0 (\<lambda>_. None), PlayReply 0 [], Disconnect, Connect, DescribeReply 454 [] None]"

lemma twice_trail:
  "trail (at_work twice) = [Send DESCRIBE] @ Workaround454 # [Send DESCRIBE, Send (SETUP 1),
     SubsessionStarted MJPEG 1, SessionReady, Send PLAY, SessionStarted, SendTeardown, Send DESCRIBE] @
     Workaround454 # [Send DESCRIBE]"
  by (simp add: twice_def client_eval continuePlaying_def sessionFailed_def disconnect_def teardown_def)

theorem client_retries_once_witness:
  "\<exists>as bs cs. trail (at_work twice) = as @ Workaround454 # bs @ Workaround454 # cs \<and> SessionStarted \<in> set bs"
  using twice_trail client_retries_once [OF twice_trail] by blast

section \<open>Choosing the subsession\<close>

lemma next_request_fresh:
  "\<not> has_video c \<Longrightarrow> next_request c k rest =
     (case first_playable k rest of Some i \<Rightarrow> [Send (SETUP i)]
      | None \<Rightarrow> teardown_notes c @ [SessionFailed 415 ''no playable media subsession''])"
  by (simp add: next_request_def)

lemma first_playable_least:
  "first_playable k subs = Some i \<longleftrightarrow>
     k \<le> i \<and> i - k < length subs \<and> playable (subs ! (i - k)) \<and> (\<forall>j < i - k. \<not> playable (subs ! j))"
proof (induction subs arbitrary: k)
  case (Cons x xs)
  show ?case
  proof (cases "playable x")
    case True
    then show ?thesis by (auto simp: less_Suc_eq_0_disj)
  next
    case False
    show ?thesis
    proof (cases "i \<le> k")
      case True
      with False show ?thesis using Cons.IH [of "k + 1"] by auto
    next
      case later: False
      then obtain d where d: "i = k + Suc d" by (metis less_imp_Suc_add linorder_not_le add_Suc_right)
      have "(\<forall>j < Suc d. \<not> playable ((x # xs) ! j)) \<longleftrightarrow> (\<forall>j < d. \<not> playable (xs ! j))"
        using False by (auto simp: less_Suc_eq_0_disj)
      with False Cons.IH [of "k + 1"] d show ?thesis by simp
    qed
  qed
qed simp

abbreviation unplayed :: "subsession list \<Rightarrow> subsession list" where
  "unplayed subs \<equiv> map (\<lambda>ss. ss\<lparr>ss_sink := None\<rparr>) subs"

lemma first_playable_unplayed: "first_playable k (unplayed subs) = first_playable k subs"
  by (induction subs arbitrary: k) (simp_all add: playable_def)

lemma wp_exact: "(\<And>Q E. wp m Q E s = Q a t) \<Longrightarrow> m s = (Inr a, t)"
  using wp_def [of m "\<lambda>a' t'. a' = a \<and> t' = t" never s] by (auto split: prod.splits sum.splits)

lemma wp_trail: "wp m (\<lambda>_ t. P t \<and> Q t \<and> trail t = x) never s \<Longrightarrow> trail (snd (m s)) = x"
  by (auto simp: wp_def split: prod.splits sum.splits)

lemma step_on_reply:
  assumes "client s = Some c" and "pending c = Some r" and "is r"
  shows "on_reply is m s = m (s\<lparr>client := Some (c\<lparr>pending := None\<rparr>)\<rparr>)"
  using assms by (simp add: on_reply_def op_defs upd_live_def)

lemma waiting:
  assumes "client_inv s" and "client s = Some c" and "pending c = Some r"
  shows "live_inv (c\<lparr>pending := None\<rparr>)" "pending_ok c" "\<not> session_active c" "\<not> timeout_task c"
  using assms by (auto simp: client_inv_def live_inv_def pending_ok_def playing_def)

text \<open>
  A session description that was received leads to a SETUP request for its first subsession
  that can be initiated and has a known video codec; if there is none, the session is torn
  down and fails with code 415.
\<close>

theorem client_setup_first_playable:
  assumes "s = client_run parse mk_time pad url es"
    and c: "client s = Some c" "pending c = Some DESCRIBE" and some: "subs \<noteq> []"
  shows "trail (client_step parse mk_time pad s (DescribeReply 0 msg (Some subs))) = trail s @
    (case first_playable 0 subs of
       Some i \<Rightarrow> [Send (SETUP i)]
     | None \<Rightarrow> [SendTeardown, SessionFailed 415 ''no playable media subsession''])"
proof -
  have inv: "client_inv s" unfolding assms(1) by (rule client_run_inv)
  let ?c = "c\<lparr>pending := None, has_video := False, sdp_session := Some (unplayed subs), iter := Some 0\<rparr>"
  let ?s = "s\<lparr>client := Some ?c\<rparr>"
  note w = waiting [OF inv c]
  have "live_inv ?c" by (rule quiet_live) (use w in \<open>simp_all add: playing_def\<close>)
  then have "client_inv ?s" using inv by (simp add: client_inv_def)
  from wp_setupNextSubsession [OF this, of ?c 0 "unplayed subs"] w(3)
  have "wp setupNextSubsession (\<lambda>_ t. client_inv t \<and> settled (trail ?s) t \<and>
      trail t = trail s @ next_request ?c 0 (unplayed subs)) never ?s"
    by (simp add: setting_up_def)
  then have "trail (snd (setupNextSubsession ?s)) = trail s @ next_request ?c 0 (unplayed subs)"
    by (rule wp_trail)
  moreover have "client_step parse mk_time pad s (DescribeReply 0 msg (Some subs)) = snd (setupNextSubsession ?s)"
    using c some
    by (simp add: client_step_def client_op_def step_on_reply continueAfterDESCRIBE_def)
       (simp add: thn_def bnd_def upd_live_def deref_def upd_def)
  ultimately show ?thesis
    using some by (simp add: next_request_def first_playable_unplayed teardown_notes_def split: option.split)
qed

theorem client_setup_first_playable_witness:
  "\<exists>c. client (at_work [Connect]) = Some c \<and> pending c = Some DESCRIBE \<and>
     trail (client_step no_sprops plain_time 64 (at_work [Connect]) (DescribeReply 0 [] (Some audio_then_video))) =
       trail (at_work [Connect]) @ [Send (SETUP 1)]"
proof -
  obtain c where c: "client (at_work [Connect]) = Some c" "pending c = Some DESCRIBE"
    by (simp add: client_eval)
  have "audio_then_video \<noteq> []" by (simp add: audio_then_video_def)
  from client_setup_first_playable [OF refl c this, of "[]"] c show ?thesis
    by (simp add: audio_then_video_def playable_def fromRTSPCodecName_def)
qed

lemma play_subsession_ok:
  assumes c: "client s = Some c" and sub: "current_subsession c = Inr (i, ss)"
    and x: "FrameExtractor parse True (ss_codec ss) (ss_sprops ss) = Inr x"
    and ok: "accepts (fromRTSPCodecName (ss_codec ss)) = None"
  shows "handle (play_subsession parse accepts) (\<lambda>e. ret ()) s =
    (Inr (), s\<lparr>trail := trail s @ [SubsessionStarted (fromRTSPCodecName (ss_codec ss)) i],
       client := Some ((upd_subsession i (\<lambda>ss. ss\<lparr>ss_sink := Some (continuePlaying x)\<rparr>) c)\<lparr>has_video := True\<rparr>),
       c_codec := fromRTSPCodecName (ss_codec ss)\<rparr>)"
  using assms by (simp add: play_subsession_def op_defs emit_def upd_live_def Let_def)

lemma play_subsession_refused:
  assumes c: "client s = Some c" and sub: "current_subsession c = Inr (i, ss)"
    and bad: "accepts (fromRTSPCodecName (ss_codec ss)) \<noteq> None \<or>
      (\<exists>f. FrameExtractor parse True (ss_codec ss) (ss_sprops ss) = Inl f)"
  shows "handle (play_subsession parse accepts) (\<lambda>e. ret ()) s =
    (Inr (), s\<lparr>trail := trail s @ [SubsessionStarted (fromRTSPCodecName (ss_codec ss)) i]\<rparr>)"
proof (cases "accepts (fromRTSPCodecName (ss_codec ss))")
  case None
  with bad obtain f where f: "FrameExtractor parse True (ss_codec ss) (ss_sprops ss) = Inl f" by blast
  from FrameExtractor_fault [OF this] f None c sub show ?thesis
    by (auto simp: play_subsession_def op_defs emit_def Let_def)
next
  case (Some e)
  with c sub show ?thesis by (simp add: play_subsession_def op_defs emit_def Let_def)
qed

text \<open>The subsession that was set up is played.\<close>

definition plays :: "(string \<Rightarrow> byte list list) \<Rightarrow> (video_codec \<Rightarrow> exn option) \<Rightarrow> int \<Rightarrow> subsession \<Rightarrow> bool" where
  "plays parse accepts code ss \<longleftrightarrow> code = 0 \<and> accepts (fromRTSPCodecName (ss_codec ss)) = None \<and>
     \<not> isl (FrameExtractor parse True (ss_codec ss) (ss_sprops ss))"

text \<open>What the client holds while the next subsession is being looked for, and when PLAY is sent.\<close>

lemma setup_next_keeps:
  assumes "client s = Some c" and "has_video c \<or> first_playable k rest \<noteq> None"
  shows "\<exists>d. client (snd (setup_next k rest s)) = Some d \<and> sdp_session d = sdp_session c \<and>
    has_video d = has_video c \<and> c_codec (snd (setup_next k rest s)) = c_codec s \<and>
    pending d = Some (if has_video c then PLAY else SETUP (the (first_playable k rest)))"
  using assms
proof (induction rest arbitrary: k s c)
  case Nil
  then show ?case by (simp add: op_defs upd_live_def emit_def send_def)
next
  case (Cons ss rest)
  let ?c = "c\<lparr>current := Some k, iter := Some (k + 1)\<rparr>"
  show ?case
  proof (cases "playable ss \<and> \<not> has_video c")
    case True
    with Cons.prems show ?thesis by (simp add: op_defs upd_live_def emit_def send_def playable_def)
  next
    case False
    with Cons.IH [of "s\<lparr>client := Some ?c\<rparr>" ?c "k + 1"] Cons.prems show ?thesis
      by (auto simp: op_defs upd_live_def playable_def split: if_splits)
  qed
qed

lemma setup_next_gives_up:
  assumes "client s = Some c" and "\<not> has_video c" and "first_playable k rest = None"
  shows "\<exists>d. client (snd (setup_next k rest s)) = Some d \<and> sdp_session d = None \<and>
    \<not> has_video d \<and> c_codec (snd (setup_next k rest s)) = c_codec s"
  using assms
proof (induction rest arbitrary: k s c)
  case Nil
  then show ?case by (simp add: op_defs upd_live_def teardown_eq sessionFailed_def emit_def)
next
  case (Cons ss rest)
  let ?c = "c\<lparr>current := Some k, iter := Some (k + 1)\<rparr>"
  from Cons.IH [of "s\<lparr>client := Some ?c\<rparr>" ?c "k + 1"] Cons.prems show ?case
    by (auto simp: op_defs upd_live_def playable_def split: if_splits)
qed

lemma setupNextSubsession_eq:
  "client s = Some c \<Longrightarrow> iter c = Some k \<Longrightarrow> sdp_session c = Some subs \<Longrightarrow>
    setupNextSubsession s = setup_next k (drop k subs) s"
  by (simp add: setupNextSubsession_def op_defs)

lemma setup_reply_cases:
  assumes inv: "client_inv s" and c: "client s = Some c" "pending c = Some (SETUP i)" "sdp_session c = Some subs"
  obtains (played) x d t where "code = 0" "plays parse accepts code (subs ! i)"
      "FrameExtractor parse True (ss_codec (subs ! i)) (ss_sprops (subs ! i)) = Inr x"
      "sdp_session d = Some (subs[i := (subs ! i)\<lparr>ss_sink := Some (continuePlaying x)\<rparr>])" "has_video d"
      "t = s\<lparr>trail := trail s @ [SubsessionStarted (fromRTSPCodecName (ss_codec (subs ! i))) i],
         client := Some d, c_codec := fromRTSPCodecName (ss_codec (subs ! i))\<rparr>"
      "client_inv t" "setting_up d (i + 1)"
      "client_step parse mk_time pad s (SetupReply code accepts) = snd (setupNextSubsession t)"
  | (refused) d t where "\<not> plays parse accepts code (subs ! i)" "sdp_session d = Some subs" "\<not> has_video d"
      "t = s\<lparr>trail := trail s @
           (if code = 0 then [SubsessionStarted (fromRTSPCodecName (ss_codec (subs ! i))) i] else []),
         client := Some d\<rparr>"
      "client_inv t" "setting_up d (i + 1)"
      "client_step parse mk_time pad s (SetupReply code accepts) = snd (setupNextSubsession t)"
proof -
  let ?c = "c\<lparr>pending := None\<rparr>" and ?codec = "fromRTSPCodecName (ss_codec (subs ! i))"
  let ?s = "s\<lparr>client := Some ?c\<rparr>"
  note w = waiting [OF inv c(1,2)]
  from w(2) c have i: "i < length subs" "current c = Some i" "iter c = Some (i + 1)" "\<not> has_video c"
    by (auto simp: pending_ok_def)
  have inv': "client_inv ?s" using inv w(1) by (simp add: client_inv_def)
  have sub: "current_subsession ?c = Inr (i, subs ! i)" using c i by (simp add: current_subsession_def)
  let ?m = "whenb (code = 0) (handle (play_subsession parse accepts) (\<lambda>e. ret ()))"
  have step: "client_step parse mk_time pad s (SetupReply code accepts) = snd (thn ?m setupNextSubsession ?s)"
    using c(1,2) by (simp add: client_step_def client_op_def step_on_reply continueAfterSETUP_def)
  show thesis
  proof (cases "plays parse accepts code (subs ! i)")
    case True
    then obtain x where ok: "code = 0" "accepts ?codec = None"
      "FrameExtractor parse True (ss_codec (subs ! i)) (ss_sprops (subs ! i)) = Inr x"
      by (auto simp: plays_def isl_def) (metis sum.exhaust)
    let ?d = "(upd_subsession i (\<lambda>ss. ss\<lparr>ss_sink := Some (continuePlaying x)\<rparr>) ?c)\<lparr>has_video := True\<rparr>"
    let ?t = "?s\<lparr>trail := trail s @ [SubsessionStarted ?codec i], client := Some ?d, c_codec := ?codec\<rparr>"
    have m: "?m ?s = (Inr (), ?t)"
      using play_subsession_ok [of ?s ?c i "subs ! i" parse x accepts, OF _ sub ok(3,2)] ok(1) by (simp add: whenb_def)
    have "wp (handle (play_subsession parse accepts) (\<lambda>e. ret ())) (\<lambda>_. playing_now i (trail ?s)) never ?s"
      by (rule wp_play_subsession [OF inv', of ?c i subs]) (use c i w in simp_all)
    with m ok(1) have "playing_now i (trail ?s) ?t" by (simp add: wp_def whenb_def)
    then have "client_inv ?t" "setting_up ?d (i + 1)" by (auto simp: playing_now_def)
    moreover have "sdp_session ?d = Some (subs[i := (subs ! i)\<lparr>ss_sink := Some (continuePlaying x)\<rparr>])"
      using c(3) i(1) by (simp add: upd_subsession_def)
    moreover have "client_step parse mk_time pad s (SetupReply code accepts) = snd (setupNextSubsession ?t)"
      using step m by (simp add: thn_def bnd_def)
    ultimately show thesis using played [of x ?d ?t] True ok by simp
  next
    case False
    let ?t = "?s\<lparr>trail := trail s @ (if code = 0 then [SubsessionStarted ?codec i] else [])\<rparr>"
    have m: "?m ?s = (Inr (), ?t)"
    proof (cases "code = 0")
      case True
      with False have "accepts ?codec \<noteq> None \<or>
          (\<exists>f. FrameExtractor parse True (ss_codec (subs ! i)) (ss_sprops (subs ! i)) = Inl f)"
        by (auto simp: plays_def isl_def)
      from play_subsession_refused [of ?s ?c i "subs ! i" accepts parse, OF _ sub this] True show ?thesis by (simp add: whenb_def)
    qed (simp add: whenb_def ret_def)
    have "client_inv ?t" using inv' by (simp add: client_inv_def retry_scan_append)
    moreover have "setting_up ?c (i + 1)" using i c w by (simp add: setting_up_def)
    moreover have "client_step parse mk_time pad s (SetupReply code accepts) = snd (setupNextSubsession ?t)"
      using step m by (simp add: thn_def bnd_def)
    ultimately show thesis using refused [of ?c ?t] False c(3) i(4) by simp
  qed
qed

text \<open>
  C29: when the reply to SETUP arrives, the subsession is played if the request succeeded, the
  subscriber accepts its codec and a frame extractor can be made for it: the extractor becomes
  the sink of the subsession and asks for the first frame, the client has video of that codec,
  and PLAY follows. In every other case nothing is played, and the client tries the next
  subsession that it can play; only if there is none it gives up the session and fails with code
  415.
\<close>

theorem client_setup_outcome:
  assumes "s = client_run parse mk_time pad url es"
    and "client s = Some c" and "pending c = Some (SETUP i)" and "sdp_session c = Some subs"
    and "t = client_step parse mk_time pad s (SetupReply code accepts)"
  shows "trail t = trail s @
      (if code = 0 then [SubsessionStarted (fromRTSPCodecName (ss_codec (subs ! i))) i] else []) @
      (if plays parse accepts code (subs ! i) then [SessionReady, Send PLAY]
       else case first_playable (i + 1) (drop (i + 1) subs) of
           Some j \<Rightarrow> [Send (SETUP j)]
         | None \<Rightarrow> [SendTeardown, SessionFailed 415 ''no playable media subsession'']) \<and>
    (\<exists>d. client t = Some d \<and>
      (if plays parse accepts code (subs ! i)
       then \<exists>x. FrameExtractor parse True (ss_codec (subs ! i)) (ss_sprops (subs ! i)) = Inr x \<and>
         sdp_session d = Some (subs[i := (subs ! i)\<lparr>ss_sink := Some (continuePlaying x)\<rparr>]) \<and>
         has_video d \<and> c_codec t = fromRTSPCodecName (ss_codec (subs ! i)) \<and> pending d = Some PLAY
       else playing d = 0 \<and> \<not> has_video d \<and> c_codec t = c_codec s \<and>
         sdp_session d = (if first_playable (i + 1) (drop (i + 1) subs) = None then None else Some subs)))"
proof -
  have inv: "client_inv s" using client_run_inv by (simp add: assms(1))
  note c = assms(2-4)
  have next_trail: "trail (snd (setupNextSubsession u)) = trail u @ next_request d (i + 1) (drop (i + 1) subs')"
    if "client_inv u" "client u = Some d" "setting_up d (i + 1)" "sdp_session d = Some subs'" for u d subs'
    by (rule wp_trail [OF wp_setupNextSubsession [OF that]])
  have next_state: "setupNextSubsession u = setup_next (i + 1) (drop (i + 1) subs') u"
    if "client u = Some d" "setting_up d (i + 1)" "sdp_session d = Some subs'" for u d subs'
    using that by (simp add: setting_up_def setupNextSubsession_eq)
  show ?thesis
    using inv c
  proof (cases rule: setup_reply_cases [where code = code and parse = parse and accepts = accepts
        and mk_time = mk_time and pad = pad])
    case (played x d u)
    have "client u = Some d" "c_codec u = fromRTSPCodecName (ss_codec (subs ! i))" using played(6) by simp_all
    with played(1-8) next_trail [of u d] next_state [of u d] setup_next_keeps [of u d] show ?thesis
      unfolding assms(5) played(9) by (auto simp: next_request_def)
  next
    case (refused d u)
    have u: "client u = Some d" "c_codec u = c_codec s" using refused(4) by simp_all
    have quiet: "playing e = 0" if "sdp_session e = Some subs \<or> sdp_session e = None" for e
    proof -
      have "live_inv c" using inv c(1) by (simp add: client_inv_def)
      moreover have "\<not> has_video c" using waiting(2) [OF inv c(1,2)] c(2) by (simp add: pending_ok_def)
      ultimately show ?thesis using that c(3) by (auto simp: live_inv_def playing_def)
    qed
    have "subs \<noteq> []" using waiting(2) [OF inv c(1,2)] c(2,3) by (auto simp: pending_ok_def)
    with next_trail [OF refused(5) u(1) refused(6,2)] have "trail (snd (setupNextSubsession u)) = trail u @
        (case first_playable (i + 1) (drop (i + 1) subs) of
           Some j \<Rightarrow> [Send (SETUP j)]
         | None \<Rightarrow> [SendTeardown, SessionFailed 415 ''no playable media subsession''])"
      using refused(2,3) by (auto simp: next_request_def teardown_notes_def split: option.split)
    moreover
    have "\<exists>e. client (snd (setupNextSubsession u)) = Some e \<and> \<not> has_video e \<and>
        c_codec (snd (setupNextSubsession u)) = c_codec s \<and>
        sdp_session e = (if first_playable (i + 1) (drop (i + 1) subs) = None then None else Some subs)"
    proof (cases "first_playable (i + 1) (drop (i + 1) subs)")
      case None
      from setup_next_gives_up [OF u(1) refused(3) None] None u(2) show ?thesis
        unfolding next_state [OF u(1) refused(6,2)] by auto
    next
      case (Some j)
      then have "has_video d \<or> first_playable (i + 1) (drop (i + 1) subs) \<noteq> None" by simp
      from setup_next_keeps [OF u(1) this] Some refused(2,3) u(2) show ?thesis
        unfolding next_state [OF u(1) refused(6,2)] by auto
    qed
    then obtain e where "client (snd (setupNextSubsession u)) = Some e" "\<not> has_video e"
      "c_codec (snd (setupNextSubsession u)) = c_codec s"
      "sdp_session e = (if first_playable (i + 1) (drop (i + 1) subs) = None then None else Some subs)" by blast
    ultimately show ?thesis
      using quiet [of e] refused(1,4) unfolding assms(5) refused(7) by (simp split: if_splits)
  qed
qed

theorem client_setup_outcome_witness:
  "trail (client_step no_sprops plain_time 64 (at_work described) (SetupReply 461 (\<lambda>_. None))) =
     trail (at_work described) @ [SendTeardown, SessionFailed 415 ''no playable media subsession''] \<and>
   (\<exists>d x. client (client_step no_sprops plain_time 64 (at_work described) (SetupReply 0 (\<lambda>_. None))) = Some d \<and>
     sdp_session d = Some (audio_then_video[1 := (audio_then_video ! 1)\<lparr>ss_sink := Some (continuePlaying x)\<rparr>]) \<and>
     has_video d \<and> pending d = Some PLAY)"
proof -
  from described_client obtain c where c: "client (at_work described) = Some c" "pending c = Some (SETUP 1)"
    "sdp_session c = Some audio_then_video" by blast
  have "plays no_sprops (\<lambda>_. None) 0 (audio_then_video ! 1)"
    by (simp add: plays_def audio_then_video_def FrameExtractor_def Let_def fromRTSPCodecName_def)
  with client_setup_outcome [OF refl c refl, of 461 "\<lambda>_. None"]
    client_setup_outcome [OF refl c refl, of 0 "\<lambda>_. None"] show ?thesis
    by (simp add: plays_def audio_then_video_def) blast
qed

section \<open>The watchdog\<close>

definition counts :: "subsession list \<Rightarrow> client_event \<Rightarrow> bool" where
  "counts subs e = (case e of Packet i \<Rightarrow> i < length subs \<and> ss_packets (subs ! i) \<noteq> None | _ \<Rightarrow> False)"

definition data_event :: "client_event \<Rightarrow> bool" where
  "data_event e = (case e of Packet i \<Rightarrow> True | Arrives i a \<Rightarrow> True | _ \<Rightarrow> False)"

text \<open>A connection and a later state of it, between which only data came.\<close>

definition same_watch :: "live_client \<Rightarrow> subsession list \<Rightarrow> live_client \<Rightarrow> subsession list \<Rightarrow> bool" where
  "same_watch c subs d subs' \<longleftrightarrow> timeout_task d = timeout_task c \<and> received_packets d = received_packets c \<and>
     sdp_session d = Some subs' \<and> map (\<lambda>ss. ss_packets ss = None) subs' = map (\<lambda>ss. ss_packets ss = None) subs"

lemma total_packets_update:
  "i < length subs \<Longrightarrow> total_packets (subs[i := f (subs ! i)]) + (case ss_packets (subs ! i) of None \<Rightarrow> 0 | Some n \<Rightarrow> n) =
     total_packets subs + (case ss_packets (f (subs ! i)) of None \<Rightarrow> 0 | Some n \<Rightarrow> n)"
proof (induction subs arbitrary: i)
  case (Cons x xs)
  then show ?case by (cases i) (simp_all add: total_packets_def)
qed simp

lemma upd_subsession_watch:
  assumes sub: "sdp_session c = Some subs" and f: "\<And>ss. ss_packets (f ss) = None \<longleftrightarrow> ss_packets ss = None"
  shows "\<exists>subs'. same_watch c subs (upd_subsession i f c) subs' \<and>
    (if i < length subs then subs' = subs[i := f (subs ! i)] else subs' = subs)"
proof -
  have "map (\<lambda>ss. ss_packets ss = None) (subs[i := f (subs ! i)]) = map (\<lambda>ss. ss_packets ss = None) subs" if "i < length subs"
    using that f by (simp add: map_update list_update_same_conv)
  with sub show ?thesis by (simp add: same_watch_def upd_subsession_def)
qed

lemma counts_same: "map (\<lambda>ss. ss_packets ss = None) subs' = map (\<lambda>ss. ss_packets ss = None) subs \<Longrightarrow> counts subs' = counts subs"
proof
  fix e
  assume m: "map (\<lambda>ss. ss_packets ss = None) subs' = map (\<lambda>ss. ss_packets ss = None) subs"
  then have "length subs' = length subs" using map_eq_imp_length_eq by blast
  moreover have "ss_packets (subs' ! i) = None \<longleftrightarrow> ss_packets (subs ! i) = None" if "i < length subs" for i
    using arg_cong [OF m, of "\<lambda>xs. xs ! i"] that \<open>length subs' = length subs\<close> by simp
  ultimately show "counts subs' e = counts subs e"
    by (cases e) (simp_all add: counts_def cong: conj_cong del: not_None_eq)
qed

lemma data_step:
  assumes c: "client s = Some c" and sub: "sdp_session c = Some subs" and e: "data_event e"
  shows "\<exists>d subs'. client (client_step parse mk_time pad s e) = Some d \<and> same_watch c subs d subs' \<and>
    total_packets subs' = total_packets subs + (if counts subs e then 1 else 0)"
proof (cases e)
  case (Packet i)
  obtain subs' where s': "same_watch c subs (upd_subsession i more_packets c) subs'"
    "if i < length subs then subs' = subs[i := more_packets (subs ! i)] else subs' = subs"
    using upd_subsession_watch [OF sub, of more_packets i] by (auto simp: more_packets_def)
  have "total_packets subs' = total_packets subs + (if counts subs e then 1 else 0)"
    using s'(2) Packet total_packets_update [of i subs more_packets]
    by (auto simp: counts_def more_packets_def split: if_splits option.splits)
  with s'(1) Packet c show ?thesis by (auto simp: client_step_def client_op_def upd_def)
next
  case (Arrives i a)
  show ?thesis
  proof (cases "Option.bind (subsession_at s i) ss_sink")
    case None
    with Arrives c sub show ?thesis
      by (auto simp: client_step_def client_op_def upd_def arrive_def counts_def same_watch_def)
  next
    case (Some x)
    let ?f = "\<lambda>ss. ss\<lparr>ss_sink := Some (ext_step mk_time pad x a)\<rparr>"
    obtain subs' where s': "same_watch c subs (upd_subsession i ?f c) subs'"
      "if i < length subs then subs' = subs[i := ?f (subs ! i)] else subs' = subs"
      using upd_subsession_watch [OF sub, of ?f i] by auto
    have "total_packets subs' = total_packets subs"
      using s'(2) total_packets_update [of i subs ?f] by (simp split: if_splits)
    with s'(1) Arrives Some c show ?thesis
      by (auto simp: client_step_def client_op_def upd_def arrive_def counts_def Let_def)
  qed
qed (use e in \<open>simp_all add: data_event_def\<close>)

lemma data_run:
  assumes "client s = Some c" and "sdp_session c = Some subs" and "\<forall>e \<in> set es. data_event e"
  shows "\<exists>d subs'. client (foldl (client_step parse mk_time pad) s es) = Some d \<and> same_watch c subs d subs' \<and>
    total_packets subs' = total_packets subs + length (filter (counts subs) es)"
  using assms
proof (induction es arbitrary: s c subs)
  case Nil
  then show ?case by (simp add: same_watch_def)
next
  case (Cons e es)
  obtain d subs' where d: "client (client_step parse mk_time pad s e) = Some d" "same_watch c subs d subs'"
    "total_packets subs' = total_packets subs + (if counts subs e then 1 else 0)"
    using data_step [OF Cons.prems(1,2), of e parse mk_time pad] Cons.prems(3) by auto
  from d(2) have sub': "sdp_session d = Some subs'" and same: "counts subs' = counts subs"
    by (auto simp: same_watch_def intro: counts_same)
  obtain d' subs'' where d': "client (foldl (client_step parse mk_time pad) (client_step parse mk_time pad s e) es) = Some d'"
    "same_watch d subs' d' subs''" "total_packets subs'' = total_packets subs' + length (filter (counts subs') es)"
    using Cons.IH [OF d(1) sub'] Cons.prems(3) by auto
  have "same_watch c subs d' subs''" using d(2) d'(2) by (simp add: same_watch_def)
  moreover have "total_packets subs'' = total_packets subs + length (filter (counts subs) (e # es))"
    using d(3) d'(3) same by simp
  ultimately show ?case using d'(1) by auto
qed

text \<open>
  C30: the watchdog: between two expirations of its timer, with only data coming in, the timer is
  set again if at least one packet was received on a subsession with a receiver; otherwise the
  subscriber is told that the session timed out, and the timer stays off.
\<close>

theorem client_watchdog:
  assumes "s = client_run parse mk_time pad url es"
    and "client s = Some c" and "timeout_task c" and "sdp_session c = Some subs"
    and "total_packets subs = received_packets c" and "\<forall>e \<in> set data. data_event e"
    and "t = foldl (client_step parse mk_time pad) s data"
  shows "\<exists>d. client (client_step parse mk_time pad t TimerExpires) = Some d \<and>
    (if filter (counts subs) data = []
     then \<not> timeout_task d \<and> trail (client_step parse mk_time pad t TimerExpires) = trail t @ [SessionTimeout]
     else timeout_task d \<and> trail (client_step parse mk_time pad t TimerExpires) = trail t)"
proof -
  obtain d subs' where d: "client t = Some d" "same_watch c subs d subs'"
    "total_packets subs' = total_packets subs + length (filter (counts subs) data)"
    using data_run [OF assms(2,4,6), of parse mk_time pad] assms(7) by auto
  with assms(3,5) have "sdp_session d = Some subs'" "timeout_task d"
    "total_packets subs' \<noteq> received_packets d \<longleftrightarrow> filter (counts subs) data \<noteq> []"
    by (auto simp: same_watch_def)
  with d(1) show ?thesis
    by (simp add: client_step_def client_op_def checkTimeout_def op_defs emit_def upd_live_def)
qed

definition rearmed :: "client_event list" where
  "rearmed = active @ [TimerExpires]"

lemma rearmed_client:
  "\<exists>c subs. client (at_work rearmed) = Some c \<and> timeout_task c \<and> sdp_session c = Some subs \<and>
     total_packets subs = received_packets c"
  by (simp add: rearmed_def client_eval continuePlaying_def checkTimeout_def total_packets_def)

theorem client_watchdog_witness:
  "trail (client_step no_sprops plain_time 64 (at_work rearmed) TimerExpires) =
     trail (at_work rearmed) @ [SessionTimeout]"
proof -
  from rearmed_client obtain c subs where c: "client (at_work rearmed) = Some c" "timeout_task c"
    "sdp_session c = Some subs" "total_packets subs = received_packets c" by blast
  have "\<forall>e \<in> set []. data_event e" by simp
  from client_watchdog [OF refl c this refl] show ?thesis by auto
qed

text \<open>
  A stream that ends while the reply to PLAY is outstanding: the session is finished and torn
  down, but the reply then starts it all the same. The client counts an active session without
  a media session, and its watchdog gives up silently when it next expires.
\<close>

theorem client_end_before_play:
  assumes "s = client_run parse mk_time pad url es"
    and "client s = Some c" and "pending c = Some PLAY" and "Option.bind (subsession_at s i) ss_sink \<noteq> None"
    and "t = foldl (client_step parse mk_time pad) s [Ends i, PlayReply 0 msg, TimerExpires]"
  shows "trail t = trail s @ [SubsessionFinished i, SendTeardown, SessionFinished, SessionStarted] \<and>
    (\<exists>d. client t = Some d \<and> session_active d \<and> sdp_session d = None \<and> \<not> timeout_task d)"
proof -
  have inv: "client_inv s" unfolding assms(1) by (rule client_run_inv)
  obtain subs where subs: "sdp_session c = Some subs" "i < length subs" "ss_sink (subs ! i) \<noteq> None"
    using assms(2,4) by (auto simp: subsession_at_def split: option.splits if_splits)
  let ?f = "\<lambda>ss. ss\<lparr>ss_sink := None\<rparr>"
  have one: "length (filter (\<lambda>ss. ss_sink ss \<noteq> None) subs) \<le> 1"
    using inv assms(2) subs by (simp add: client_inv_def live_inv_def playing_def)
  have "filter (\<lambda>ss. ss_sink ss \<noteq> None) (subs[i := ?f (subs ! i)]) = []"
    by (rule filter_clear [OF one subs(2,3)]) simp
  then have none: "\<not> (\<exists>ss \<in> set (subs[i := ?f (subs ! i)]). ss_sink ss \<noteq> None)"
    by (simp add: filter_empty_conv)
  have cont: "subs \<noteq> []" using subs(2) by auto
  let ?d = "upd_subsession i ?f c"
  have d: "sdp_session ?d = Some (subs[i := ?f (subs ! i)])" "pending ?d = Some PLAY"
    using subs assms(3) by (simp_all add: upd_subsession_def)
  have "wp (subsessionAfterPlaying i) Q E s = Q () (s\<lparr>trail := trail s @
      [SubsessionFinished i, SendTeardown, SessionFinished], client := Some (torn_down ?d)\<rparr>)" for Q E :: "_ \<Rightarrow> stream_client \<Rightarrow> bool"
    using assms(2) d(1) none cont
    by (simp add: subsessionAfterPlaying_def wp_thn wp_emit wp_upd_live wp_bnd wp_deref wp_teardown
        teardown_notes_def del: bex_simps) (cases s, simp)
  then have "subsessionAfterPlaying i s = (Inr (), s\<lparr>trail := trail s @
      [SubsessionFinished i, SendTeardown, SessionFinished], client := Some (torn_down ?d)\<rparr>)"
    by (rule wp_exact)
  then have ends: "client_step parse mk_time pad s (Ends i) = s\<lparr>trail := trail s @
      [SubsessionFinished i, SendTeardown, SessionFinished], client := Some (torn_down ?d)\<rparr>"
    using assms(4) by (simp add: client_step_def client_op_def op_defs del: not_None_eq)
  show ?thesis
    unfolding assms(5) foldl.simps ends using d(2)
    by (simp add: client_step_def client_op_def on_reply_def continueAfterPLAY_def sessionStarted_def
        checkTimeout_def op_defs upd_live_def emit_def)
qed

theorem client_end_before_play_witness:
  "\<exists>d. client (foldl (client_step no_sprops plain_time 64) (at_work played) [Ends 1, PlayReply 0 [], TimerExpires]) =
     Some d \<and> session_active d \<and> sdp_session d = None"
proof -
  from played_client obtain c where c: "client (at_work played) = Some c" "pending c = Some PLAY"
    "Option.bind (subsession_at (at_work played) 1) ss_sink \<noteq> None" by blast
  from client_end_before_play [OF refl c refl] show ?thesis by blast
qed

section \<open>What a step reports\<close>

text \<open>
  For the subscriber, which handles the reports: what a step adds to the trail. A started
  session is reported alone.
\<close>

definition quiet_since :: "rtsp_note list \<Rightarrow> stream_client \<Rightarrow> bool" where
  "quiet_since past s \<longleftrightarrow> (\<exists>ns. trail s = past @ ns \<and> SessionStarted \<notin> set ns)"

abbreviation quiet_op :: "rtsp_note list \<Rightarrow> (stream_client, 'a) op \<Rightarrow> bool" where
  "quiet_op past m \<equiv> keeps (quiet_since past) (\<lambda>_. quiet_since past) m"

lemma quiet_emit: "n \<noteq> SessionStarted \<Longrightarrow> quiet_op past (emit n)"
  by (auto simp: keeps_def wp_rules quiet_since_def)

lemma quiet_upd: "(\<And>s. trail (f s) = trail s) \<Longrightarrow> quiet_op past (upd f)"
  by (simp add: keeps_def wp_rules quiet_since_def)

lemma quiet_upd_live: "quiet_op past (upd_live f)"
  by (auto simp: keeps_def wp_rules quiet_since_def split: option.split)

lemma quiet_deref: "quiet_op past (deref f)"
  by (auto simp: keeps_def wp_rules split: option.split)

lemma quiet_lift: "quiet_op past (lift_op r)"
  by (auto simp: keeps_def wp_rules split: sum.split)

lemma quiet_fail: "quiet_op past (fail f)"
  by (auto simp: keeps_def wp_rules)

lemma quiet_handle: "quiet_op past m \<Longrightarrow> (\<And>e. quiet_op past (h e)) \<Longrightarrow> quiet_op past (handle m h)"
  unfolding keeps_def wp_handle by (auto elim!: wp_mono split: fault.splits)

lemmas quiet_rules = quiet_emit quiet_upd quiet_upd_live quiet_deref quiet_lift quiet_fail quiet_handle keeps_rules

lemma quiet_send: "quiet_op past (send r)"
  unfolding send_def by (intro quiet_rules) simp

lemma quiet_teardown: "quiet_op past teardown"
proof -
  have "quiet_op past (case x of None \<Rightarrow> ret ()
     | Some subs \<Rightarrow> thn (whenb (subs \<noteq> []) (emit SendTeardown)) (upd_live (\<lambda>c. c\<lparr>sdp_session := None\<rparr>)))" for x
    by (cases x) (auto intro!: quiet_rules)
  then show ?thesis unfolding teardown_def by (intro quiet_rules)
qed

lemma quiet_disconnect: "quiet_op past disconnect"
  unfolding disconnect_def by (intro quiet_rules quiet_teardown) simp

lemma quiet_connect: "quiet_op past connect"
  unfolding connect_def by (intro quiet_rules quiet_send) simp

lemma quiet_sessionFailed: "quiet_op past (sessionFailed code msg)"
  unfolding sessionFailed_def by (intro quiet_rules quiet_disconnect quiet_connect) simp_all

lemma quiet_setup_next: "quiet_op past (setup_next k rest)"
proof (induction rest arbitrary: k)
  case Nil
  show ?case unfolding setup_next.simps
    by (intro quiet_rules quiet_teardown quiet_sessionFailed quiet_send) simp_all
next
  case (Cons ss rest)
  show ?case unfolding setup_next.simps by (intro quiet_rules quiet_send Cons.IH)
qed

lemma quiet_setupNextSubsession: "quiet_op past setupNextSubsession"
proof -
  have "quiet_op past (case x of (k, subs) \<Rightarrow> setup_next k (drop k subs))" for x
    by (cases x) (simp add: quiet_setup_next)
  then show ?thesis unfolding setupNextSubsession_def by (intro quiet_rules)
qed

lemma quiet_continueAfterDESCRIBE: "quiet_op past (continueAfterDESCRIBE code msg parsed)"
proof -
  have "quiet_op past (case x of None \<Rightarrow> sessionFailed 500 ''cannot create MediaSession''
      | Some subs \<Rightarrow> thn (upd_live (\<lambda>c. c\<lparr>sdp_session := Some subs\<rparr>))
           (if subs = [] then thn teardown (sessionFailed 415 ''no media subsession'')
            else thn (upd_live (\<lambda>c. c\<lparr>iter := Some 0\<rparr>)) setupNextSubsession))" for x
    by (cases x) (auto intro!: quiet_rules quiet_teardown quiet_sessionFailed quiet_setupNextSubsession)
  then show ?thesis unfolding continueAfterDESCRIBE_def by (intro quiet_rules quiet_sessionFailed)
qed

lemma quiet_continueAfterSETUP: "quiet_op past (continueAfterSETUP parse accepts code)"
proof -
  have accept: "quiet_op past (case accepts codec of Some e \<Rightarrow> fail (Throw e) | None \<Rightarrow> ret ())" for codec
    by (cases "accepts codec") (auto intro: quiet_rules)
  have "quiet_op past (play_subsession parse accepts)"
    unfolding play_subsession_def split_def Let_def by (intro quiet_rules accept) simp_all
  then show ?thesis unfolding continueAfterSETUP_def by (intro quiet_rules quiet_setupNextSubsession)
qed

lemma quiet_subsessionAfterPlaying: "quiet_op past (subsessionAfterPlaying i)"
  unfolding subsessionAfterPlaying_def by (intro quiet_rules quiet_teardown) simp_all

lemma quiet_checkTimeout: "quiet_op past checkTimeout"
proof -
  have "quiet_op past (case x of None \<Rightarrow> ret () | Some subs \<Rightarrow>
      if total_packets subs \<noteq> received_packets c
      then upd_live (\<lambda>c. c\<lparr>received_packets := total_packets subs, timeout_task := True\<rparr>)
      else emit SessionTimeout)" for x c
    by (cases x) (auto intro!: quiet_rules)
  then show ?thesis unfolding checkTimeout_def by (intro quiet_rules)
qed

lemma quiet_on_reply: "quiet_op past m \<Longrightarrow> quiet_op past (on_reply is m)"
proof -
  assume m: "quiet_op past m"
  have "quiet_op past (case x of Some r \<Rightarrow> whenb (is r) (thn (upd_live (\<lambda>c. c\<lparr>pending := None\<rparr>)) m)
      | None \<Rightarrow> ret ())" for x
    by (cases x) (auto intro!: quiet_rules m)
  then show ?thesis unfolding on_reply_def by (intro quiet_rules)
qed

lemma quiet_arrive: "quiet_op past (upd (arrive mk_time pad i a))"
proof -
  have "quiet_since past (arrive mk_time pad i a s)" if "quiet_since past s" for s
    using that by (auto simp: quiet_since_def arrive_def Let_def split: option.split)
  then show ?thesis by (simp add: keeps_def wp_upd)
qed

definition from_network :: "client_event \<Rightarrow> bool" where
  "from_network e = (case e of Connect \<Rightarrow> False | Disconnect \<Rightarrow> False | SetTimeout t \<Rightarrow> False | _ \<Rightarrow> True)"

definition notes_of :: "stream_client \<Rightarrow> stream_client \<Rightarrow> rtsp_note list" where
  "notes_of s t = drop (length (trail s)) (trail t)"

lemma quiet_notes: "quiet_since (trail s) t \<Longrightarrow> trail t = trail s @ notes_of s t \<and> SessionStarted \<notin> set (notes_of s t)"
  by (auto simp: quiet_since_def notes_of_def)

lemma wp_quiet: "quiet_op (trail s) m \<Longrightarrow>
    wp m (\<lambda>_ t. trail t = trail s @ notes_of s t \<and> SessionStarted \<notin> set (notes_of s t)) (\<lambda>_ _. True) s"
  by (rule wp_mono [OF keepsD [of "quiet_since (trail s)"]]) (auto simp: quiet_since_def notes_of_def)

lemma wp_client_op_notes:
  assumes "from_network e"
  shows "wp (client_op parse mk_time pad e) (\<lambda>_ t. trail t = trail s @ notes_of s t \<and>
    (SessionStarted \<in> set (notes_of s t) \<longrightarrow> notes_of s t = [SessionStarted])) (\<lambda>_ _. True) s"
proof -
  have loud: ?thesis if "quiet_op (trail s) (client_op parse mk_time pad e)"
    by (rule wp_mono [OF wp_quiet [OF that]]) auto
  show ?thesis
  proof (cases e)
    case (DescribeReply code msg sdp)
    then show ?thesis
      by (intro loud) (simp add: client_op_def quiet_on_reply quiet_continueAfterDESCRIBE)
  next
    case (SetupReply code accepts)
    then show ?thesis
      by (intro loud) (simp add: client_op_def quiet_on_reply quiet_continueAfterSETUP)
  next
    case (PlayReply code msg)
    show ?thesis
    proof (cases "code = 0")
      case True
      with PlayReply show ?thesis
        by (auto simp: client_op_def on_reply_def continueAfterPLAY_def sessionStarted_def wp_rules notes_of_def
            split: option.split)
    next
      case False
      with PlayReply show ?thesis
        by (intro loud) (auto simp: client_op_def continueAfterPLAY_def
            intro!: quiet_on_reply quiet_rules quiet_teardown quiet_sessionFailed)
    qed
  next
    case (Ends i)
    then show ?thesis
      by (intro loud) (auto simp: client_op_def intro!: quiet_rules quiet_subsessionAfterPlaying)
  next
    case TimerExpires
    then show ?thesis
      by (intro loud) (auto simp: client_op_def intro!: quiet_rules quiet_checkTimeout)
  next
    case (Packet i)
    then show ?thesis
      by (intro loud) (auto simp: client_op_def intro!: quiet_rules)
  next
    case (Arrives i a)
    then show ?thesis by (intro loud) (simp add: client_op_def quiet_arrive)
  qed (use assms in \<open>simp_all add: from_network_def\<close>)
qed

text \<open>A connection that waits for a reply or plays, and the reports that end one.\<close>

definition busy :: "stream_client \<Rightarrow> bool" where
  "busy s \<longleftrightarrow> (\<exists>c. client s = Some c \<and> (pending c \<noteq> None \<or> session_active c))"

definition ends_session :: "rtsp_note \<Rightarrow> bool" where
  "ends_session n \<longleftrightarrow> (case n of SessionFinished \<Rightarrow> True | SessionFailed _ _ \<Rightarrow> True | _ \<Rightarrow> False)"

definition ended_since :: "rtsp_note list \<Rightarrow> stream_client \<Rightarrow> bool" where
  "ended_since past s \<longleftrightarrow> (\<exists>ns n. trail s = past @ ns @ [n] \<and> ends_session n)"

lemma settled_busy: "settled past s \<Longrightarrow> busy s \<or> ended_since past s"
  unfolding settled_def busy_def ended_since_def ends_session_def
  by (elim exE conjE) (auto split: rtsp_note.splits)

lemma wp_client_op_busy:
  assumes inv: "client_inv s" and net: "from_network e" and busy: "busy s"
  shows "wp (client_op parse mk_time pad e) (\<lambda>_ t. busy t \<or> ended_since (trail s) t) never s"
proof (cases "\<exists>c r. client s = Some c \<and> pending c = Some r \<and> answers e r")
  case True
  then obtain c r where "client s = Some c" "pending c = Some r" "answers e r" by blast
  from wp_reply [OF inv this] show ?thesis by (rule wp_mono) (auto dest: settled_busy)
next
  case not_answer: False
  obtain c where c: "client s = Some c" "pending c \<noteq> None \<or> session_active c"
    using busy by (auto simp: busy_def)
  show ?thesis
  proof (cases e)
    case (Ends i)
    show ?thesis
    proof (cases "Option.bind (subsession_at s i) ss_sink")
      case None
      with Ends busy show ?thesis by (simp add: client_op_def wp_rules)
    next
      case (Some x)
      with wp_subsessionAfterPlaying [OF inv c(1), of i]
      have "wp (subsessionAfterPlaying i) (\<lambda>_ t. busy t \<or> ended_since (trail s) t) never s"
        by (auto simp: ended_since_def ends_session_def elim!: wp_mono)
      with Some Ends show ?thesis by (simp add: client_op_def wp_bnd wp_gets wp_whenb)
    qed
  next
    case TimerExpires
    with c show ?thesis
      by (auto simp: client_op_def checkTimeout_def wp_rules busy_def split: option.split)
  next
    case (Packet i)
    with c show ?thesis by (auto simp: client_op_def wp_upd busy_def upd_subsession_def)
  next
    case (Arrives i a)
    with c show ?thesis
      by (auto simp: client_op_def wp_upd busy_def arrive_def upd_subsession_def Let_def split: option.split)
  qed (use not_answer net busy in \<open>auto simp: client_op_def on_reply_def wp_rules answers_def from_network_def split: option.splits\<close>)
qed

end
