(* ===== verification/Parameter_Names.thy ===== *)
theory Parameter_Names
  imports Prelude
begin

text \<open>
  The names of the node parameters of both plugins (\<^verbatim>\<open>src/src/publisher_plugin.cpp\<close>,
  \<^verbatim>\<open>src/src/subscriber_plugin.cpp\<close>): the base name is made from the topic, relative to the
  namespace of the node, with dots for slashes, and the name of the transport.
\<close>

section \<open>The names\<close>

definition dotted :: "string \<Rightarrow> string" where
  "dotted = map (\<lambda>ch. if ch = CHR ''/'' then CHR ''.'' else ch)"

definition strip_dot :: "string \<Rightarrow> string" where
  "strip_dot name = (if name \<noteq> [] \<and> hd name = CHR ''.'' then tl name else name)"

text \<open>\<open>len\<close> is the length of the effective namespace; \<^verbatim>\<open>substr\<close> throws behind the end.\<close>

definition param_base_name :: "string \<Rightarrow> nat \<Rightarrow> fault + string" where
  "param_base_name base_topic len =
     (if len > length base_topic then Inl (Throw (StdException ''basic_string::substr''))
      else let name = strip_dot (dotted (drop len base_topic));
               name = (if name \<noteq> [] then name @ ''.'' else name)
           in Inr (name @ ''rtsp''))"

section \<open>Different topics, different parameters\<close>

lemma dotted_inj:
  "CHR ''.'' \<notin> set a \<Longrightarrow> CHR ''.'' \<notin> set b \<Longrightarrow> dotted a = dotted b \<Longrightarrow> a = b"
  unfolding dotted_def
proof (induction a arbitrary: b)
  case (Cons x xs)
  then show ?case by (cases b) (auto split: if_splits)
qed simp

lemma strip_dotted:
  assumes "p = [] \<or> p = ''/''" and "take 1 t \<noteq> ''/''" and "CHR ''.'' \<notin> set t"
  shows "strip_dot (dotted (p @ t)) = dotted t"
  using assms by (cases t) (auto simp: strip_dot_def dotted_def)

lemma param_base_name_topic:
  assumes "p = [] \<or> p = ''/''" and "take 1 t \<noteq> ''/''" and "CHR ''.'' \<notin> set t"
  shows "param_base_name (ns @ p @ t) (length ns) = Inr (if t = [] then ''rtsp'' else dotted t @ ''.rtsp'')"
  using strip_dotted [OF assms] by (auto simp: param_base_name_def Let_def dotted_def)

text \<open>
  Two image topics below the namespace of a node never share their parameters: the base
  name determines the topic, given that ROS names have no dots and no empty parts. (\<open>p\<close> is
  the slash behind the namespace; the namespace \<open>/\<close> has none.)
\<close>

theorem param_names_distinct:
  assumes "p = [] \<or> p = ''/''" and "take 1 t \<noteq> ''/''" "CHR ''.'' \<notin> set t"
    and "take 1 u \<noteq> ''/''" "CHR ''.'' \<notin> set u"
    and "param_base_name (ns @ p @ t) (length ns) = param_base_name (ns @ p @ u) (length ns)"
  shows "t = u"
proof -
  have short: "dotted v @ ''.rtsp'' \<noteq> ''rtsp''" for v
  proof
    assume "dotted v @ ''.rtsp'' = ''rtsp''"
    from arg_cong [OF this, of length] show False by simp
  qed
  from assms(6) have eq: "(if t = [] then ''rtsp'' else dotted t @ ''.rtsp'') = (if u = [] then ''rtsp'' else dotted u @ ''.rtsp'')"
    unfolding param_base_name_topic [OF assms(1-3)] param_base_name_topic [OF assms(1,4,5)] by simp
  show ?thesis
  proof (cases "t = [] \<or> u = []")
    case True
    with eq short [of t] short [of u] show ?thesis by (auto split: if_splits)
  next
    case False
    with eq have "dotted t = dotted u" by simp
    with assms(3,5) show ?thesis by (rule dotted_inj)
  qed
qed

theorem param_names_distinct_witness:
  "param_base_name ''/robot/cam/left'' 6 \<noteq> param_base_name ''/robot/cam_left'' 6"
proof
  have dots: "take 1 ''cam/left'' \<noteq> ''/''" "CHR ''.'' \<notin> set ''cam/left''"
    "take 1 ''cam_left'' \<noteq> ''/''" "CHR ''.'' \<notin> set ''cam_left''" by auto
  have len: "length ''/robot'' = 6" by simp
  assume "param_base_name ''/robot/cam/left'' 6 = param_base_name ''/robot/cam_left'' 6"
  with param_names_distinct [of "''/''", OF _ dots, of "''/robot''", unfolded len] show False by simp
qed

end
