(* ===== verification/Subscriber_Plugin.thy ===== *)
theory Subscriber_Plugin
  imports Client_Run Decoder_Run
begin

text \<open>
  The subscriber (\<^verbatim>\<open>src/src/subscriber_plugin.h\<close>, \<^verbatim>\<open>src/src/subscriber_plugin.cpp\<close>): it
  connects an RTSP client to the URL that the publisher announces, queues the frames that the
  client receives, decodes them, and connects again after failures with growing delays.

  Durations and stamps of the ROS clock are in nanoseconds, all other times in milliseconds,
  to which the code truncates the parameters before anything else. FFmpeg and its world are
  those of theory \<open>Stream_Decoder\<close>; \<open>deliver\<close> is the callback of the subscriber's user and
  says what it throws. \<open>node\<close> tells whether the node still exists.
\<close>

section \<open>The class\<close>

definition ReconnectOnTimeout :: int where "ReconnectOnTimeout = 1"
definition ReconnectOnFailure :: int where "ReconnectOnFailure = 2"
definition ReconnectAlways :: int where "ReconnectAlways = 3"

record sub_config =
  use_hw_decoder :: bool
  reconnect_policy :: int
  timeout :: int
  reconnect_minwait :: int
  reconnect_maxwait :: int

definition default_config :: sub_config where
  "default_config =
     \<lparr>use_hw_decoder = True, reconnect_policy = ReconnectOnTimeout, timeout = 2000,
      reconnect_minwait = 100, reconnect_maxwait = 30000\<rparr>"

text \<open>
  The values that \<open>setupParameters\<close> declares as allowed; the parameters of a node, as
  documented, never get others.
\<close>

definition setupParameters :: "sub_config \<Rightarrow> bool" where
  "setupParameters cfg \<longleftrightarrow>
     0 \<le> reconnect_policy cfg \<and> reconnect_policy cfg \<le> 3 \<and>
     0 \<le> timeout cfg \<and> timeout cfg \<le> 60000 \<and>
     0 \<le> reconnect_minwait cfg \<and> reconnect_minwait cfg \<le> 60000 \<and>
     0 \<le> reconnect_maxwait cfg \<and> reconnect_maxwait cfg \<le> 600000"

text \<open>
  Beside the members of the class the record holds FFmpeg's world, and of the past: the waits
  chosen since \<open>cooldown\<close> was last set to its minimum, the frames given to a decoder with its
  \<open>skip_frame\<close> setting, and the images given to the callback.
\<close>

record 'w subscriber =
  s_config :: sub_config
  s_failed :: bool
  cooldown :: int
  cooldown_timer :: "int option"
  old_lag :: stamp
  s_client :: "stream_client option"
  s_decoder :: "'w decoder option"
  queue :: "frame_data list"
  node :: bool
  ff_world :: 'w
  waits :: "int list"
  fed :: "(frame_data \<times> discard option) list"
  images :: "image list"

definition new_subscriber :: "'w \<Rightarrow> 'w subscriber" where
  "new_subscriber w =
     \<lparr>s_config = default_config, s_failed = False, cooldown = 0, cooldown_timer = None, old_lag = 0,
      s_client = None, s_decoder = None, queue = [], node = True, ff_world = w, waits = [], fed = [],
      images = []\<rparr>"

section \<open>The frame queue\<close>

definition pushFrame :: "frame_data \<Rightarrow> 'w subscriber \<Rightarrow> 'w subscriber" where
  "pushFrame f s = s\<lparr>queue := queue s @ [f]\<rparr>"

definition popFrame :: "'w subscriber \<Rightarrow> frame_data option \<times> 'w subscriber" where
  "popFrame s =
     (case queue s of
        [] \<Rightarrow> (None, s)
      | f # fs \<Rightarrow> (Some f, s\<lparr>queue := fs\<rparr>))"

definition frameLag :: "'w subscriber \<Rightarrow> stamp" where
  "frameLag s = (if queue s = [] then 0 else fstamp (last (queue s)) - fstamp (hd (queue s)))"

definition clearQueuedFrames :: "'w subscriber \<Rightarrow> 'w subscriber" where
  "clearQueuedFrames s = s\<lparr>queue := []\<rparr>"

interpretation subscriber_queue: fifo queue pushFrame popFrame
  by unfold_locales (auto simp: pushFrame_def popFrame_def)

section \<open>Calls into the client and the decoder\<close>

definition on_client :: "(stream_client, 'a) op \<Rightarrow> ('w subscriber, 'a) op" where
  "on_client m =
     bnd (deref s_client) (\<lambda>c. \<lambda>s. case m c of (r, c') \<Rightarrow> (r, s\<lparr>s_client := Some c'\<rparr>))"

text \<open>\<^verbatim>\<open>std::make_shared<StreamDecoder>\<close>; the member is not assigned when it throws.\<close>

definition make_decoder :: "'w dec_ffmpeg \<Rightarrow> video_codec \<Rightarrow> ('w subscriber, unit) op" where
  "make_decoder ff codec =
     (\<lambda>s. case StreamDecoder ff codec (use_hw_decoder (s_config s)) (blank_decoder codec (ff_world s)) of
        (Inr _, d) \<Rightarrow> (Inr (), s\<lparr>s_decoder := Some d, ff_world := d_world d\<rparr>)
      | (Inl f, d) \<Rightarrow> (Inl f, s\<lparr>ff_world := d_world d\<rparr>))"

definition on_decoder :: "('w decoder, 'a) op \<Rightarrow> ('w subscriber, 'a) op" where
  "on_decoder m =
     bnd (deref s_decoder) (\<lambda>d. \<lambda>s. case m (d\<lparr>d_world := ff_world s\<rparr>) of
        (r, d') \<Rightarrow> (r, s\<lparr>s_decoder := Some d', ff_world := d_world d'\<rparr>))"

section \<open>Connecting\<close>

definition reconnect :: "('w subscriber, unit) op" where
  "reconnect =
     thn (on_client disconnect)
    (thn (upd clearQueuedFrames)
    (bnd (gets node) (\<lambda>alive. whenb alive
       (upd (\<lambda>s. s\<lparr>cooldown_timer := Some (cooldown s), waits := waits s @ [cooldown s],
          cooldown := min (cooldown s * 2) (reconnect_maxwait (s_config s))\<rparr>)))))"

definition reconnect_if :: "int \<Rightarrow> ('w subscriber, unit) op" where
  "reconnect_if policy =
     bnd (gets s_config) (\<lambda>cfg. whenb (reconnect_policy cfg \<ge> policy) reconnect)"

text \<open>The common end of the \<^verbatim>\<open>catch\<close> blocks.\<close>

definition give_up :: "('w subscriber, unit) op" where
  "give_up =
     thn (upd (\<lambda>s. clearQueuedFrames (s\<lparr>s_failed := True\<rparr>)))
         (reconnect_if ReconnectOnFailure)"

definition cooldownTimerCallback :: "('w subscriber, unit) op" where
  "cooldownTimerCallback =
     thn (upd (\<lambda>s. clearQueuedFrames (s\<lparr>cooldown_timer := None\<rparr>)))
         (on_client connect)"

definition internalCallback :: "string \<Rightarrow> ('w subscriber, unit) op" where
  "internalCallback url =
     thn (upd (\<lambda>s. s\<lparr>s_failed := False, old_lag := 0, cooldown := reconnect_minwait (s_config s),
            waits := [], cooldown_timer := None, s_client := None\<rparr>))
         (handle
           (thn (upd (\<lambda>s. s\<lparr>s_client := Some (new_client url)\<rparr>))
           (bnd (gets s_config) (\<lambda>cfg.
            thn (on_client (upd (setSessionTimeout (timeout cfg))))
                (on_client connect))))
           (\<lambda>e. give_up))"

definition sub_shutdown :: "('w subscriber, unit) op" where
  "sub_shutdown =
     thn (upd (\<lambda>s. s\<lparr>cooldown_timer := None\<rparr>))
    (thn (bnd (gets s_client) (\<lambda>c. whenb (c \<noteq> None) (on_client disconnect)))
         (upd (\<lambda>s. clearQueuedFrames (s\<lparr>s_decoder := None\<rparr>))))"

text \<open>What \<open>updateParameters\<close> does with the configuration that it has read.\<close>

definition apply_config :: "'w dec_ffmpeg \<Rightarrow> sub_config \<Rightarrow> ('w subscriber, unit) op" where
  "apply_config ff new_config =
     bnd (gets s_config) (\<lambda>old.
     thn (upd (\<lambda>s. s\<lparr>s_config := new_config\<rparr>))
         (handle
           (thn (upd (\<lambda>s. s\<lparr>cooldown := reconnect_minwait new_config, waits := [],
                  s_config := (if reconnect_maxwait new_config < reconnect_minwait new_config
                     then new_config\<lparr>reconnect_maxwait := reconnect_minwait new_config\<rparr>
                     else new_config)\<rparr>))
           (bnd (gets s_client) (\<lambda>c. case c of
              None \<Rightarrow> ret ()
            | Some c \<Rightarrow>
                thn (on_client (upd (setSessionTimeout (timeout new_config))))
                    (whenb (use_hw_decoder new_config \<noteq> use_hw_decoder old)
                      (bnd (gets (\<lambda>s. case s_client s of None \<Rightarrow> Unknown | Some c \<Rightarrow> c_codec c))
                        (make_decoder ff))))))
           (\<lambda>e. give_up)))"

text \<open>
  \<open>updateParameters\<close>: the parameters are read outside of the \<^verbatim>\<open>try\<close> block. \<open>reading\<close> is what
  \<^verbatim>\<open>get_parameter\<close> and the conversions \<^verbatim>\<open>as_bool\<close>, \<^verbatim>\<open>as_int\<close> and \<^verbatim>\<open>as_double\<close> give: the new
  configuration, or what one of them throws (\<open>read_sub_config\<close> of theory \<open>Node_Parameters\<close>).
\<close>

definition updateParameters :: "'w dec_ffmpeg \<Rightarrow> fault + sub_config \<Rightarrow> ('w subscriber, unit) op" where
  "updateParameters ff reading =
     bnd (gets node) (\<lambda>alive. whenb alive (bnd (lift_op reading) (apply_config ff)))"

lemma updateParameters_Inr:
  "updateParameters ff (Inr cfg) = bnd (gets node) (\<lambda>alive. whenb alive (apply_config ff cfg))"
  by (simp add: updateParameters_def bnd_def lift_op_def fun_eq_iff)

lemma updateParameters_Inl:
  "updateParameters ff (Inl f) s = (if node s then (Inl f, s) else (Inr (), s))"
  by (simp add: updateParameters_def op_defs)

text \<open>
  \<open>subscribeImpl\<close>, which declares the parameters (\<open>declared\<close> tells how that ends) and reads them
  for the first time; the rest of it is ROS setup.
\<close>

definition subscribeImpl ::
  "'w dec_ffmpeg \<Rightarrow> fault + unit \<Rightarrow> fault + sub_config \<Rightarrow> ('w subscriber, unit) op" where
  "subscribeImpl ff declared reading =
     thn (upd (\<lambda>s. s\<lparr>s_failed := False\<rparr>)) (thn (lift_op declared) (updateParameters ff reading))"

section \<open>Handlers of the client\<close>

definition subsessionStarted :: "'w dec_ffmpeg \<Rightarrow> video_codec \<Rightarrow> ('w subscriber, unit) op" where
  "subsessionStarted ff codec =
     thn (upd (\<lambda>s. s\<lparr>old_lag := 0\<rparr>))
    (thn (make_decoder ff codec)
    (thn (on_decoder (bnd (deref d_ctx) (\<lambda>c. ret ())))
         (bnd (deref s_client) (\<lambda>c. ret ()))))"

definition receiveDataStream :: "frame_data \<Rightarrow> ('w subscriber, unit) op" where
  "receiveDataStream f = upd (pushFrame f)"

definition sub_sessionStarted :: "('w subscriber, unit) op" where
  "sub_sessionStarted =
     upd (\<lambda>s. s\<lparr>cooldown := reconnect_minwait (s_config s), waits := [], cooldown_timer := None\<rparr>)"

definition sub_sessionTimeout :: "('w subscriber, unit) op" where
  "sub_sessionTimeout = thn (bnd (deref s_client) (\<lambda>c. ret ())) (reconnect_if ReconnectOnTimeout)"

definition sub_sessionFailed :: "('w subscriber, unit) op" where
  "sub_sessionFailed = thn (bnd (deref s_client) (\<lambda>c. ret ())) (reconnect_if ReconnectOnFailure)"

definition sub_sessionFinished :: "('w subscriber, unit) op" where
  "sub_sessionFinished = reconnect_if ReconnectAlways"

text \<open>
  The handlers that \<^verbatim>\<open>internalCallback\<close> installs. What \<open>subsessionStarted\<close> throws is caught
  in the client.
\<close>

definition notify :: "'w dec_ffmpeg \<Rightarrow> rtsp_note \<Rightarrow> ('w subscriber, unit) op" where
  "notify ff n =
     (case n of
        SubsessionStarted codec i \<Rightarrow> handle (subsessionStarted ff codec) (\<lambda>e. ret ())
      | ReceiveData codec i f \<Rightarrow> receiveDataStream f
      | SessionStarted \<Rightarrow> sub_sessionStarted
      | SessionTimeout \<Rightarrow> sub_sessionTimeout
      | SessionFailed code msg \<Rightarrow> sub_sessionFailed
      | SessionFinished \<Rightarrow> sub_sessionFinished
      | _ \<Rightarrow> ret ())"

primrec notify_all :: "'w dec_ffmpeg \<Rightarrow> rtsp_note list \<Rightarrow> ('w subscriber, unit) op" where
  "notify_all ff [] = ret ()"
| "notify_all ff (n # ns) = thn (notify ff n) (notify_all ff ns)"

section \<open>Decoding\<close>

text \<open>\<^verbatim>\<open>while (img = decoder->nextFrame()) callback_(img)\<close>.\<close>

partial_function (option) deliver_loop ::
  "(image \<Rightarrow> exn option) \<Rightarrow> 'w subscriber \<Rightarrow> ((fault + unit) \<times> 'w subscriber) option" where
  "deliver_loop deliver s =
     (case s_decoder s of
        None \<Rightarrow> Some (Inl NullDeref, s)
      | Some d \<Rightarrow>
          (case nextFrame d of
             (None, d') \<Rightarrow> Some (Inr (), s\<lparr>s_decoder := Some d'\<rparr>)
           | (Some img, d') \<Rightarrow>
               (case deliver img of
                  Some e \<Rightarrow> Some (Inl (Throw e), s\<lparr>s_decoder := Some d', images := images s @ [img]\<rparr>)
                | None \<Rightarrow> deliver_loop deliver (s\<lparr>s_decoder := Some d', images := images s @ [img]\<rparr>))))"

declare deliver_loop.simps [code]

definition loop_op :: "('s \<Rightarrow> ((fault + 'a) \<times> 's) option) \<Rightarrow> ('s, 'a) op" where
  "loop_op loop = (\<lambda>s. case loop s of None \<Rightarrow> (Inl Diverges, s) | Some r \<Rightarrow> r)"

text \<open>The restriction of the decoder for a lag; warnings are left out.\<close>

definition restrict_decoder :: "stamp \<Rightarrow> ('w subscriber, unit) op" where
  "restrict_decoder lag =
     thn (if lag \<ge> 2000000000
          then thn (upd (\<lambda>s. if old_lag s < 2000000000 then s\<lparr>old_lag := lag\<rparr> else s))
                   (on_decoder (setDecodeFrames NoFrames))
          else whenb (lag \<ge> 1000000000)
                 (thn (upd (\<lambda>s. if old_lag s < 1000000000 then s\<lparr>old_lag := lag\<rparr> else s))
                      (on_decoder (setDecodeFrames Key))))
         (if lag \<ge> 500000000
          then thn (upd (\<lambda>s. if old_lag s < 500000000 then s\<lparr>old_lag := lag\<rparr> else s))
                   (on_decoder (setDecodeFrames Intra))
          else thn (on_decoder (setDecodeFrames All))
                   (whenb (lag = 0) (upd (\<lambda>s. s\<lparr>old_lag := 0\<rparr>))))"

definition skipping :: "'w subscriber \<Rightarrow> discard option" where
  "skipping s = map_option skip_frame (Option.bind (s_decoder s) d_ctx)"

text \<open>The body of the loop in \<^verbatim>\<open>processFrame\<close>, for the frame that was popped.\<close>

definition process_turn ::
  "'w dec_ffmpeg \<Rightarrow> (image \<Rightarrow> exn option) \<Rightarrow> frame_data \<Rightarrow> ('w subscriber, unit) op" where
  "process_turn ff deliver f =
     bnd (gets frameLag) (\<lambda>lag.
     thn (restrict_decoder lag)
    (thn (upd (\<lambda>s. s\<lparr>fed := fed s @ [(f, skipping s)]\<rparr>))
    (bnd (on_decoder (decodeVideo ff f)) (\<lambda>n.
     whenb (n > 0) (loop_op (deliver_loop deliver))))))"

text \<open>
  The loop. The event loop of the client runs in a thread of its own: \<open>pushed\<close> lists the
  frames that it pushes before the first, the second and so on call of \<open>popFrame\<close>.
\<close>

partial_function (option) process_loop ::
  "'w dec_ffmpeg \<Rightarrow> (image \<Rightarrow> exn option) \<Rightarrow> frame_data list list \<Rightarrow> 'w subscriber \<Rightarrow>
   ((fault + unit) \<times> 'w subscriber) option" where
  "process_loop ff deliver pushed s =
     (case popFrame (fold pushFrame (concat (take 1 pushed)) s) of
        (None, s') \<Rightarrow> Some (Inr (), s')
      | (Some f, s') \<Rightarrow>
          (case process_turn ff deliver f s' of
             (Inl e, t) \<Rightarrow> Some (Inl e, t)
           | (Inr _, t) \<Rightarrow> process_loop ff deliver (drop 1 pushed) t))"

declare process_loop.simps [code]

definition processFrame ::
  "'w dec_ffmpeg \<Rightarrow> (image \<Rightarrow> exn option) \<Rightarrow> frame_data list list \<Rightarrow> ('w subscriber, unit) op" where
  "processFrame ff deliver pushed =
     bnd (gets (\<lambda>s. s_failed s \<or> s_decoder s = None)) (\<lambda>idle.
       whenb (\<not> idle)
         (handle (loop_op (process_loop ff deliver pushed))
            (\<lambda>e. case e of DecodingError m \<Rightarrow> ret () | _ \<Rightarrow> give_up)))"

section \<open>The subscriber at work\<close>

datatype sub_event =
    NewUrl string
  | Parameters sub_config
  | UnreadableParameters exn
  | FromClient client_event
  | Process "frame_data list list"
  | CooldownExpires
  | NodeGone
  | Shutdown

text \<open>What the constructor of a decoder for the codec would throw.\<close>

definition decoder_error :: "'w dec_ffmpeg \<Rightarrow> 'w subscriber \<Rightarrow> video_codec \<Rightarrow> exn option" where
  "decoder_error ff s codec =
     (case fst (StreamDecoder ff codec (use_hw_decoder (s_config s)) (blank_decoder codec (ff_world s))) of
        Inl (Throw e) \<Rightarrow> Some e
      | _ \<Rightarrow> None)"

definition with_handler :: "(video_codec \<Rightarrow> exn option) \<Rightarrow> client_event \<Rightarrow> client_event" where
  "with_handler accepts e = (case e of SetupReply code h \<Rightarrow> SetupReply code accepts | _ \<Rightarrow> e)"

definition from_client ::
  "'w dec_ffmpeg \<Rightarrow> (string \<Rightarrow> byte list list) \<Rightarrow> (int \<Rightarrow> nat \<Rightarrow> fault + stamp) \<Rightarrow> nat \<Rightarrow> client_event \<Rightarrow>
   ('w subscriber, unit) op" where
  "from_client ff parse mk_time pad e =
     bnd (gets id) (\<lambda>s. case s_client s of
       None \<Rightarrow> ret ()
     | Some c \<Rightarrow>
         whenb (from_network e)
           (thn (on_client (client_op parse mk_time pad (with_handler (decoder_error ff s) e)))
           (bnd (deref s_client) (\<lambda>c'. notify_all ff (notes_of c c')))))"

definition sub_op ::
  "'w dec_ffmpeg \<Rightarrow> (image \<Rightarrow> exn option) \<Rightarrow> (string \<Rightarrow> byte list list) \<Rightarrow> (int \<Rightarrow> nat \<Rightarrow> fault + stamp) \<Rightarrow>
   nat \<Rightarrow> sub_event \<Rightarrow> ('w subscriber, unit) op" where
  "sub_op ff deliver parse mk_time pad e =
     (case e of
        NewUrl url \<Rightarrow> internalCallback url
      | Parameters cfg \<Rightarrow> updateParameters ff (Inr cfg)
      | UnreadableParameters x \<Rightarrow> updateParameters ff (Inl (Throw x))
      | FromClient e \<Rightarrow> from_client ff parse mk_time pad e
      | Process pushed \<Rightarrow> processFrame ff deliver pushed
      | CooldownExpires \<Rightarrow>
          bnd (gets cooldown_timer) (\<lambda>t. whenb (t \<noteq> None) cooldownTimerCallback)
      | NodeGone \<Rightarrow> upd (\<lambda>s. s\<lparr>node := False\<rparr>)
      | Shutdown \<Rightarrow> sub_shutdown)"

end
