(* ===== verification/Subscriber_Run.thy ===== *)
theory Subscriber_Run
  imports Subscriber_Plugin
begin

text \<open>
  What the subscriber (theory \<open>Subscriber_Plugin\<close>) guarantees in every state that it
  reaches: no handler fails, a pending timer can always connect, the delays grow as the
  parameters say, frames are decoded in order.
\<close>

section \<open>Calls into the client and the decoder\<close>

lemma wp_on_client [wp_rules]:
  "wp (on_client m) Q E s =
     (case s_client s of None \<Rightarrow> E NullDeref s
      | Some c \<Rightarrow> wp m (\<lambda>a c'. Q a (s\<lparr>s_client := Some c'\<rparr>)) (\<lambda>f c'. E f (s\<lparr>s_client := Some c'\<rparr>)) c)"
  by (auto simp: on_client_def bnd_def deref_def wp_def split: option.split prod.splits sum.splits)

lemma wp_on_decoder [wp_rules]:
  "wp (on_decoder m) Q E s =
     (case s_decoder s of None \<Rightarrow> E NullDeref s
      | Some d \<Rightarrow> wp m (\<lambda>a d'. Q a (s\<lparr>s_decoder := Some d', ff_world := d_world d'\<rparr>))
          (\<lambda>f d'. E f (s\<lparr>s_decoder := Some d', ff_world := d_world d'\<rparr>)) (d\<lparr>d_world := ff_world s\<rparr>))"
  by (auto simp: on_decoder_def bnd_def deref_def wp_def split: option.split prod.splits sum.splits)

lemma dec_inv_world [simp]: "dec_inv (d\<lparr>d_world := w\<rparr>) = dec_inv d"
  by (simp add: dec_inv_def)

lemma wp_make_decoder:
  assumes "dec_names_ok ff"
  shows "wp (make_decoder ff codec)
    (\<lambda>_ t. \<exists>d. t = s\<lparr>s_decoder := Some d, ff_world := d_world d\<rparr> \<and> dec_inv d)
    (\<lambda>f t. (\<exists>e. f = Throw e) \<and> (\<exists>w. t = s\<lparr>ff_world := w\<rparr>)) s"
proof -
  let ?r = "StreamDecoder ff codec (use_hw_decoder (s_config s)) (blank_decoder codec (ff_world s))"
  obtain r d where rd: "?r = (r, d)" by (rule prod.exhaust)
  from wp_StreamDecoder [OF assms, of codec "use_hw_decoder (s_config s)" "ff_world s"] rd
  have "(case r of Inl f \<Rightarrow> \<exists>e. f = Throw (StreamingError e) | Inr _ \<Rightarrow> d_unused codec d \<and> d_chosen d \<noteq> None)"
    by (auto simp: wp_def split: sum.splits)
  then show ?thesis
    using rd by (auto simp: make_decoder_def wp_def d_unused_def d_chosen_def dec_inv_def split: sum.splits)
qed

section \<open>The invariant\<close>

definition sub_inv :: "'w subscriber \<Rightarrow> bool" where
  "sub_inv s \<longleftrightarrow>
     (\<forall>c. s_client s = Some c \<longrightarrow> client_inv c) \<and>
     (cooldown_timer s \<noteq> None \<longrightarrow> (\<exists>c. s_client s = Some c \<and> client c = None)) \<and>
     (\<forall>d. s_decoder s = Some d \<longrightarrow> s_client s \<noteq> None \<and> dec_inv d) \<and>
     (\<forall>img \<in> set (images s). image_ok img)"

text \<open>\<open>linked\<close>: moreover there is a client.\<close>

definition linked :: "'w subscriber \<Rightarrow> bool" where
  "linked s \<longleftrightarrow> sub_inv s \<and> s_client s \<noteq> None"

lemma linked_inv: "linked s \<Longrightarrow> sub_inv s"
  by (simp add: linked_def)

text \<open>A change that these predicates do not see.\<close>

lemma sub_inv_other:
  assumes "s_client t = s_client s" "cooldown_timer t = cooldown_timer s" "s_decoder t = s_decoder s"
    "images t = images s"
  shows "sub_inv t = sub_inv s" "linked t = linked s"
  using assms by (simp_all add: sub_inv_def linked_def)

text \<open>What \<open>reconnect\<close> does not touch.\<close>

definition same_run :: "'w subscriber \<Rightarrow> 'w subscriber \<Rightarrow> bool" where
  "same_run s t \<longleftrightarrow> node t = node s \<and> s_config t = s_config s \<and> s_failed t = s_failed s \<and>
     images t = images s \<and> fed t = fed s"

definition waiting_to_retry :: "'w subscriber \<Rightarrow> bool" where
  "waiting_to_retry s \<longleftrightarrow> linked s \<and> (\<exists>c. s_client s = Some c \<and> client c = None) \<and>
     (node s \<longrightarrow> cooldown_timer s \<noteq> None) \<and> queue s = []"

lemma wp_reconnect:
  assumes "linked s"
  shows "wp reconnect (\<lambda>_ t. waiting_to_retry t \<and> same_run s t) never s"
proof -
  obtain c where c: "s_client s = Some c" "client_inv c" using assms by (auto simp: linked_def sub_inv_def)
  show ?thesis
    unfolding reconnect_def wp_thn wp_on_client c(1) option.case
    by (rule wp_mono [OF wp_disconnect [OF c(2)]])
       (use assms c in \<open>auto simp: wp_rules linked_def sub_inv_def clearQueuedFrames_def
          waiting_to_retry_def same_run_def\<close>)
qed

lemma wp_reconnect_if:
  assumes "linked s"
  shows "wp (reconnect_if p) (\<lambda>_ t. linked t \<and> same_run s t \<and>
      (if reconnect_policy (s_config s) \<ge> p then waiting_to_retry t else t = s)) never s"
  unfolding reconnect_if_def wp_bnd wp_gets wp_whenb
  using assms by (auto simp: waiting_to_retry_def same_run_def intro: wp_mono [OF wp_reconnect])

lemma wp_give_up:
  assumes "linked s"
  shows "wp give_up (\<lambda>_ t. linked t \<and> s_failed t \<and> queue t = [] \<and> node t = node s \<and> s_config t = s_config s \<and> images t = images s \<and> fed t = fed s \<and>
      (reconnect_policy (s_config s) \<ge> ReconnectOnFailure \<longrightarrow> waiting_to_retry t)) never s"
proof -
  let ?s = "clearQueuedFrames (s\<lparr>s_failed := True\<rparr>)"
  have l: "linked ?s" using assms sub_inv_other(2) [of ?s s] by (simp add: clearQueuedFrames_def)
  show ?thesis unfolding give_up_def wp_thn wp_upd
    by (rule wp_mono [OF wp_reconnect_if [OF l]])
       (auto simp: clearQueuedFrames_def waiting_to_retry_def same_run_def split: if_splits)
qed

section \<open>The handlers\<close>

text \<open>What a handler may do to the connection.\<close>

definition handled :: "rtsp_note \<Rightarrow> 'w subscriber \<Rightarrow> 'w subscriber \<Rightarrow> bool" where
  "handled n s t \<longleftrightarrow> linked t \<and> same_run s t \<and>
     (waiting_to_retry t \<or>
      s_client t = s_client s \<and> (cooldown_timer t = cooldown_timer s \<or> n = SessionStarted)) \<and>
     (ends_session n \<and> reconnect_policy (s_config s) \<ge> ReconnectAlways \<longrightarrow> waiting_to_retry t)"

lemmas policies = ReconnectOnTimeout_def ReconnectOnFailure_def ReconnectAlways_def

lemma wp_subsessionStarted:
  assumes "dec_names_ok ff" and "linked s"
  shows "wp (handle (subsessionStarted ff codec) (\<lambda>e. ret ()))
    (\<lambda>_ t. linked t \<and> same_run s t \<and> s_client t = s_client s \<and> cooldown_timer t = cooldown_timer s) never s"
proof -
  let ?s = "s\<lparr>old_lag := 0\<rparr>"
  obtain c where c: "s_client s = Some c" using assms(2) by (auto simp: linked_def)
  have made: "wp (thn (on_decoder (bnd (deref d_ctx) (\<lambda>c. ret ()))) (bnd (deref s_client) (\<lambda>c. ret ())))
      (\<lambda>_ t. linked t \<and> same_run s t \<and> s_client t = s_client s \<and> cooldown_timer t = cooldown_timer s)
      (\<lambda>f t. case f of Throw e \<Rightarrow> wp (ret ()) (\<lambda>_ t. linked t \<and> same_run s t \<and> s_client t = s_client s \<and>
         cooldown_timer t = cooldown_timer s) never t | _ \<Rightarrow> False)
      (?s\<lparr>s_decoder := Some d, ff_world := d_world d\<rparr>)" if d: "dec_inv d" for d
  proof -
    obtain x where "d_ctx d = Some x" using d by (auto simp: dec_inv_def)
    with d c assms(2) show ?thesis by (simp add: wp_rules linked_def sub_inv_def same_run_def)
  qed
  show ?thesis
    unfolding subsessionStarted_def wp_handle wp_thn [of "upd _"] wp_upd wp_thn [of "make_decoder ff codec"]
    by (rule wp_mono [OF wp_make_decoder [OF assms(1), of codec ?s]])
       (use made assms(2) c in \<open>auto simp: wp_ret linked_def sub_inv_def same_run_def\<close>)
qed

lemma wp_notify:
  assumes ok: "dec_names_ok ff" and l: "linked s"
  shows "wp (notify ff n) (\<lambda>_. handled n s) never s"
proof -
  obtain c where c: "s_client s = Some c" using l by (auto simp: linked_def)
  have still: "handled n s s" if "\<not> ends_session n"
    using that l by (simp add: handled_def same_run_def)
  show ?thesis
  proof (cases n)
    case (SubsessionStarted codec i)
    with wp_subsessionStarted [OF ok l, of codec] show ?thesis
      by (auto simp: notify_def handled_def ends_session_def elim!: wp_mono)
  next
    case SessionStarted
    with l show ?thesis
      by (auto simp: notify_def sub_sessionStarted_def wp_upd handled_def ends_session_def same_run_def
          linked_def sub_inv_def)
  next
    case (SessionFailed code msg)
    with wp_reconnect_if [OF l, of ReconnectOnFailure] c show ?thesis
      by (auto simp: notify_def sub_sessionFailed_def wp_rules handled_def ends_session_def policies
          elim!: wp_mono split: if_splits)
  next
    case SessionFinished
    with wp_reconnect_if [OF l, of ReconnectAlways] c show ?thesis
      by (auto simp: notify_def sub_sessionFinished_def handled_def elim!: wp_mono split: if_splits)
  next
    case SessionTimeout
    with wp_reconnect_if [OF l, of ReconnectOnTimeout] c show ?thesis
      by (auto simp: notify_def sub_sessionTimeout_def wp_rules handled_def ends_session_def
          elim!: wp_mono split: if_splits)
  next
    case (ReceiveData codec i f)
    with l show ?thesis
      by (auto simp: notify_def receiveDataStream_def wp_upd handled_def ends_session_def same_run_def
          pushFrame_def linked_def sub_inv_def)
  qed (use still in \<open>simp_all add: notify_def wp_ret ends_session_def\<close>)
qed

text \<open>
  A subscriber that is not given up on: its client waits for a reply or plays, or the timer
  for the next attempt is set.
\<close>

definition lively :: "'w subscriber \<Rightarrow> bool" where
  "lively s \<longleftrightarrow> cooldown_timer s \<noteq> None \<or> (\<exists>c. s_client s = Some c \<and> busy c)"

lemma handled_lively:
  assumes "handled n s t" and "node s" and "reconnect_policy (s_config s) \<ge> ReconnectAlways"
    and "ends_session n \<or> lively s \<and> n \<noteq> SessionStarted \<or> (\<exists>c. s_client s = Some c \<and> busy c)"
  shows "lively t"
proof (cases "waiting_to_retry t")
  case True
  with assms show ?thesis by (simp add: waiting_to_retry_def handled_def same_run_def lively_def)
next
  case False
  with assms show ?thesis by (auto simp: handled_def lively_def)
qed

lemma same_run_trans: "same_run s t \<Longrightarrow> same_run t u \<Longrightarrow> same_run s u"
  by (simp add: same_run_def)

lemma wp_notify_all:
  assumes "dec_names_ok ff" and "linked s"
  shows "wp (notify_all ff ns) (\<lambda>_ t. linked t \<and> same_run s t) never s"
  using assms(2)
proof (induction ns arbitrary: s)
  case Nil
  then show ?case by (simp add: wp_ret same_run_def)
next
  case (Cons n ns)
  show ?case unfolding notify_all.simps wp_thn
  proof (rule wp_mono [OF wp_notify [OF assms(1) Cons.prems]])
    fix t
    assume "handled n s t"
    then have t: "linked t" "same_run s t" by (simp_all add: handled_def)
    show "wp (notify_all ff ns) (\<lambda>_ u. linked u \<and> same_run s u) never t"
      by (rule wp_mono [OF Cons.IH [OF t(1)]]) (auto intro: same_run_trans [OF t(2)])
  qed simp
qed

lemma wp_notify_all_lively:
  assumes ok: "dec_names_ok ff" and "linked s" and "node s"
    and "reconnect_policy (s_config s) \<ge> ReconnectAlways" and "SessionStarted \<notin> set ns"
    and "lively s \<or> (\<exists>ms n. ns = ms @ [n] \<and> ends_session n)"
  shows "wp (notify_all ff ns) (\<lambda>_ t. lively t) never s"
  using assms(2-)
proof (induction ns arbitrary: s)
  case Nil
  then show ?case by (simp add: wp_ret)
next
  case (Cons n ns)
  show ?case unfolding notify_all.simps wp_thn
  proof (rule wp_mono [OF wp_notify [OF ok Cons.prems(1)]])
    fix t
    assume h: "handled n s t"
    have "lively t \<or> (\<exists>ms n. ns = ms @ [n] \<and> ends_session n)"
    proof (cases "ns \<noteq> [] \<and> \<not> lively s")
      case True
      with Cons.prems(5) show ?thesis by (auto simp: Cons_eq_append_conv)
    next
      case False
      with Cons.prems have "ends_session n \<or> lively s \<and> n \<noteq> SessionStarted"
        by (auto simp: Cons_eq_append_conv)
      with handled_lively [OF h Cons.prems(2,3)] show ?thesis by blast
    qed
    with h Cons.prems show "wp (notify_all ff ns) (\<lambda>_ t. lively t) never t"
      by (intro Cons.IH) (simp_all add: handled_def same_run_def)
  qed simp
qed

section \<open>Events\<close>

abbreviation sound_ffmpeg :: "'w dec_ffmpeg \<Rightarrow> bool" where
  "sound_ffmpeg ff \<equiv> dec_names_ok ff \<and> frames_sized ff"

lemma from_network_with_handler [simp]: "from_network (with_handler h e) = from_network e"
  by (simp add: from_network_def with_handler_def split: client_event.split)

lemma linked_new_client:
  "linked s \<Longrightarrow> s_client s = Some c \<Longrightarrow> client_inv c' \<Longrightarrow> (client c = None \<Longrightarrow> client c' = None) \<Longrightarrow>
    linked (s\<lparr>s_client := Some c'\<rparr>)"
  by (auto simp: linked_def sub_inv_def)

text \<open>Nothing comes from the network for a client without a connection.\<close>

lemma client_op_unconnected:
  "client c = None \<Longrightarrow> from_network e \<Longrightarrow> client (snd (client_op parse mk_time pad e c)) = None \<and>
    notes_of c (snd (client_op parse mk_time pad e c)) = []"
  by (cases e) (simp_all add: client_op_def from_network_def on_reply_def op_defs subsession_at_def arrive_def notes_of_def)

lemma wp_conj:
  "wp m P E s \<Longrightarrow> wp m Q F s \<Longrightarrow> wp m (\<lambda>a t. P a t \<and> Q a t) (\<lambda>f t. E f t \<and> F f t) s"
  by (auto simp: wp_def split: prod.splits sum.splits)

lemma wp_network_event:
  assumes inv: "client_inv c" and net: "from_network e"
  shows "wp (client_op parse mk_time pad e) (\<lambda>_ d. client_inv d \<and> (client c = None \<longrightarrow> client d = None \<and> notes_of c d = []) \<and>
    trail d = trail c @ notes_of c d \<and>
    (SessionStarted \<in> set (notes_of c d) \<longrightarrow> notes_of c d = [SessionStarted]) \<and>
    (busy c \<longrightarrow> busy d \<or> ended_since (trail c) d)) never c"
proof -
  have none: "wp (client_op parse mk_time pad e) (\<lambda>_ d. client c = None \<longrightarrow> client d = None \<and> notes_of c d = []) (\<lambda>_ _. True) c"
    using client_op_unconnected [OF _ net, of c parse mk_time pad]
    by (auto simp: wp_def split: prod.split sum.split)
  have busy: "wp (client_op parse mk_time pad e) (\<lambda>_ d. busy c \<longrightarrow> busy d \<or> ended_since (trail c) d) (\<lambda>_ _. True) c"
  proof (cases "busy c")
    case True
    from wp_client_op_busy [OF inv net this] show ?thesis by (rule wp_mono) auto
  qed (auto simp: wp_def split: prod.split sum.split)
  have "e \<noteq> Connect" using net by (auto simp: from_network_def)
  then show ?thesis
    by (intro wp_mono [OF wp_conj [OF wp_client_op [OF inv] wp_conj [OF none wp_conj [OF wp_client_op_notes [OF net] busy]]]])
       auto
qed

lemma wp_from_client:
  assumes ok: "dec_names_ok ff" and inv: "sub_inv s"
  shows "wp (from_client ff parse mk_time pad e) (\<lambda>_ t. sub_inv t \<and> same_run s t \<and> (s_client s = None \<longrightarrow> s_client t = None) \<and>
    (node s \<and> reconnect_policy (s_config s) \<ge> ReconnectAlways \<and> s_client s \<noteq> None \<longrightarrow>
      lively s \<longrightarrow> s_client t \<noteq> None \<and> lively t)) never s" (is "wp _ ?Q _ s")
proof (cases "s_client s")
  case None
  with inv show ?thesis by (simp add: from_client_def wp_rules same_run_def)
next
  case (Some c)
  have c: "client_inv c" and l: "linked s" using inv Some by (simp_all add: sub_inv_def linked_def)
  show ?thesis
  proof (cases "from_network e")
    case False
    with inv Some show ?thesis by (simp add: from_client_def wp_rules same_run_def)
  next
    case net: True
    let ?e = "with_handler (decoder_error ff s) e"
    have step: "?Q () t" if "linked t \<and> same_run (s\<lparr>s_client := Some d\<rparr>) t"
      "node s \<and> reconnect_policy (s_config s) \<ge> ReconnectAlways \<and> lively s \<longrightarrow> lively t" for d t
      using that Some by (simp add: linked_def same_run_def)
    have "wp (client_op parse mk_time pad ?e) (\<lambda>_ d.
        wp (notify_all ff (notes_of c d)) ?Q never (s\<lparr>s_client := Some d\<rparr>)) never c"
    proof (rule wp_mono [OF wp_network_event [OF c]])
      show "from_network ?e" using net by simp
    next
      fix u d
      let ?s = "s\<lparr>s_client := Some d\<rparr>" and ?ns = "notes_of c d"
      assume d: "client_inv d \<and> (client c = None \<longrightarrow> client d = None \<and> ?ns = []) \<and>
        trail d = trail c @ ?ns \<and> (SessionStarted \<in> set ?ns \<longrightarrow> ?ns = [SessionStarted]) \<and>
        (busy c \<longrightarrow> busy d \<or> ended_since (trail c) d)"
      have d1: "client_inv d" "client c = None \<longrightarrow> client d = None \<and> ?ns = []"
        and d2: "SessionStarted \<in> set ?ns \<longrightarrow> ?ns = [SessionStarted]"
        and d3: "busy c \<longrightarrow> busy d \<or> ended_since (trail c) d" and d4: "trail d = trail c @ ?ns"
        using d by - (elim conjE, assumption)+
      have ls: "linked ?s" by (rule linked_new_client [OF l Some d1(1)]) (use d1(2) in simp)
      note all = wp_notify_all [OF ok ls, of ?ns]
      show "wp (notify_all ff ?ns) ?Q never ?s"
      proof (cases "node s \<and> reconnect_policy (s_config s) \<ge> ReconnectAlways \<and> lively s")
        case False
        then show ?thesis by (intro wp_mono [OF all] step) auto
      next
        case True
        then have k: "node ?s" "reconnect_policy (s_config ?s) \<ge> ReconnectAlways" by simp_all
        have "wp (notify_all ff ?ns) (\<lambda>_ t. lively t) never ?s"
        proof (cases "SessionStarted \<in> set ?ns")
          case True
          with d2 have ns: "?ns = [SessionStarted]" by simp
          with d1(2) have cc: "client c \<noteq> None" by (metis list.distinct(1))
          from \<open>node s \<and> _ \<and> lively s\<close> Some inv cc have "busy c" by (auto simp: lively_def sub_inv_def)
          with d3 have "busy d \<or> ended_since (trail c) d" by blast
          moreover have "\<not> ended_since (trail c) d"
            using d4 unfolding ns by (auto simp: ended_since_def ends_session_def)
          ultimately have "busy d" by blast
          then show ?thesis unfolding ns
            by (simp add: wp_thn wp_ret notify_def sub_sessionStarted_def wp_upd lively_def)
        next
          case no: False
          have "lively ?s \<or> (\<exists>ms n. ?ns = ms @ [n] \<and> ends_session n)"
          proof (cases "busy c")
            case True
            with d3 have "busy d \<or> ended_since (trail c) d" by blast
            moreover have "\<exists>ms n. ?ns = ms @ [n] \<and> ends_session n" if "ended_since (trail c) d"
              using that by (auto simp: ended_since_def notes_of_def)
            ultimately show ?thesis by (auto simp: lively_def)
          next
            case False
            with True Some show ?thesis by (auto simp: lively_def)
          qed
          from wp_notify_all_lively [OF ok ls k no this] show ?thesis .
        qed
        from wp_conj [OF all this] show ?thesis
          by (rule wp_mono) (use Some in \<open>auto simp: linked_def same_run_def\<close>)
      qed
    qed simp
    then show ?thesis
      using Some net by (simp add: from_client_def wp_bnd wp_gets wp_whenb wp_thn wp_on_client wp_deref)
  qed
qed

section \<open>Decoding the queue\<close>

text \<open>What decoding does not touch.\<close>

definition untouched :: "'w subscriber \<Rightarrow> 'w subscriber \<Rightarrow> bool" where
  "untouched s t \<longleftrightarrow> s_client t = s_client s \<and> cooldown_timer t = cooldown_timer s \<and> queue t = queue s \<and>
     node t = node s \<and> s_config t = s_config s \<and> s_failed t = s_failed s \<and> cooldown t = cooldown s \<and>
     waits t = waits s"

lemma untouched_refl [simp]: "untouched s s"
  by (simp add: untouched_def)

lemma untouched_trans: "untouched s t \<Longrightarrow> untouched t u \<Longrightarrow> untouched s u"
  by (simp add: untouched_def)

lemma deliver_loop_total:
  assumes "s_decoder s = Some d" and "dec_inv d"
  shows "\<exists>r t d'. deliver_loop deliver s = Some (r, t) \<and> s_decoder t = Some d' \<and> dec_inv d' \<and> d_ctx d' = d_ctx d \<and>
    (\<exists>imgs. images t = images s @ imgs \<and> set imgs \<subseteq> set (frames d)) \<and>
    (\<forall>f. r = Inl f \<longrightarrow> (\<exists>e. f = Throw e)) \<and>
    untouched s t \<and> fed t = fed s"
  using assms
proof (induction "frames d" arbitrary: s d)
  case Nil
  then show ?case by (simp add: deliver_loop.simps nextFrame_def untouched_def)
next
  case (Cons img rest)
  let ?d = "d\<lparr>frames := rest\<rparr>"
  let ?s = "s\<lparr>s_decoder := Some ?d, images := images s @ [img]\<rparr>"
  have d: "dec_inv ?d" using Cons.prems(2) Cons.hyps(2) [symmetric] by (auto simp: dec_inv_def)
  have nf: "nextFrame d = (Some img, ?d)" using Cons.hyps(2) [symmetric] by (simp add: nextFrame_def)
  show ?case
  proof (cases "deliver img")
    case (Some e)
    with Cons.prems nf d Cons.hyps(2) [symmetric] show ?thesis
      by (simp add: deliver_loop.simps untouched_def)
  next
    case None
    have "\<exists>r t d'. deliver_loop deliver ?s = Some (r, t) \<and> s_decoder t = Some d' \<and> dec_inv d' \<and> d_ctx d' = d_ctx ?d \<and>
      (\<exists>imgs. images t = images ?s @ imgs \<and> set imgs \<subseteq> set (frames ?d)) \<and>
      (\<forall>f. r = Inl f \<longrightarrow> (\<exists>e. f = Throw e)) \<and> untouched ?s t \<and> fed t = fed ?s"
      by (rule Cons.hyps(1)) (use d in simp_all)
    then obtain r t d' imgs where t: "deliver_loop deliver ?s = Some (r, t)" "s_decoder t = Some d'" "dec_inv d'"
      "d_ctx d' = d_ctx ?d" "images t = images ?s @ imgs" "set imgs \<subseteq> set (frames ?d)"
      "\<forall>f. r = Inl f \<longrightarrow> (\<exists>e. f = Throw e)" "untouched ?s t" "fed t = fed ?s" by blast
    have "deliver_loop deliver s = Some (r, t)"
      using t(1) Cons.prems(1) nf None by (subst deliver_loop.simps) simp
    moreover have "images t = images s @ (img # imgs)" using t(5) by simp
    moreover have "set (img # imgs) \<subseteq> set (frames d)" using t(6) Cons.hyps(2) [symmetric] by auto
    moreover have "untouched s t" "fed t = fed s" using t(8,9) by (simp_all add: untouched_def)
    moreover have "d_ctx d' = d_ctx d" using t(4) by simp
    ultimately show ?thesis using t(2,3,7) by blast
  qed
qed

definition decoding :: "'w subscriber \<Rightarrow> bool" where
  "decoding s \<longleftrightarrow> (\<exists>d. s_decoder s = Some d \<and> dec_inv d) \<and> (\<forall>img \<in> set (images s). image_ok img)"

definition lag_mode :: "stamp \<Rightarrow> discard" where
  "lag_mode lag = (if lag \<ge> 500000000 then DISCARD_NONINTRA else DISCARD_DEFAULT)"

lemma wp_set_mode:
  assumes "decoding s"
  shows "wp (on_decoder (setDecodeFrames which)) (\<lambda>_ t. decoding t \<and> untouched s t \<and> fed t = fed s \<and>
    images t = images s \<and> frameLag t = frameLag s \<and> skipping t = Some (case which of All \<Rightarrow> DISCARD_DEFAULT
      | Intra \<Rightarrow> DISCARD_NONINTRA | Key \<Rightarrow> DISCARD_NONKEY | NoFrames \<Rightarrow> DISCARD_ALL)) never s"
proof -
  obtain d c where "s_decoder s = Some d" "dec_inv d" "d_ctx d = Some c"
    using assms by (auto simp: decoding_def dec_inv_def)
  with assms show ?thesis
    by (auto simp: wp_rules setDecodeFrames_def decoding_def untouched_def skipping_def dec_inv_def frameLag_def)
qed

lemma decoding_lag [simp]: "decoding (s\<lparr>old_lag := l\<rparr>) = decoding s" "untouched s (t\<lparr>old_lag := l\<rparr>) = untouched s t"
    "untouched (s\<lparr>old_lag := l\<rparr>) t = untouched s t" "skipping (s\<lparr>old_lag := l\<rparr>) = skipping s"
  by (simp_all add: decoding_def untouched_def skipping_def)

lemma wp_mode_step:
  assumes "decoding s"
  shows "wp (thn (upd (\<lambda>s. if old_lag s < b then s\<lparr>old_lag := lag\<rparr> else s)) (on_decoder (setDecodeFrames which)))
    (\<lambda>_ t. decoding t \<and> untouched s t \<and> fed t = fed s \<and> images t = images s \<and>
      skipping t = Some (case which of All \<Rightarrow> DISCARD_DEFAULT
      | Intra \<Rightarrow> DISCARD_NONINTRA | Key \<Rightarrow> DISCARD_NONKEY | NoFrames \<Rightarrow> DISCARD_ALL)) never s"
proof -
  let ?s = "if old_lag s < b then s\<lparr>old_lag := lag\<rparr> else s"
  have "decoding ?s" using assms by simp
  from wp_set_mode [OF this, of which] show ?thesis
    unfolding wp_thn wp_upd by (rule wp_mono) (auto split: if_splits)
qed

lemma wp_restrict_decoder:
  assumes "decoding s"
  shows "wp (restrict_decoder lag) (\<lambda>_ t. decoding t \<and> untouched s t \<and> fed t = fed s \<and> images t = images s \<and>
    skipping t = Some (lag_mode lag)) never s"
proof -
  let ?same = "\<lambda>t. decoding t \<and> untouched s t \<and> fed t = fed s \<and> images t = images s"
  have first: "wp (if lag \<ge> 2000000000
          then thn (upd (\<lambda>s. if old_lag s < 2000000000 then s\<lparr>old_lag := lag\<rparr> else s))
                   (on_decoder (setDecodeFrames NoFrames))
          else whenb (lag \<ge> 1000000000)
                 (thn (upd (\<lambda>s. if old_lag s < 1000000000 then s\<lparr>old_lag := lag\<rparr> else s))
                      (on_decoder (setDecodeFrames Key)))) (\<lambda>_. ?same) never s"
    using assms by (auto simp: wp_whenb intro!: wp_mono [OF wp_mode_step [OF assms]])
  have second: "wp (if lag \<ge> 500000000
          then thn (upd (\<lambda>s. if old_lag s < 500000000 then s\<lparr>old_lag := lag\<rparr> else s))
                   (on_decoder (setDecodeFrames Intra))
          else thn (on_decoder (setDecodeFrames All))
                   (whenb (lag = 0) (upd (\<lambda>s. s\<lparr>old_lag := 0\<rparr>))))
      (\<lambda>_ u. decoding u \<and> untouched s u \<and> fed u = fed s \<and> images u = images s \<and>
        skipping u = Some (lag_mode lag)) never t" if t: "?same t" for t
  proof (cases "lag \<ge> 500000000")
    case True
    with t show ?thesis
      by (auto simp: lag_mode_def intro!: wp_mono [OF wp_mode_step] elim: untouched_trans)
  next
    case False
    with t show ?thesis
      by (auto simp: lag_mode_def wp_thn wp_whenb wp_upd intro!: wp_mono [OF wp_set_mode] elim: untouched_trans)
  qed
  show ?thesis unfolding restrict_decoder_def wp_thn [of "if _ then _ else _"]
    by (rule wp_mono [OF first]) (rule second, simp_all)
qed

text \<open>One turn of the loop.\<close>

definition turned :: "frame_data \<Rightarrow> 'w subscriber \<Rightarrow> 'w subscriber \<Rightarrow> bool" where
  "turned f s t \<longleftrightarrow> decoding t \<and> untouched s t \<and> fed t = fed s @ [(f, Some (lag_mode (frameLag s)))] \<and>
     (\<exists>imgs. images t = images s @ imgs)"

lemma wp_process_turn:
  assumes d: "decoding s" and sized: "frames_sized ff"
  shows "wp (process_turn ff deliver f) (\<lambda>_. turned f s)
    (\<lambda>e t. turned f s t \<and> (exhausting ff \<longrightarrow> e \<noteq> Diverges)) s" (is "wp _ _ ?E s")
proof -
  let ?fed = "fed s @ [(f, Some (lag_mode (frameLag s)))]"
  have rest: "wp (bnd (on_decoder (decodeVideo ff f)) (\<lambda>n. whenb (n > 0) (loop_op (deliver_loop deliver))))
      (\<lambda>_. turned f s) ?E t"
    if t: "decoding t" "untouched s t" "fed t = ?fed" "images t = images s" for t
  proof -
    obtain d where d: "s_decoder t = Some d" "dec_inv d" using t(1) by (auto simp: decoding_def)
    have good: "\<forall>img \<in> set (images t). image_ok img" using t(1) by (simp add: decoding_def)
    let ?t = "\<lambda>d'. t\<lparr>s_decoder := Some d', ff_world := d_world d'\<rparr>"
    have deliver: "wp (whenb (n > 0) (loop_op (deliver_loop deliver))) (\<lambda>_. turned f s) ?E (?t d')"
      if d': "dec_inv d'" for n d'
    proof -
      from deliver_loop_total [of "?t d'" d' deliver] d' obtain r u d2 imgs where
        u: "deliver_loop deliver (?t d') = Some (r, u)" "s_decoder u = Some d2" "dec_inv d2"
          "images u = images t @ imgs" "set imgs \<subseteq> set (frames d')" "untouched (?t d') u" "fed u = fed t"
          "\<forall>f. r = Inl f \<longrightarrow> (\<exists>e. f = Throw e)" by auto
      have "\<forall>img \<in> set imgs. image_ok img" using u(5) d' by (auto simp: dec_inv_def)
      with u good t have "turned f s u" by (auto simp: turned_def decoding_def untouched_def)
      moreover have "turned f s (?t d')" using t d' good by (simp add: turned_def decoding_def untouched_def)
      ultimately show ?thesis using u(1,8)
        by (simp add: wp_whenb) (auto simp: wp_def loop_op_def split: sum.split)
    qed
    have ends: "wp (decodeVideo ff f) (\<lambda>_ _. True) (\<lambda>e _. exhausting ff \<longrightarrow> e \<noteq> Diverges) u" for u
      using decodeVideo_returns [of ff f u] by (cases "exhausting ff") (auto simp: wp_def split: prod.split sum.split)
    have stopped: "turned f s (?t d')" if "dec_inv d'" for d'
      using t that good by (simp add: turned_def decoding_def untouched_def)
    have "wp (decodeVideo ff f) (\<lambda>n d'. wp (whenb (n > 0) (loop_op (deliver_loop deliver)))
        (\<lambda>_. turned f s) ?E (?t d')) (\<lambda>e d'. ?E e (?t d')) (d\<lparr>d_world := ff_world t\<rparr>)"
    proof (rule wp_mono [OF wp_both [OF wp_decodeVideo [OF _ sized] ends]])
      show "dec_inv (d\<lparr>d_world := ff_world t\<rparr>)" using d(2) by simp
    qed (auto intro: deliver stopped)
    with d show ?thesis by (simp add: wp_bnd wp_on_decoder)
  qed
  show ?thesis
    unfolding process_turn_def wp_bnd [of "gets frameLag"] wp_gets wp_thn [of "restrict_decoder _"] wp_thn [of "upd _"] wp_upd
    by (rule wp_mono [OF wp_restrict_decoder [OF d]]) (rule rest, auto simp: decoding_def untouched_def skipping_def)
qed

text \<open>
  The whole loop: from \<open>s\<close> to \<open>t\<close>, with \<open>pushed\<close> coming in. The frames that were fed to the
  decoder and those still queued are the queued and the pushed ones, in order.
\<close>

definition processed :: "frame_data list list \<Rightarrow> fault + unit \<Rightarrow> 'w subscriber \<Rightarrow> 'w subscriber \<Rightarrow> bool" where
  "processed pushed r s t \<longleftrightarrow> decoding t \<and> untouched (clearQueuedFrames s) (clearQueuedFrames t) \<and>
     (\<exists>imgs. images t = images s @ imgs) \<and>
     (\<exists>k new. fed t = fed s @ new \<and> map fst new @ queue t = queue s @ concat (take k pushed) \<and>
        snd ` set new \<subseteq> {Some DISCARD_DEFAULT, Some DISCARD_NONINTRA}) \<and>
     (r = Inr () \<longrightarrow> queue t = [])"

lemma fold_pushFrame: "fold pushFrame xs s = s\<lparr>queue := queue s @ xs\<rparr>"
  by (induction xs arbitrary: s) (simp_all add: pushFrame_def)

lemma concat_take_Suc: "concat (take 1 p) @ concat (take k (drop 1 p)) = concat (take (Suc k) p)"
  by (cases p) simp_all

lemma processed_turn:
  assumes turn: "turned f (s\<lparr>queue := fs\<rparr>) u" and q: "queue s @ concat (take 1 pushed) = f # fs"
    and rest: "processed (drop 1 pushed) r u t"
  shows "processed pushed r s t"
proof -
  let ?m = "Some (lag_mode (frameLag (s\<lparr>queue := fs\<rparr>)))"
  have u: "untouched (s\<lparr>queue := fs\<rparr>) u" "fed u = fed s @ [(f, ?m)]" using turn by (simp_all add: turned_def)
  then have qu: "queue u = fs" by (simp add: untouched_def)
  obtain k new where k: "fed t = fed u @ new" "map fst new @ queue t = queue u @ concat (take k (drop 1 pushed))"
    "snd ` set new \<subseteq> {Some DISCARD_DEFAULT, Some DISCARD_NONINTRA}"
    using rest by (auto simp: processed_def)
  have "map fst ((f, ?m) # new) @ queue t = f # fs @ concat (take k (drop 1 pushed))"
    using k(2) qu by simp
  also have "\<dots> = queue s @ concat (take (Suc k) pushed)"
    using q by (metis append.assoc append_Cons concat_take_Suc)
  finally have "map fst ((f, ?m) # new) @ queue t = queue s @ concat (take (Suc k) pushed)" .
  moreover have "fed t = fed s @ ((f, ?m) # new)" using k(1) u(2) by simp
  moreover have "snd ` set ((f, ?m) # new) \<subseteq> {Some DISCARD_DEFAULT, Some DISCARD_NONINTRA}"
    using k(3) by (simp add: lag_mode_def)
  moreover have "untouched (clearQueuedFrames s) (clearQueuedFrames t)"
    using rest u(1) by (simp add: processed_def untouched_def clearQueuedFrames_def)
  moreover have "\<exists>imgs. images t = images s @ imgs"
    using rest turn by (auto simp: processed_def turned_def)
  ultimately show ?thesis using rest unfolding processed_def by blast
qed

lemma process_loop_empty:
  assumes "queue s @ concat (take 1 pushed) = []" and "decoding s"
  shows "process_loop ff deliver pushed s = Some (Inr (), s\<lparr>queue := []\<rparr>)"
    "processed pushed (Inr ()) s (s\<lparr>queue := []\<rparr>)"
proof -
  have "fold pushFrame (concat (take 1 pushed)) s = s\<lparr>queue := []\<rparr>"
    using assms(1) unfolding fold_pushFrame by simp
  then show "process_loop ff deliver pushed s = Some (Inr (), s\<lparr>queue := []\<rparr>)"
    by (subst process_loop.simps) (simp add: popFrame_def)
  show "processed pushed (Inr ()) s (s\<lparr>queue := []\<rparr>)"
    using assms by (auto simp: processed_def clearQueuedFrames_def decoding_def intro!: exI [of _ 0])
qed

lemma process_loop_total:
  assumes sized: "frames_sized ff" and d: "decoding s"
  shows "\<exists>r t. process_loop ff deliver pushed s = Some (r, t) \<and> processed pushed r s t \<and>
    (exhausting ff \<longrightarrow> r \<noteq> Inl Diverges)"
  using d
proof (induction "length (queue s) + length (concat pushed)" arbitrary: s pushed)
  case 0
  then have "queue s @ concat (take 1 pushed) = []" by (cases pushed) simp_all
  from process_loop_empty [OF this 0(2)] show ?case by (metis sum.distinct(1))
next
  case (Suc n)
  let ?q = "queue s @ concat (take 1 pushed)"
  show ?case
  proof (cases ?q)
    case Nil
    from process_loop_empty [OF this Suc.prems] show ?thesis by (metis sum.distinct(1))
  next
    case (Cons f fs)
    let ?s = "s\<lparr>queue := fs\<rparr>"
    have ds: "decoding ?s" using Suc.prems by (simp add: decoding_def)
    obtain r u where turn: "process_turn ff deliver f ?s = (r, u)" by (rule prod.exhaust)
    with wp_process_turn [OF ds sized, of deliver f] have tu: "turned f ?s u"
      and re: "exhausting ff \<longrightarrow> r \<noteq> Inl Diverges"
      by (auto simp: wp_def split: sum.splits)
    have loop: "process_loop ff deliver pushed s = (case r of Inl e \<Rightarrow> Some (Inl e, u)
        | Inr _ \<Rightarrow> process_loop ff deliver (drop 1 pushed) u)"
      using Cons turn by (subst process_loop.simps) (simp add: fold_pushFrame popFrame_def split: sum.split)
    have du: "decoding u" and qu: "queue u = fs" using tu by (simp_all add: turned_def untouched_def)
    show ?thesis
    proof (cases r)
      case (Inl e)
      have "processed (drop 1 pushed) (Inl e) u u"
        using du by (auto simp: processed_def intro!: exI [of _ 0])
      from processed_turn [OF tu Cons this] Inl loop re show ?thesis by simp
    next
      case (Inr x)
      have "length ?q + length (concat (drop 1 pushed)) = Suc n"
        using Suc.hyps(2) by (cases pushed) simp_all
      with Cons qu have "n = length (queue u) + length (concat (drop 1 pushed))" by simp
      from Suc.hyps(1) [OF this du] processed_turn [OF tu Cons] Inr loop show ?thesis by auto
    qed
  qed
qed

section \<open>Every event keeps the invariant\<close>

lemma connect_new:
  assumes "client c = None"
  shows "connect c = (Inr (), c\<lparr>trail := trail c @ [Send DESCRIBE],
    client := Some ((live_setSessionTimeout (c_timeout c) new_live)\<lparr>pending := Some DESCRIBE\<rparr>)\<rparr>)"
  using assms by (simp add: connect_def send_def emit_def upd_live_def op_defs)

lemma wp_connect_new:
  assumes "client_inv c" and "client c = None"
  shows "wp connect (\<lambda>_ d. client_inv d \<and> busy d) never c"
proof -
  have "wp connect (\<lambda>_ d. client_inv d \<and> settled (trail c) d) never c" by (rule wp_connect [OF assms])
  moreover have "wp connect (\<lambda>_. busy) never c" using connect_new [OF assms(2)] by (simp add: wp_def busy_def)
  ultimately show ?thesis by (auto simp: wp_def split: prod.splits sum.splits)
qed

lemma sub_inv_busy:
  assumes "sub_inv s" and "cooldown_timer t = None" and "s_client t = Some d" and "client_inv d"
    and "s_decoder t = s_decoder s" and "images t = images s"
  shows "sub_inv t"
  using assms by (auto simp: sub_inv_def)

lemma wp_cooldownTimerCallback:
  assumes inv: "sub_inv s" and timer: "cooldown_timer s \<noteq> None"
  shows "wp cooldownTimerCallback (\<lambda>_ t. sub_inv t \<and> lively t \<and> node t = node s \<and> s_config t = s_config s) never s"
proof -
  obtain c where c: "s_client s = Some c" "client c = None" "client_inv c"
    using inv timer by (auto simp: sub_inv_def)
  have "s_client (clearQueuedFrames (s\<lparr>cooldown_timer := None\<rparr>)) = Some c"
    using c(1) by (simp add: clearQueuedFrames_def)
  then show ?thesis
    unfolding cooldownTimerCallback_def wp_thn wp_upd wp_on_client
    using wp_connect_new [OF c(3,2)] inv
    by (auto simp: lively_def clearQueuedFrames_def elim!: wp_mono intro: sub_inv_busy)
qed

lemma client_inv_setSessionTimeout: "client_inv c \<Longrightarrow> client_inv (setSessionTimeout t c)"
  by (auto simp: setSessionTimeout_def client_inv_def live_setSessionTimeout_inv)

lemma setSessionTimeout_kept [simp]:
  "client (setSessionTimeout t c) = None \<longleftrightarrow> client c = None" "c_codec (setSessionTimeout t c) = c_codec c"
  by (simp_all add: setSessionTimeout_def)

lemma busy_setSessionTimeout: "busy c \<Longrightarrow> busy (setSessionTimeout t c)"
  by (cases "client c") (auto simp: busy_def setSessionTimeout_def live_setSessionTimeout_def Let_def)

lemma wp_internalCallback:
  assumes inv: "sub_inv s"
  shows "wp (internalCallback url) (\<lambda>_ t. sub_inv t \<and> lively t \<and> s_client t \<noteq> None \<and> node t = node s \<and>
    s_config t = s_config s) never s"
proof -
  let ?c = "setSessionTimeout (timeout (s_config s)) (new_client url)"
  have c: "client_inv ?c" "client ?c = None"
    by (simp_all add: setSessionTimeout_def new_client_def client_inv_def)
  from wp_connect_new [OF this] show ?thesis
    unfolding internalCallback_def
    by (auto simp: wp_rules lively_def elim!: wp_mono intro: sub_inv_busy [OF inv])
qed

definition fixed_config :: "sub_config \<Rightarrow> sub_config" where
  "fixed_config cfg = cfg\<lparr>reconnect_maxwait := max (reconnect_minwait cfg) (reconnect_maxwait cfg)\<rparr>"

lemma fixed_config_eq:
  "(if reconnect_maxwait cfg < reconnect_minwait cfg
    then cfg\<lparr>reconnect_maxwait := reconnect_minwait cfg\<rparr> else cfg) = fixed_config cfg"
  by (simp add: fixed_config_def max_def)

lemma fixed_config_policy [simp]: "reconnect_policy (fixed_config cfg) = reconnect_policy cfg"
  by (simp add: fixed_config_def)

lemma wp_updateParameters:
  assumes ok: "dec_names_ok ff" and inv: "sub_inv s"
  shows "wp (updateParameters ff (Inr cfg)) (\<lambda>_ t. sub_inv t \<and> node t = node s \<and> (s_client t = None \<longleftrightarrow> s_client s = None) \<and>
    s_config t = (if node s then fixed_config cfg else s_config s) \<and>
    (node s \<and> lively s \<and> reconnect_policy cfg \<ge> ReconnectOnFailure \<longrightarrow> lively t)) never s" (is "wp _ ?Q _ s")
proof (cases "node s")
  case False
  with inv show ?thesis by (simp add: updateParameters_Inr apply_config_def wp_rules)
next
  case node: True
  let ?cfg = "fixed_config cfg"
  let ?s = "s\<lparr>cooldown := reconnect_minwait cfg, waits := [], s_config := ?cfg\<rparr>"
  show ?thesis
  proof (cases "s_client s")
    case None
    have "sub_inv ?s" using inv by (simp add: sub_inv_def)
    with None node show ?thesis by (simp add: updateParameters_Inr apply_config_def fixed_config_eq wp_rules lively_def)
  next
    case (Some c)
    let ?t = "?s\<lparr>s_client := Some (setSessionTimeout (timeout cfg) c)\<rparr>"
    have lt: "linked ?t"
      using inv Some client_inv_setSessionTimeout by (auto simp: linked_def sub_inv_def)
    have live: "lively s \<Longrightarrow> lively ?t" using Some busy_setSessionTimeout by (auto simp: lively_def)
    have stay: "?Q () ?t" using lt live node Some by (simp add: linked_def)
    have new: "?Q () (?t\<lparr>s_decoder := Some d, ff_world := w\<rparr>)" if "dec_inv d" for d w
      using lt live that node Some by (auto simp: linked_def sub_inv_def lively_def)
    have quit: "wp give_up ?Q never (?t\<lparr>ff_world := w\<rparr>)" for w
    proof -
      have "linked (?t\<lparr>ff_world := w\<rparr>)" using lt by (simp add: linked_def sub_inv_def)
      from wp_give_up [OF this] show ?thesis
        by (rule wp_mono) (use node Some in \<open>auto simp: linked_def waiting_to_retry_def lively_def\<close>)
    qed
    have make: "wp (make_decoder ff codec) ?Q
        (\<lambda>f t. case f of Throw e \<Rightarrow> wp give_up ?Q never t | _ \<Rightarrow> False) ?t" for codec
      by (rule wp_mono [OF wp_make_decoder [OF ok]]) (use new quit in auto)
    have "wp (updateParameters ff (Inr cfg)) Q never s =
        (if use_hw_decoder cfg \<noteq> use_hw_decoder (s_config s)
         then wp (make_decoder ff (c_codec c)) Q
           (\<lambda>f t. case f of Throw e \<Rightarrow> wp give_up Q never t | _ \<Rightarrow> False) ?t
         else Q () ?t)" for Q
      using node Some by (simp add: updateParameters_Inr apply_config_def fixed_config_eq wp_rules)
    from this [of ?Q] show ?thesis
      unfolding if_split [of "\<lambda>b. b"] using make stay by simp
  qed
qed

lemma wp_sub_shutdown:
  assumes inv: "sub_inv s"
  shows "wp sub_shutdown (\<lambda>_ t. sub_inv t \<and> s_config t = s_config s) never s"
proof (cases "s_client s")
  case None
  with inv show ?thesis by (simp add: sub_shutdown_def wp_rules sub_inv_def clearQueuedFrames_def)
next
  case (Some c)
  then have c: "client_inv c" using inv by (simp add: sub_inv_def)
  show ?thesis
    unfolding sub_shutdown_def using Some inv
    by (auto simp: wp_thn wp_upd wp_bnd wp_gets wp_whenb wp_on_client sub_inv_def clearQueuedFrames_def
        intro!: wp_mono [OF wp_disconnect [OF c]])
qed

lemma wp_processFrame:
  assumes sized: "frames_sized ff" and inv: "sub_inv s"
  shows "wp (processFrame ff deliver pushed) (\<lambda>_ t. sub_inv t \<and> node t = node s \<and> s_config t = s_config s \<and>
      (s_client t = None \<longleftrightarrow> s_client s = None) \<and>
      (node s \<and> lively s \<and> reconnect_policy (s_config s) \<ge> ReconnectOnFailure \<longrightarrow> lively t))
    (\<lambda>f t. (sub_inv t \<and> node t = node s \<and> s_config t = s_config s \<and>
      (s_client t = None \<longleftrightarrow> s_client s = None) \<and>
      (node s \<and> lively s \<and> reconnect_policy (s_config s) \<ge> ReconnectOnFailure \<longrightarrow> lively t)) \<and>
      (\<forall>e. f \<noteq> Throw e)) s" (is "wp _ ?Q ?E s")
proof (cases "s_failed s \<or> s_decoder s = None")
  case True
  with inv show ?thesis by (simp add: processFrame_def wp_rules)
next
  case False
  with inv have d: "decoding s" and client: "s_client s \<noteq> None"
    by (auto simp: decoding_def sub_inv_def)
  obtain r t where rt: "process_loop ff deliver pushed s = Some (r, t)" "processed pushed r s t"
    using process_loop_total [OF sized d] by blast
  then have t: "untouched (clearQueuedFrames s) (clearQueuedFrames t)" "decoding t"
    by (simp_all add: processed_def)
  then have l: "linked t" and same: "node t = node s" "s_config t = s_config s" "s_client t = s_client s"
    "cooldown_timer t = cooldown_timer s"
    using inv client by (auto simp: untouched_def clearQueuedFrames_def linked_def sub_inv_def decoding_def)
  have quit: "wp give_up ?Q ?E t"
    by (rule wp_mono [OF wp_give_up [OF l]])
       (use same client in \<open>auto simp: linked_def waiting_to_retry_def lively_def\<close>)
  have stay: "?Q () t" using l same by (simp add: linked_def lively_def)
  have loop: "loop_op (process_loop ff deliver pushed) s = (r, t)" using rt(1) by (simp add: loop_op_def)
  have "wp (loop_op (process_loop ff deliver pushed)) ?Q
      (\<lambda>f t. case f of Throw e \<Rightarrow> wp (case e of DecodingError m \<Rightarrow> ret () | _ \<Rightarrow> give_up) ?Q ?E t | _ \<Rightarrow> ?E f t) s"
    unfolding wp_def [of "loop_op _"] loop
    using quit stay linked_inv [OF l] by (auto simp: wp_ret split: sum.split fault.split exn.split)
  moreover have "wp (processFrame ff deliver pushed) Q E s = wp (loop_op (process_loop ff deliver pushed)) Q
      (\<lambda>f t. case f of Throw e \<Rightarrow> wp (case e of DecodingError m \<Rightarrow> ret () | _ \<Rightarrow> give_up) Q E t | _ \<Rightarrow> E f t) s" for Q E
    using False by (simp add: processFrame_def wp_bnd wp_gets wp_whenb wp_handle)
  ultimately show ?thesis by blast
qed

text \<open>An event that ends the subscriber's work, or lets it give up.\<close>

definition final_event :: "sub_event \<Rightarrow> bool" where
  "final_event e \<longleftrightarrow> (case e of NodeGone \<Rightarrow> True | Shutdown \<Rightarrow> True
     | Parameters cfg \<Rightarrow> reconnect_policy cfg < ReconnectAlways | _ \<Rightarrow> False)"

definition persistent :: "'w subscriber \<Rightarrow> bool" where
  "persistent s \<longleftrightarrow> node s \<and> reconnect_policy (s_config s) \<ge> ReconnectAlways \<and> (s_client s = None \<or> lively s)"

lemma no_client_not_lively: "sub_inv s \<Longrightarrow> s_client s = None \<Longrightarrow> \<not> lively s"
  by (auto simp: sub_inv_def lively_def)

text \<open>Only \<open>updateParameters\<close> writes the configuration.\<close>

definition configured :: "sub_event \<Rightarrow> 'w subscriber \<Rightarrow> 'w subscriber \<Rightarrow> bool" where
  "configured e s t \<longleftrightarrow> s_config t = s_config s \<or> (\<exists>cfg. e = Parameters cfg \<and> s_config t = fixed_config cfg)"

lemma wp_sub_op:
  assumes ok: "sound_ffmpeg ff" and inv: "sub_inv s"
  shows "wp (sub_op ff deliver parse mk_time pad e)
    (\<lambda>_ t. sub_inv t \<and> (persistent s \<and> \<not> final_event e \<longrightarrow> persistent t) \<and> configured e s t)
    (\<lambda>f t. sub_inv t \<and> (persistent s \<and> \<not> final_event e \<longrightarrow> persistent t) \<and> configured e s t \<and>
      ((\<exists>pushed. e = Process pushed) \<and> (\<forall>x. f \<noteq> Throw x) \<or>
       (\<exists>x. e = UnreadableParameters x \<and> f = Throw x \<and> t = s))) s"
proof (cases e)
  case (UnreadableParameters x)
  with inv show ?thesis by (simp add: wp_def sub_op_def updateParameters_Inl configured_def)
next
  case (NewUrl url)
  with wp_internalCallback [OF inv, of url] show ?thesis
    by (auto simp: sub_op_def persistent_def configured_def elim!: wp_mono)
next
  case (Parameters cfg)
  with wp_updateParameters [of ff s cfg] ok inv show ?thesis
    by (auto simp: sub_op_def persistent_def configured_def final_event_def policies elim!: wp_mono)
next
  case (FromClient e)
  with wp_from_client [of ff s parse mk_time pad e] ok inv show ?thesis
    by (auto simp: sub_op_def persistent_def configured_def final_event_def same_run_def elim!: wp_mono)
next
  case (Process pushed)
  with wp_processFrame [of ff s deliver pushed] ok inv show ?thesis
    by (auto simp: sub_op_def persistent_def configured_def final_event_def policies elim!: wp_mono)
next
  case CooldownExpires
  with wp_cooldownTimerCallback [OF inv] inv show ?thesis
    by (auto simp: sub_op_def wp_bnd wp_gets wp_whenb persistent_def configured_def elim!: wp_mono)
next
  case NodeGone
  with inv show ?thesis by (simp add: sub_op_def wp_upd sub_inv_def final_event_def configured_def)
next
  case Shutdown
  with wp_sub_shutdown [OF inv] show ?thesis
    by (auto simp: sub_op_def final_event_def configured_def elim!: wp_mono)
qed

definition sub_step ::
  "'w dec_ffmpeg \<Rightarrow> (image \<Rightarrow> exn option) \<Rightarrow> (string \<Rightarrow> byte list list) \<Rightarrow> (int \<Rightarrow> nat \<Rightarrow> fault + stamp) \<Rightarrow>
   nat \<Rightarrow> 'w subscriber \<Rightarrow> sub_event \<Rightarrow> 'w subscriber" where
  "sub_step ff deliver parse mk_time pad s e = snd (sub_op ff deliver parse mk_time pad e s)"

definition sub_sys_inv :: "'w dec_ffmpeg \<Rightarrow> 'w subscriber \<Rightarrow> bool" where
  "sub_sys_inv ff s \<longleftrightarrow> sound_ffmpeg ff \<and> sub_inv s"

interpretation subscriber_machine: stepper "sub_step ff deliver parse mk_time pad" "sub_sys_inv ff"
  for ff deliver parse mk_time pad
proof
  fix s e
  assume "sub_sys_inv ff s"
  then have ok: "sound_ffmpeg ff" and inv: "sub_inv s" by (simp_all add: sub_sys_inv_def)
  have "wp (sub_op ff deliver parse mk_time pad e) (\<lambda>_. sub_inv) (\<lambda>_. sub_inv) s"
    by (rule wp_mono [OF wp_sub_op [OF ok inv]]) simp_all
  from wp_state [OF this] ok show "sub_sys_inv ff (sub_step ff deliver parse mk_time pad s e)"
    by (simp add: sub_sys_inv_def sub_step_def)
qed

end
