(* ===== verification/Subscriber_Facts.thy ===== *)
theory Subscriber_Facts
  imports Subscriber_Run
begin

text \<open>
  The theorems on the subscriber: runs from \<open>subscribeImpl\<close> on, in which the publisher
  announces URLs, parameters change, the network answers, frames arrive and are decoded, and
  the timer expires, in any order.
\<close>

section \<open>What only depends on the delays and the past\<close>

text \<open>
  Predicates that see neither the client nor the decoder, the queue or the timer are kept
  once their laws on the remaining members hold.
\<close>

locale bookkeeping =
  fixes I :: "'w subscriber \<Rightarrow> bool"
  assumes I_members: "I (s\<lparr>s_client := c\<rparr>) = I s" "I (s\<lparr>s_decoder := d\<rparr>) = I s" "I (s\<lparr>ff_world := w\<rparr>) = I s"
      "I (s\<lparr>queue := q\<rparr>) = I s" "I (s\<lparr>old_lag := l\<rparr>) = I s" "I (s\<lparr>cooldown_timer := t\<rparr>) = I s"
    and I_failed: "I s \<Longrightarrow> I (s\<lparr>s_failed := True\<rparr>)"
    and I_wait: "I s \<Longrightarrow> I (s\<lparr>cooldown_timer := Some (cooldown s), waits := waits s @ [cooldown s],
      cooldown := min (cooldown s * 2) (reconnect_maxwait (s_config s))\<rparr>)"
    and I_reset: "I s \<Longrightarrow> I (s\<lparr>cooldown := reconnect_minwait (s_config s), waits := [], cooldown_timer := None\<rparr>)"
    and I_config: "I s \<Longrightarrow> I (s\<lparr>cooldown := reconnect_minwait cfg, waits := [],
      s_config := cfg\<lparr>reconnect_maxwait := max (reconnect_minwait cfg) (reconnect_maxwait cfg)\<rparr>\<rparr>)"
begin

abbreviation kept :: "('w subscriber, 'a) op \<Rightarrow> bool" where
  "kept m \<equiv> keeps I (\<lambda>_. I) m"

lemma kept_on_client: "kept (on_client m)"
  by (auto simp: keeps_def on_client_def bnd_def deref_def I_members wp_def split: option.split prod.split sum.split)

lemma kept_on_decoder: "kept (on_decoder m)"
  by (auto simp: keeps_def on_decoder_def bnd_def deref_def I_members wp_def split: option.split prod.split sum.split)

lemma kept_make_decoder: "kept (make_decoder ff codec)"
  by (auto simp: keeps_def make_decoder_def I_members wp_def split: prod.split sum.split)

lemma wp_handle_upd: "wp (handle (thn (upd f) m) h) Q E s = wp (handle m h) Q E (f s)"
  by (simp add: wp_handle wp_thn wp_upd)

lemma kept_deref: "kept (deref f)"
  by (auto simp: keeps_def wp_rules split: option.split)

lemma kept_handle: "kept m \<Longrightarrow> (\<And>e. kept (h e)) \<Longrightarrow> kept (handle m h)"
  unfolding keeps_def wp_handle by (auto elim!: wp_mono split: fault.splits)

lemma kept_retry: "kept (upd (\<lambda>s. s\<lparr>cooldown_timer := Some (cooldown s), waits := waits s @ [cooldown s],
    cooldown := min (cooldown s * 2) (reconnect_maxwait (s_config s))\<rparr>))"
  by (rule keeps_upd) (rule I_wait)

lemmas kept_rules = kept_on_client kept_on_decoder kept_make_decoder kept_deref kept_handle kept_retry keeps_rules

lemma kept_clear: "kept (upd clearQueuedFrames)"
  by (rule keeps_upd) (simp add: clearQueuedFrames_def I_members)

lemma kept_reconnect: "kept reconnect"
  unfolding reconnect_def by (intro kept_rules kept_clear)

lemma kept_reconnect_if: "kept (reconnect_if p)"
  unfolding reconnect_if_def by (intro kept_rules kept_reconnect)

lemma kept_give_up: "kept give_up"
  unfolding give_up_def
  by (intro kept_rules kept_reconnect_if keeps_upd) (simp add: clearQueuedFrames_def I_members I_failed)

lemma kept_cooldownTimerCallback: "kept cooldownTimerCallback"
  unfolding cooldownTimerCallback_def by (intro kept_rules keeps_upd) (simp add: clearQueuedFrames_def I_members)

lemma kept_sub_shutdown: "kept sub_shutdown"
  unfolding sub_shutdown_def by (intro kept_rules keeps_upd) (simp_all add: clearQueuedFrames_def I_members)

lemma kept_notify: "kept (notify ff n)"
proof -
  have started: "kept sub_sessionStarted"
    unfolding sub_sessionStarted_def
    by (rule keeps_upd) (rule I_reset)
  have lag: "kept (upd (\<lambda>s. s\<lparr>old_lag := 0\<rparr>))" and push: "kept (upd (pushFrame f))" for f
    by (rule keeps_upd, simp add: I_members pushFrame_def)+
  show ?thesis
    by (cases n) (auto simp: notify_def subsessionStarted_def receiveDataStream_def sub_sessionTimeout_def
        sub_sessionFailed_def sub_sessionFinished_def intro!: kept_rules kept_reconnect_if started lag push)
qed

lemma kept_notify_all: "kept (notify_all ff ns)"
  by (induction ns) (auto intro!: kept_rules kept_notify)

lemma kept_from_client: "kept (from_client ff parse mk_time pad e)"
proof -
  have "kept (case x of None \<Rightarrow> ret () | Some c \<Rightarrow> whenb (from_network e)
      (thn (on_client (client_op parse mk_time pad (with_handler (decoder_error ff s) e)))
         (bnd (deref s_client) (\<lambda>c'. notify_all ff (notes_of c c')))))" for x s
    by (cases x) (auto intro!: kept_rules kept_notify_all)
  then show ?thesis unfolding from_client_def by (intro kept_rules)
qed

lemma kept_new_config:
  assumes body: "kept m"
  shows "kept (thn (upd (\<lambda>s. s\<lparr>s_config := cfg\<rparr>)) (handle (thn (upd (\<lambda>s. s\<lparr>cooldown := reconnect_minwait cfg, waits := [],
    s_config := cfg\<lparr>reconnect_maxwait := max (reconnect_minwait cfg) (reconnect_maxwait cfg)\<rparr>\<rparr>)) m) (\<lambda>e. give_up)))"
  unfolding keeps_def wp_thn [of "upd _"] wp_upd wp_handle_upd
  using kept_handle [OF body kept_give_up] I_config [of _ cfg] by (simp add: keeps_def)

lemma kept_updateParameters: "kept (updateParameters ff reading)"
proof (cases reading)
  case (Inl f)
  then show ?thesis by (simp add: keeps_def wp_def updateParameters_Inl)
next
  case (Inr cfg)
  have cfg: "(if reconnect_maxwait cfg < reconnect_minwait cfg
      then cfg\<lparr>reconnect_maxwait := reconnect_minwait cfg\<rparr> else cfg) =
      cfg\<lparr>reconnect_maxwait := max (reconnect_minwait cfg) (reconnect_maxwait cfg)\<rparr>"
    by (simp add: max_def)
  have "kept (case x of
                 None \<Rightarrow> ret ()
               | Some c \<Rightarrow>
                   thn (on_client (upd (setSessionTimeout (timeout cfg))))
                       (whenb (use_hw_decoder cfg \<noteq> use_hw_decoder old)
                         (bnd (gets (\<lambda>s. case s_client s of None \<Rightarrow> Unknown | Some c \<Rightarrow> c_codec c))
                           (make_decoder ff))))" for x old
    by (cases x) (auto intro!: kept_rules)
  then show ?thesis unfolding Inr updateParameters_Inr apply_config_def cfg by (intro kept_rules kept_new_config)
qed

lemma kept_internalCallback:
  assumes "kept (upd (\<lambda>s. s\<lparr>s_failed := False, old_lag := 0, cooldown := reconnect_minwait (s_config s),
            waits := [], cooldown_timer := None, s_client := None\<rparr>))"
  shows "kept (internalCallback url)"
  unfolding internalCallback_def
  by (intro keeps_thn [OF assms] kept_rules kept_give_up keeps_upd) (simp add: I_members)

end

section \<open>The delays\<close>

definition backoff :: "'w subscriber \<Rightarrow> bool" where
  "backoff s \<longleftrightarrow> (let mn = reconnect_minwait (s_config s); mx = reconnect_maxwait (s_config s)
     in mn \<le> mx \<and> (0 \<le> mn \<longrightarrow> cooldown s = min mx (mn * 2 ^ length (waits s)) \<and>
       waits s = map (\<lambda>k. min mx (mn * 2 ^ k)) [0..<length (waits s)]))"

lemma backoff_wait:
  assumes "backoff s"
  shows "backoff (s\<lparr>cooldown_timer := Some (cooldown s), waits := waits s @ [cooldown s],
      cooldown := min (cooldown s * 2) (reconnect_maxwait (s_config s))\<rparr>)"
proof -
  let ?mn = "reconnect_minwait (s_config s)" and ?mx = "reconnect_maxwait (s_config s)"
  have le: "?mn \<le> ?mx" using assms by (simp add: backoff_def Let_def)
  show ?thesis
  proof (cases "0 \<le> ?mn")
    case False
    with le show ?thesis by (simp add: backoff_def)
  next
    case True
    with assms have eq: "cooldown s = min ?mx (?mn * 2 ^ length (waits s))"
      and ws: "waits s = map (\<lambda>k. min ?mx (?mn * 2 ^ k)) [0..<length (waits s)]"
      by (simp_all add: backoff_def Let_def)
    have "waits s @ [cooldown s] = map (\<lambda>k. min ?mx (?mn * 2 ^ k)) [0..<length (waits s)] @ [min ?mx (?mn * 2 ^ length (waits s))]"
      using ws eq by simp
    also have "\<dots> = map (\<lambda>k. min ?mx (?mn * 2 ^ k)) [0..<Suc (length (waits s))]" by simp
    finally have 1: "waits s @ [cooldown s] = map (\<lambda>k. min ?mx (?mn * 2 ^ k)) [0..<Suc (length (waits s))]" .
    have 2: "min (cooldown s * 2) ?mx = min ?mx (?mn * 2 ^ Suc (length (waits s)))"
      using eq True le by (auto simp: min_def algebra_simps)
    show ?thesis using le 1 2 by (simp add: backoff_def Let_def)
  qed
qed

interpretation delays: bookkeeping backoff
  by (unfold_locales; (rule backoff_wait; assumption)?) (simp_all add: backoff_def Let_def)

section \<open>Runs\<close>

abbreviation sub_start :: "'w dec_ffmpeg \<Rightarrow> sub_config \<Rightarrow> 'w \<Rightarrow> 'w subscriber" where
  "sub_start ff cfg w \<equiv> snd (subscribeImpl ff (Inr ()) (Inr cfg) (new_subscriber w))"

lemma sub_start_eq:
  "subscribeImpl ff (Inr ()) (Inr cfg) (new_subscriber w) = (Inr (), (new_subscriber w)\<lparr>cooldown := reconnect_minwait cfg,
     s_config := cfg\<lparr>reconnect_maxwait := max (reconnect_minwait cfg) (reconnect_maxwait cfg)\<rparr>\<rparr>)"
  by (simp add: subscribeImpl_def updateParameters_Inr apply_config_def op_defs new_subscriber_def max_def)

lemma sub_start_inv: "sub_inv (sub_start ff cfg w)" "backoff (sub_start ff cfg w)"
  "reconnect_policy cfg \<ge> ReconnectAlways \<Longrightarrow> persistent (sub_start ff cfg w)"
  unfolding sub_start_eq by (simp_all add: sub_inv_def backoff_def persistent_def new_subscriber_def Let_def)

definition sub_run ::
  "'w dec_ffmpeg \<Rightarrow> (image \<Rightarrow> exn option) \<Rightarrow> (string \<Rightarrow> byte list list) \<Rightarrow> (int \<Rightarrow> nat \<Rightarrow> fault + stamp) \<Rightarrow>
   nat \<Rightarrow> sub_config \<Rightarrow> 'w \<Rightarrow> sub_event list \<Rightarrow> 'w subscriber" where
  "sub_run ff deliver parse mk_time pad cfg w es =
     foldl (sub_step ff deliver parse mk_time pad) (sub_start ff cfg w) es"

lemma sub_run_inv: "sound_ffmpeg ff \<Longrightarrow> sub_inv (sub_run ff deliver parse mk_time pad cfg w es)"
proof -
  assume "sound_ffmpeg ff"
  then have "sub_sys_inv ff (sub_start ff cfg w)" by (simp only: sub_sys_inv_def sub_start_inv(1))
  then have "sub_sys_inv ff (sub_run ff deliver parse mk_time pad cfg w es)"
    unfolding sub_run_def by (rule subscriber_machine.run_inv)
  then show ?thesis by (simp add: sub_sys_inv_def)
qed

lemma backoff_step:
  assumes ok: "sound_ffmpeg ff" and inv: "sub_inv s" and b: "backoff s"
  shows "backoff (sub_step ff deliver parse mk_time pad s e)"
proof -
  have process: "wp (processFrame ff deliver pushed) (\<lambda>_. backoff) (\<lambda>_. backoff) s" for pushed
  proof (cases "s_failed s \<or> s_decoder s = None")
    case True
    with b show ?thesis by (simp add: processFrame_def wp_rules)
  next
    case False
    with inv have "decoding s" by (auto simp: decoding_def sub_inv_def)
    then obtain r t where t: "process_loop ff deliver pushed s = Some (r, t)" "processed pushed r s t"
      using process_loop_total ok by blast
    then have bt: "backoff t"
      using b by (auto simp: processed_def untouched_def clearQueuedFrames_def backoff_def)
    have "wp give_up (\<lambda>_. backoff) (\<lambda>_. backoff) t" by (rule keepsD [OF delays.kept_give_up bt])
    have loop: "loop_op (process_loop ff deliver pushed) s = (r, t)" using t(1) by (simp add: loop_op_def)
    have "wp (loop_op (process_loop ff deliver pushed)) (\<lambda>_. backoff)
      (\<lambda>f t. case f of Throw e \<Rightarrow> wp (case e of DecodingError m \<Rightarrow> ret () | _ \<Rightarrow> give_up) (\<lambda>_. backoff) (\<lambda>_. backoff) t
        | _ \<Rightarrow> backoff t) s"
      unfolding wp_def [of "loop_op _"] loop using \<open>wp give_up _ _ t\<close> bt
      by (auto simp: wp_ret split: sum.split fault.split exn.split)
    with False show ?thesis by (simp add: processFrame_def wp_bnd wp_gets wp_whenb wp_handle)
  qed
  have url: "keeps backoff (\<lambda>_. backoff) (internalCallback url)" for url
    by (rule delays.kept_internalCallback) (auto simp: keeps_def wp_upd backoff_def Let_def)
  have "wp (sub_op ff deliver parse mk_time pad e) (\<lambda>_. backoff) (\<lambda>_. backoff) s"
  proof (cases e)
    case (Process pushed)
    with process show ?thesis by (simp add: sub_op_def)
  next
    case CooldownExpires
    have "wp (bnd (gets cooldown_timer) (\<lambda>t. whenb (t \<noteq> None) cooldownTimerCallback)) (\<lambda>_. backoff) (\<lambda>_. backoff) s"
      by (rule keepsD [of backoff, OF _ b]) (intro keeps_rules delays.kept_cooldownTimerCallback)
    with CooldownExpires show ?thesis by (simp add: sub_op_def)
  next
    case NodeGone
    with b show ?thesis by (simp add: sub_op_def wp_upd backoff_def)
  qed (simp_all add: sub_op_def keepsD [OF url b] keepsD [OF delays.kept_updateParameters b]
       keepsD [OF delays.kept_from_client b] keepsD [OF delays.kept_sub_shutdown b])
  from wp_state [OF this] show ?thesis by (simp add: sub_step_def)
qed

lemma foldl_inv: "I s \<Longrightarrow> (\<And>s e. I s \<Longrightarrow> I (f s e)) \<Longrightarrow> I (foldl f s es)"
  by (induction es arbitrary: s) auto

lemma sub_run_backoff:
  assumes ok: "sound_ffmpeg ff"
  shows "backoff (sub_run ff deliver parse mk_time pad cfg w es)"
proof -
  have step: "sub_sys_inv ff (sub_step ff deliver parse mk_time pad s e) \<and>
      backoff (sub_step ff deliver parse mk_time pad s e)" if "sub_sys_inv ff s \<and> backoff s" for s e
    using that subscriber_machine.step_inv backoff_step [OF ok] unfolding sub_sys_inv_def by blast
  have "sub_sys_inv ff (sub_start ff cfg w) \<and> backoff (sub_start ff cfg w)"
    using ok by (simp only: sub_sys_inv_def sub_start_inv(1,2))
  from foldl_inv [of "\<lambda>s. sub_sys_inv ff s \<and> backoff s" _ "sub_step ff deliver parse mk_time pad", OF this step]
  show ?thesis unfolding sub_run_def by blast
qed

lemma step_persistent:
  assumes "sound_ffmpeg ff" and "sub_inv s" and "persistent s" and "\<not> final_event e"
  shows "persistent (sub_step ff deliver parse mk_time pad s e)"
proof -
  have p: "persistent s \<and> \<not> final_event e" using assms(3,4) by simp
  have "wp (sub_op ff deliver parse mk_time pad e) (\<lambda>_. persistent) (\<lambda>_. persistent) s"
    by (rule wp_mono [OF wp_sub_op [OF assms(1,2)]]) (use p in auto)
  from wp_state [OF this] show ?thesis by (simp add: sub_step_def)
qed

definition in_range :: "'w subscriber \<Rightarrow> bool" where
  "in_range s \<longleftrightarrow> 0 \<le> reconnect_minwait (s_config s) \<and> reconnect_minwait (s_config s) \<le> 600000 \<and>
     reconnect_maxwait (s_config s) \<le> 600000"

lemma fixed_in_range: "setupParameters cfg \<Longrightarrow> s_config t = fixed_config cfg \<Longrightarrow> in_range t"
  by (simp add: in_range_def setupParameters_def fixed_config_def)

lemma sub_run_in_range:
  assumes ok: "sound_ffmpeg ff" and "setupParameters cfg" and "\<forall>cfg'. Parameters cfg' \<in> set es \<longrightarrow> setupParameters cfg'"
  shows "in_range (sub_run ff deliver parse mk_time pad cfg w es)"
  using assms(3)
proof (induction es rule: rev_induct)
  case Nil
  show ?case unfolding sub_run_def sub_start_eq foldl.simps snd_conv
    by (rule fixed_in_range [OF assms(2)]) (simp add: fixed_config_def)
next
  case (snoc e es)
  let ?s = "sub_run ff deliver parse mk_time pad cfg w es"
  have "wp (sub_op ff deliver parse mk_time pad e) (\<lambda>_. configured e ?s) (\<lambda>_. configured e ?s) ?s"
    by (rule wp_mono [OF wp_sub_op [OF ok sub_run_inv [OF ok]]]) simp_all
  from wp_state [OF this] have "configured e ?s (sub_step ff deliver parse mk_time pad ?s e)"
    by (simp add: sub_step_def)
  moreover have "in_range ?s" using snoc by simp
  ultimately have "in_range (sub_step ff deliver parse mk_time pad ?s e)"
    using snoc.prems fixed_in_range by (auto simp: configured_def in_range_def)
  then show ?case by (simp add: sub_run_def)
qed

definition stuck :: "(frame_data \<times> discard option) list \<Rightarrow> image list \<Rightarrow> 'w subscriber \<Rightarrow> bool" where
  "stuck F imgs s \<longleftrightarrow> s_failed s \<and> fed s = F \<and> images s = imgs"

interpretation sticky: bookkeeping "stuck F imgs" for F imgs
  by unfold_locales (simp_all add: stuck_def)

lemma stuck_step:
  assumes "stuck F imgs s" and "\<forall>url. e \<noteq> NewUrl url"
  shows "stuck F imgs (sub_step ff deliver parse mk_time pad s e)"
proof -
  have "wp (sub_op ff deliver parse mk_time pad e) (\<lambda>_. stuck F imgs) (\<lambda>_. stuck F imgs) s"
  proof (cases e)
    case (Process pushed)
    with assms(1) show ?thesis by (simp add: sub_op_def processFrame_def wp_rules stuck_def)
  next
    case CooldownExpires
    have "wp (bnd (gets cooldown_timer) (\<lambda>t. whenb (t \<noteq> None) cooldownTimerCallback))
        (\<lambda>_. stuck F imgs) (\<lambda>_. stuck F imgs) s"
      by (rule keepsD [of "stuck F imgs", OF _ assms(1)]) (intro keeps_rules sticky.kept_cooldownTimerCallback)
    with CooldownExpires show ?thesis by (simp add: sub_op_def)
  next
    case NodeGone
    with assms(1) show ?thesis by (simp add: sub_op_def wp_upd stuck_def)
  qed (use assms(2) in \<open>simp_all add: sub_op_def keepsD [OF sticky.kept_updateParameters assms(1)]
       keepsD [OF sticky.kept_from_client assms(1)] keepsD [OF sticky.kept_sub_shutdown assms(1)]\<close>)
  from wp_state [OF this] show ?thesis by (simp add: sub_step_def)
qed

section \<open>The theorems\<close>

text \<open>
  C17: the delay before the next connection attempt doubles with each failure: the waits since
  the last success, URL or change of parameters are the minimum, its double and so on, up to
  the maximum, at which they stay. No wait is longer than ten minutes.
\<close>

theorem subscriber_backoff:
  assumes "sound_ffmpeg ff" and "setupParameters cfg"
    and "\<forall>cfg'. Parameters cfg' \<in> set es \<longrightarrow> setupParameters cfg'"
    and "s = sub_run ff deliver parse mk_time pad cfg w es" and "k < length (waits s)"
  shows "waits s ! k = min (reconnect_maxwait (s_config s)) (reconnect_minwait (s_config s) * 2 ^ k) \<and>
    0 \<le> waits s ! k \<and> waits s ! k \<le> 600000"
proof -
  let ?mn = "reconnect_minwait (s_config s)" and ?mx = "reconnect_maxwait (s_config s)"
  have r: "in_range s" unfolding assms(4) by (rule sub_run_in_range [OF assms(1-3)])
  have b: "backoff s" unfolding assms(4) by (rule sub_run_backoff [OF assms(1)])
  with r have "waits s = map (\<lambda>k. min ?mx (?mn * 2 ^ k)) [0..<length (waits s)]"
    by (simp add: backoff_def in_range_def Let_def)
  from arg_cong [OF this, of "\<lambda>xs. xs ! k"] assms(5) have w: "waits s ! k = min ?mx (?mn * 2 ^ k)" by simp
  moreover have "?mn \<le> ?mx" using b by (simp add: backoff_def Let_def)
  ultimately show ?thesis using r by (simp add: in_range_def min_def)
qed

text \<open>
  C7: A subscriber that always reconnects never gets stuck: once it has a URL, in every state it
  reaches, its client waits for a reply of the server or plays, or the timer for the next
  attempt is set. (Its node lives on, and the parameters keep the policy.)
\<close>

theorem subscriber_keeps_trying:
  assumes ok: "sound_ffmpeg ff" and "reconnect_policy cfg = ReconnectAlways"
    and "\<forall>e \<in> set es. \<not> final_event e"
    and "s = sub_run ff deliver parse mk_time pad cfg w es" and "s_client s = Some c"
  shows "cooldown_timer s \<noteq> None \<or> (\<exists>l. client c = Some l \<and> (pending l \<noteq> None \<or> session_active l))"
proof -
  have "sub_inv s \<and> persistent s" unfolding assms(4) sub_run_def using assms(3)
  proof (induction es rule: rev_induct)
    case Nil
    show ?case using sub_start_inv(1) sub_start_inv(3) [of cfg ff w] assms(2) by simp
  next
    case (snoc e es)
    have "sub_sys_inv ff (foldl (sub_step ff deliver parse mk_time pad) (sub_start ff cfg w) es)"
      using snoc ok by (simp add: sub_sys_inv_def)
    from subscriber_machine.step_inv [OF this, of deliver parse mk_time pad e] snoc step_persistent [OF ok]
    show ?case by (simp add: sub_sys_inv_def)
  qed
  with assms(5) show ?thesis by (auto simp: persistent_def lively_def busy_def)
qed


text \<open>It does escape.\<close>

theorem unreadable_parameters_escape:
  assumes "node s"
  shows "sub_op ff deliver parse mk_time pad (UnreadableParameters x) s = (Inl (Throw x), s)"
  using assms by (simp add: sub_op_def updateParameters_Inl)

text \<open>
  C16: frames are decoded in the order in which they were queued, none is skipped or decoded
  twice: one run of \<open>processFrame\<close> gives a decoder a prefix of the queued and the meanwhile
  pushed frames, and leaves the rest in the queue, unless it gives up. Whatever the lag, the
  decoder never discards more than the non-intra frames.
\<close>

theorem subscriber_decodes_in_order:
  assumes ok: "sound_ffmpeg ff" and "s = sub_run ff deliver parse mk_time pad cfg w es"
    and "\<not> s_failed s" and "s_decoder s \<noteq> None"
    and run: "processFrame ff deliver pushed s = (r, t)"
  shows "\<exists>k new rest. fed t = fed s @ new \<and> map fst new @ rest = queue s @ concat (take k pushed) \<and>
    snd ` set new \<subseteq> {Some DISCARD_DEFAULT, Some DISCARD_NONINTRA} \<and> (\<not> s_failed t \<longrightarrow> queue t = rest)"
proof -
  have inv: "sub_inv s" unfolding assms(2) by (rule sub_run_inv [OF ok])
  with assms(4) have d: "decoding s" and client: "s_client s \<noteq> None"
    by (auto simp: decoding_def sub_inv_def)
  obtain r0 u where u: "process_loop ff deliver pushed s = Some (r0, u)" "processed pushed r0 s u"
    using process_loop_total [OF _ d] ok by blast
  obtain k new where k: "fed u = fed s @ new" "map fst new @ queue u = queue s @ concat (take k pushed)"
    "snd ` set new \<subseteq> {Some DISCARD_DEFAULT, Some DISCARD_NONINTRA}"
    using u(2) by (auto simp: processed_def)
  have l: "linked u"
    using u(2) inv client by (auto simp: processed_def untouched_def clearQueuedFrames_def linked_def sub_inv_def decoding_def)
  have "t = u \<or> s_failed t \<and> fed t = fed u"
  proof -
    have "wp give_up (\<lambda>_ t. s_failed t \<and> fed t = fed u) (\<lambda>_ t. s_failed t \<and> fed t = fed u) u"
      by (rule wp_mono [OF wp_give_up [OF l]]) auto
    then show ?thesis using run u(1) assms(3,4)
      by (auto simp: wp_def processFrame_def handle_def loop_op_def bnd_def gets_def whenb_def ret_def
          split: prod.splits sum.splits fault.splits exn.splits)
  qed
  with k show ?thesis by metis
qed

text \<open>
  C40: the decoding loop ends. Once the subscriber has a decoder, and if FFmpeg gives finitely many
  frames for each packet, the loop of \<open>processFrame\<close> returns for every finite number of frames
  pushed while it runs, whatever the decoder answers and however often decoding fails; and when
  it returns normally, the queue is empty. (The loop is a partial function, and not to return
  from a call within it is the fault \<open>Diverges\<close>, so its ending is part of the claim.)
\<close>

theorem subscriber_loop_ends:
  assumes ok: "sound_ffmpeg ff" and ex: "exhausting ff"
    and "s = sub_run ff deliver parse mk_time pad cfg w es" and "s_decoder s \<noteq> None"
  shows "\<exists>r t. process_loop ff deliver pushed s = Some (r, t) \<and> r \<noteq> Inl Diverges \<and> (r = Inr () \<longrightarrow> queue t = [])"
proof -
  have "sub_inv s" unfolding assms(3) by (rule sub_run_inv [OF ok])
  with assms(4) have d: "decoding s" by (auto simp: decoding_def sub_inv_def)
  obtain r t where "process_loop ff deliver pushed s = Some (r, t)" "processed pushed r s t" "r \<noteq> Inl Diverges"
    using process_loop_total [OF _ d] ok ex by blast
  then show ?thesis by (auto simp: processed_def)
qed

text \<open>
  A failure of the decoder is final: from then on until a new URL is announced nothing is
  decoded and no image delivered, although the subscriber connects again and receives frames.
\<close>

theorem subscriber_failure_final:
  assumes "s_failed s" and "\<forall>e \<in> set es. \<forall>url. e \<noteq> NewUrl url"
  shows "let t = foldl (sub_step ff deliver parse mk_time pad) s es
    in s_failed t \<and> fed t = fed s \<and> images t = images s"
proof -
  have "stuck (fed s) (images s) (foldl (sub_step ff deliver parse mk_time pad) s es)" using assms(2)
  proof (induction es rule: rev_induct)
    case Nil
    with assms(1) show ?case by (simp add: stuck_def)
  next
    case (snoc e es)
    then show ?case by (simp add: stuck_step)
  qed
  then show ?thesis by (simp add: stuck_def Let_def)
qed

section \<open>A subscriber at work\<close>

abbreviation soft :: "av_frame list dec_ffmpeg" where
  "soft \<equiv> soft_decoder ''mjpeg''"

definition always :: sub_config where
  "always = default_config\<lparr>reconnect_policy := ReconnectAlways\<rparr>"

abbreviation sub_at_work :: "sub_event list \<Rightarrow> av_frame list subscriber" where
  "sub_at_work es \<equiv> sub_run soft (\<lambda>_. None) no_sprops plain_time 64 always [] es"

definition sub_refused :: "sub_event list" where
  "sub_refused = [NewUrl ''rtsp://camera'', FromClient (DescribeReply 404 [] None), CooldownExpires,
     FromClient (DescribeReply 404 [] None)]"

definition sub_playing :: "sub_event list" where
  "sub_playing = [NewUrl ''rtsp://camera'', FromClient (DescribeReply 0 [] (Some audio_then_video)),
     FromClient (SetupReply 0 (\<lambda>_. None)), FromClient (PlayReply 0 [])]"

lemmas sub_eval = sub_run_def sub_step_def sub_op_def from_client_def from_network_def with_handler_def
  internalCallback_def on_client_def notes_of_def notify_def sub_sessionFailed_def reconnect_if_def
  reconnect_def cooldownTimerCallback_def clearQueuedFrames_def policies sessionFailed_def disconnect_def
  teardown_def

lemma sub_start_soft: "sub_start soft always [] = (new_subscriber [])\<lparr>cooldown := 100, s_config := always\<rparr>"
  unfolding sub_start_eq by (simp add: always_def default_config_def)

lemma refused_state: "waits (sub_at_work sub_refused) = [100, 200]" "s_config (sub_at_work sub_refused) = always"
  unfolding sub_run_def sub_start_soft
  by (simp_all add: sub_refused_def sub_eval client_eval new_subscriber_def always_def default_config_def)

lemma soft_sound: "sound_ffmpeg soft"
  using soft_decoder_ok by blast

theorem subscriber_backoff_witness:
  "waits (sub_at_work sub_refused) ! 1 = min 30000 (100 * 2 ^ 1)"
proof -
  have cfg: "setupParameters always"
    by (simp add: setupParameters_def always_def default_config_def ReconnectAlways_def)
  have es: "\<forall>cfg'. Parameters cfg' \<in> set sub_refused \<longrightarrow> setupParameters cfg'" by (simp add: sub_refused_def)
  have "1 < length (waits (sub_at_work sub_refused))" unfolding refused_state by simp
  from subscriber_backoff [OF soft_sound cfg es refl this] show ?thesis
    unfolding refused_state by (simp add: always_def default_config_def)
qed

lemma sub_refused_client: "s_client (sub_at_work sub_refused) \<noteq> None"
  unfolding sub_run_def sub_start_soft
  by (simp add: sub_refused_def sub_eval client_eval new_subscriber_def always_def default_config_def)

theorem subscriber_keeps_trying_witness:
  "\<exists>c. s_client (sub_at_work [NewUrl ''rtsp://camera'']) = Some c \<and> busy c"
proof -
  let ?s = "sub_at_work [NewUrl ''rtsp://camera'']"
  have s: "s_client ?s \<noteq> None" "cooldown_timer ?s = None"
    unfolding sub_run_def sub_start_soft
    by (simp_all add: sub_eval client_eval new_subscriber_def always_def default_config_def)
  then obtain c where c: "s_client ?s = Some c" by blast
  have pol: "reconnect_policy always = ReconnectAlways" by (simp add: always_def)
  have go: "\<forall>e \<in> set [NewUrl ''rtsp://camera'']. \<not> final_event e" by (simp add: final_event_def)
  from subscriber_keeps_trying [OF soft_sound pol go refl c] s(2) c show ?thesis by (auto simp: busy_def)
qed

text \<open>An FFmpeg that cannot scale images: the code uses the null pointer it gets.\<close>

definition no_scaling :: "av_frame list dec_ffmpeg" where
  "no_scaling = soft\<lparr>d_sws_get := \<lambda>_ w. (False, w)\<rparr>"

definition mjpeg_decoder :: "av_frame list decoder" where
  "mjpeg_decoder = (blank_decoder MJPEG [])\<lparr>d_ctx := Some \<lparr>d_name = ''mjpeg'', d_opts = [], d_log_level_offset = 8,
     d_chunks = False, d_error_concealment = 3, skip_frame = DISCARD_DEFAULT\<rparr>\<rparr>"

lemma mjpeg_decoders:
  "StreamDecoder no_scaling MJPEG True (blank_decoder MJPEG []) = (Inr (), mjpeg_decoder)"
  "StreamDecoder soft MJPEG True (blank_decoder MJPEG []) = (Inr (), mjpeg_decoder)"
  by code_simp+

lemmas sub_decoding_eval = sub_playing_def sub_eval client_eval new_subscriber_def always_def default_config_def
  mjpeg_decoders [unfolded mjpeg_decoder_def blank_decoder_def] blank_decoder_def decoder_error_def
  subsessionStarted_def make_decoder_def on_decoder_def sub_sessionStarted_def continuePlaying_def

definition can_decode :: "av_frame list subscriber \<Rightarrow> bool" where
  "can_decode s \<longleftrightarrow> s_decoder s = Some mjpeg_decoder \<and> \<not> s_failed s \<and> queue s = [] \<and> ff_world s = [] \<and> fed s = []"

lemma playing_can_decode:
  "can_decode (sub_at_work sub_playing)"
  "can_decode (sub_run no_scaling (\<lambda>_. None) no_sprops plain_time 64 always [] sub_playing)"
  unfolding sub_run_def sub_start_eq can_decode_def
  by (simp_all add: sub_decoding_eval mjpeg_decoder_def)




lemma process_eval_soft:
  assumes "can_decode s"
  shows "\<not> s_failed (snd (processFrame soft (\<lambda>_. None) [[mk_frame 2 [7] 6]] s))"
    "fst (processFrame soft (\<lambda>_. None) [[mk_frame 2 [7] 6]] s) = Inr ()"
  using assms
  unfolding processFrame_def loop_op_def process_loop.simps [of soft "\<lambda>_. None" "[[mk_frame 2 [7] 6]]"]
  by (simp_all add: op_defs popFrame_def pushFrame_def process_turn_def frameLag_def restrict_decoder_def
      on_decoder_def setDecodeFrames_def upd_dctx_def can_decode_def mjpeg_decoder_def blank_decoder_def
      decodeVideo_def d_call_def receive_frames_def frame_loop.simps convert_image_def rescale_def
      soft_decoder_def mk_frame_def int_fits_def image_data_def deliver_loop.simps nextFrame_def loop_op_def
      process_loop.simps)

theorem subscriber_decodes_in_order_witness:
  "\<exists>k new rest. fed (snd (processFrame soft (\<lambda>_. None) [[mk_frame 2 [7] 6]] (sub_at_work sub_playing))) = new \<and>
     map fst new @ rest = concat (take k [[mk_frame 2 [7] 6]]) \<and>
     queue (snd (processFrame soft (\<lambda>_. None) [[mk_frame 2 [7] 6]] (sub_at_work sub_playing))) = rest"
proof -
  let ?s = "sub_at_work sub_playing" and ?r = "processFrame soft (\<lambda>_. None) [[mk_frame 2 [7] 6]] (sub_at_work sub_playing)"
  have s: "\<not> s_failed ?s" "s_decoder ?s \<noteq> None" "queue ?s = []" "fed ?s = []"
    using playing_can_decode(1) by (simp_all add: can_decode_def)
  have r: "?r = (fst ?r, snd ?r)" by simp
  from subscriber_decodes_in_order [OF soft_sound refl s(1,2) r] s(3,4)
    process_eval_soft [OF playing_can_decode(1)] show ?thesis
    by (metis append_Nil)
qed

lemma soft_exhausting: "exhausting (soft_decoder name)"
  unfolding exhausting_def
  by (rule exI [of _ length]) (auto simp: soft_decoder_def split: list.splits if_splits)

theorem subscriber_loop_ends_witness:
  "\<exists>r t. process_loop soft (\<lambda>_. None) [[mk_frame 2 [7] 6]] (sub_at_work sub_playing) = Some (r, t) \<and> r \<noteq> Inl Diverges"
proof -
  have "s_decoder (sub_at_work sub_playing) \<noteq> None"
    using playing_can_decode(1) by (simp add: can_decode_def)
  from subscriber_loop_ends [OF soft_sound soft_exhausting refl this, of "[[mk_frame 2 [7] 6]]"] show ?thesis by blast
qed

text \<open>Parameters that ask for another decoder before the codec is known make the subscriber fail.\<close>

definition sub_broken :: "sub_event list" where
  "sub_broken = [NewUrl ''rtsp://camera'', Parameters (always\<lparr>use_hw_decoder := False\<rparr>)]"

lemma broken_failed: "s_failed (sub_at_work sub_broken)"
  unfolding sub_run_def sub_start_soft
  by (simp add: sub_broken_def sub_eval client_eval new_subscriber_def always_def default_config_def
      updateParameters_Inr apply_config_def make_decoder_def StreamDecoder_def FFMPEG_DECODERS_def blank_decoder_def give_up_def)

theorem subscriber_failure_final_witness:
  "s_failed (sub_at_work (sub_broken @ [CooldownExpires, FromClient (DescribeReply 0 [] (Some audio_then_video))]))"
proof -
  have es: "\<forall>e \<in> set [CooldownExpires, FromClient (DescribeReply 0 [] (Some audio_then_video))]. \<forall>url. e \<noteq> NewUrl url"
    by simp
  from subscriber_failure_final [OF broken_failed es, of soft "\<lambda>_. None" no_sprops plain_time 64]
  show ?thesis by (simp add: sub_run_def Let_def)
qed

end
