(* ===== verification/Publisher_Plugin.thy ===== *)
theory Publisher_Plugin
  imports Stream_Server Encoder_Run
begin

text \<open>
  The publisher (\<^verbatim>\<open>src/src/publisher_plugin.h\<close>, \<^verbatim>\<open>src/src/publisher_plugin.cpp\<close>): it
  keeps an RTSP server as its parameters say, announces the server's URL on a topic, and
  encodes the images of its user as long as somebody receives the stream.

  FFmpeg is the parameter \<open>ff\<close> of theory \<open>Stream_Encoder\<close>, live555 and the operating system
  give arguments as in theory \<open>Stream_Server\<close>. \<open>p_node\<close> tells whether the node still exists.
  Log messages are left out.
\<close>

section \<open>The class\<close>

record pub_config =
  p_codec :: video_codec
  target_bitrate :: "32 word"
  expected_framerate :: "32 word"
  p_hw_encoder :: bool
  p_udp_port :: "32 word"
  p_packet_size :: "32 word"
  use_ip_multicast :: bool

definition pub_default_config :: pub_config where
  "pub_default_config =
     \<lparr>p_codec = Unknown, target_bitrate = 1000000, expected_framerate = 30, p_hw_encoder = True,
      p_udp_port = 0, p_packet_size = 1396, use_ip_multicast = False\<rparr>"

text \<open>The parameters of the node, as they are stored there.\<close>

record pub_params =
  par_codec :: string
  par_bitrate :: int
  par_framerate :: int
  par_hw :: bool
  par_port :: int
  par_packet_size :: int
  par_multicast :: bool

text \<open>What \<open>setupParameters\<close> declares: the defaults, and the values that are allowed.\<close>

definition pub_defaults :: pub_params where
  "pub_defaults =
     \<lparr>par_codec = ''H264'', par_bitrate = uint (target_bitrate pub_default_config),
      par_framerate = uint (expected_framerate pub_default_config), par_hw = p_hw_encoder pub_default_config,
      par_port = uint (p_udp_port pub_default_config),
      par_packet_size = uint (p_packet_size pub_default_config),
      par_multicast = use_ip_multicast pub_default_config\<rparr>"

definition pub_setupParameters :: "pub_params \<Rightarrow> bool" where
  "pub_setupParameters p \<longleftrightarrow>
     0 \<le> par_bitrate p \<and> par_bitrate p \<le> 100000000 \<and>
     1 \<le> par_framerate p \<and> par_framerate p \<le> 100 \<and>
     0 \<le> par_port p \<and> par_port p \<le> 65535 \<and>
     576 \<le> par_packet_size p \<and> par_packet_size p \<le> 9000"

definition read_config :: "pub_params \<Rightarrow> pub_config" where
  "read_config p =
     \<lparr>p_codec = codec_of_param (par_codec p), target_bitrate = word_of_int (par_bitrate p),
      expected_framerate = word_of_int (par_framerate p), p_hw_encoder = par_hw p,
      p_udp_port = word_of_int (par_port p), p_packet_size = word_of_int (par_packet_size p),
      use_ip_multicast = par_multicast p\<rparr>"

text \<open>
  Beside the members of the class the record holds FFmpeg's world and log level, and of the
  past what was sent: the URLs announced on the topic and the frames given to the server.
\<close>

datatype sent_item = Url string | Frame frame_data

record 'w publisher =
  p_config :: pub_config
  p_server :: "server option"
  p_encoder :: "'w encoder option"
  update_url :: bool
  p_failed :: bool
  graph_monitor :: bool
  p_node :: bool
  p_world :: 'w
  p_level :: int
  trail :: "sent_item list"

definition new_publisher :: "'w \<Rightarrow> int \<Rightarrow> 'w publisher" where
  "new_publisher w level =
     \<lparr>p_config = pub_default_config, p_server = None, p_encoder = None, update_url = False,
      p_failed = False, graph_monitor = False, p_node = True, p_world = w, p_level = level, trail = []\<rparr>"

text \<open>\<^verbatim>\<open>shutdown\<close> destroys the server and the encoder.\<close>

definition pub_shutdown :: "'w publisher \<Rightarrow> 'w publisher" where
  "pub_shutdown s = s\<lparr>graph_monitor := False, p_server := None, p_encoder := None\<rparr>"

section \<open>Calls into the server and the encoder\<close>

definition on_server :: "(server, 'a) op \<Rightarrow> ('w publisher, 'a) op" where
  "on_server m =
     bnd (deref p_server) (\<lambda>v. \<lambda>s. case m v of (r, v') \<Rightarrow> (r, s\<lparr>p_server := Some v'\<rparr>))"

definition on_encoder :: "('w encoder, 'a) op \<Rightarrow> ('w publisher, 'a) op" where
  "on_encoder m =
     bnd (deref p_encoder) (\<lambda>e. \<lambda>s. case m (e\<lparr>world := p_world s, log_level := p_level s\<rparr>) of
        (r, e') \<Rightarrow> (r, s\<lparr>p_encoder := Some e', p_world := world e', p_level := log_level e'\<rparr>))"

text \<open>\<^verbatim>\<open>StreamServer::create\<close> and \<^verbatim>\<open>std::make_unique<StreamEncoder>\<close>; the members are not
  assigned when these throw.\<close>

definition make_server :: "bool \<Rightarrow> (nat \<Rightarrow> string) \<Rightarrow> ('w publisher, unit) op" where
  "make_server bound port_text =
     thn (upd (\<lambda>s. s\<lparr>p_server := None\<rparr>))
    (bnd (gets p_config) (\<lambda>cfg.
     bnd (lift_op (create_server bound port_text (unat (p_udp_port cfg)) (p_packet_size cfg - 42))) (\<lambda>v.
     upd (\<lambda>s. s\<lparr>p_server := Some v\<rparr>))))"

definition make_encoder :: "'w ffmpeg \<Rightarrow> ('w publisher, unit) op" where
  "make_encoder ff =
     (\<lambda>s. case StreamEncoder ff (p_codec (p_config s)) (p_hw_encoder (p_config s))
             (blank_encoder (p_codec (p_config s)) (p_level s) (p_world s)) of
        (Inr _, e) \<Rightarrow> (Inr (), s\<lparr>p_encoder := Some e, p_world := world e, p_level := log_level e\<rparr>)
      | (Inl f, e) \<Rightarrow> (Inl f, s\<lparr>p_world := world e, p_level := log_level e\<rparr>))"

section \<open>Parameters\<close>

definition LVL_SERVER :: int where "LVL_SERVER = 4"
definition LVL_SESSION :: int where "LVL_SESSION = 2"
definition LVL_CODEC :: int where "LVL_CODEC = 1"

definition change_level :: "'w publisher \<Rightarrow> pub_config \<Rightarrow> int" where
  "change_level s new =
     (let old = p_config s;
          l0 = (if (p_server s = None \<and> \<not> p_failed s) \<or> p_udp_port old \<noteq> p_udp_port new \<or>
                   p_packet_size old \<noteq> p_packet_size old
                then or 0 LVL_SERVER else 0);
          l1 = (if p_codec old \<noteq> p_codec new \<or> use_ip_multicast old \<noteq> use_ip_multicast new
                then or l0 LVL_SESSION else l0)
      in if target_bitrate old \<noteq> target_bitrate new \<or>
            expected_framerate old \<noteq> expected_framerate new \<or> p_hw_encoder old \<noteq> p_hw_encoder new
         then or l1 LVL_CODEC else l1)"

definition apply_changes ::
  "build \<Rightarrow> bool \<Rightarrow> (nat \<Rightarrow> string) \<Rightarrow> surroundings \<Rightarrow> int \<Rightarrow> ('w publisher, unit) op" where
  "apply_changes b bound port_text env changelevel =
     thn (whenb (changelevel \<ge> LVL_SERVER) (make_server bound port_text))
    (thn (whenb (changelevel \<ge> LVL_SESSION)
           (thn (whenb (changelevel < LVL_SERVER) (on_server (upd stop)))
           (thn (bnd (gets p_config) (\<lambda>cfg.
                   on_server (start b env (p_codec cfg) (use_ip_multicast cfg))))
                (upd (\<lambda>s. s\<lparr>update_url := True\<rparr>)))))
         (whenb (changelevel \<ge> LVL_CODEC) (upd (\<lambda>s. s\<lparr>p_encoder := None\<rparr>))))"

text \<open>What \<open>updateParameters\<close> does with the parameters that it has read.\<close>

definition apply_params ::
  "build \<Rightarrow> bool \<Rightarrow> (nat \<Rightarrow> string) \<Rightarrow> surroundings \<Rightarrow> pub_params \<Rightarrow> ('w publisher, unit) op" where
  "apply_params b bound port_text env params =
     (let new_config = read_config params in
      bnd (gets (\<lambda>s. change_level s new_config)) (\<lambda>changelevel.
      thn (upd (\<lambda>s. s\<lparr>p_config := new_config\<rparr>))
          (handle (apply_changes b bound port_text env changelevel)
            (\<lambda>e. upd (\<lambda>s. s\<lparr>p_server := None, p_encoder := None, update_url := False,
               p_failed := True\<rparr>)))))"

text \<open>
  \<open>updateParameters\<close>: the parameters are read outside of the \<^verbatim>\<open>try\<close> block. \<open>reading\<close> is what
  \<^verbatim>\<open>get_parameter\<close> and the conversions \<^verbatim>\<open>as_string\<close>, \<^verbatim>\<open>as_int\<close> and \<^verbatim>\<open>as_bool\<close> give: the values, or
  what one of them throws (\<open>read_pub_params\<close> of theory \<open>Node_Parameters\<close>).
\<close>

definition pub_updateParameters ::
  "build \<Rightarrow> bool \<Rightarrow> (nat \<Rightarrow> string) \<Rightarrow> surroundings \<Rightarrow> fault + pub_params \<Rightarrow> ('w publisher, unit) op" where
  "pub_updateParameters b bound port_text env reading =
     bnd (gets p_node) (\<lambda>alive. whenb alive
       (bnd (lift_op reading) (apply_params b bound port_text env)))"

lemma pub_updateParameters_Inr:
  "pub_updateParameters b bound port_text env (Inr params) =
     bnd (gets p_node) (\<lambda>alive. whenb alive (apply_params b bound port_text env params))"
  by (simp add: pub_updateParameters_def bnd_def lift_op_def fun_eq_iff)

lemma pub_updateParameters_Inl:
  "pub_updateParameters b bound port_text env (Inl f) s = (if p_node s then (Inl f, s) else (Inr (), s))"
  by (simp add: pub_updateParameters_def op_defs)

text \<open>
  \<open>advertiseImpl\<close> registers with the graph monitor, declares the parameters (\<open>declared\<close> tells how
  that ends) and reads them for the first time; the rest of it is ROS setup and the name of the
  parameters (theory \<open>Parameter_Names\<close>).
\<close>

definition advertiseImpl ::
  "build \<Rightarrow> bool \<Rightarrow> (nat \<Rightarrow> string) \<Rightarrow> surroundings \<Rightarrow> fault + unit \<Rightarrow> fault + pub_params \<Rightarrow>
   ('w publisher, unit) op" where
  "advertiseImpl b bound port_text env declared reading =
     thn (upd (\<lambda>s. s\<lparr>graph_monitor := True\<rparr>))
    (thn (lift_op declared)
         (pub_updateParameters b bound port_text env reading))"

lemma advertiseImpl_Inr:
  "advertiseImpl b bound port_text env (Inr ()) reading s =
     pub_updateParameters b bound port_text env reading (s\<lparr>graph_monitor := True\<rparr>)"
  by (simp add: advertiseImpl_def op_defs)

lemma advertiseImpl_Inl:
  "advertiseImpl b bound port_text env (Inl f) reading s = (Inl f, s\<lparr>graph_monitor := True\<rparr>)"
  by (simp add: advertiseImpl_def op_defs)

section \<open>Publishing\<close>

text \<open>The calls that live555 makes into the server from its own thread. The callbacks of the
  unicast subsession exist while the session is one.\<close>

definition callback :: "server \<Rightarrow> srv_event \<Rightarrow> bool" where
  "callback v e =
     (case e of
        Start _ _ _ \<Rightarrow> False
      | Stop \<Rightarrow> False
      | Send _ \<Rightarrow> False
      | Consume _ _ \<Rightarrow> True
      | _ \<Rightarrow> (case sms v of Some (_, UnicastSession _) \<Rightarrow> True | _ \<Rightarrow> False))"

definition live_call :: "build \<Rightarrow> srv_event \<Rightarrow> 'w publisher \<Rightarrow> 'w publisher" where
  "live_call b e s =
     (case p_server s of
        None \<Rightarrow> s
      | Some v \<Rightarrow> if callback v e then s\<lparr>p_server := Some (srv_step b v e)\<rparr> else s)"

definition announce :: "('w publisher, unit) op" where
  "announce = bnd (deref p_server) (\<lambda>v. upd (\<lambda>s. s\<lparr>trail := trail s @ [Url (s_url v)]\<rparr>))"

definition begin_encoding :: "'w ffmpeg \<Rightarrow> ('w publisher, unit) op" where
  "begin_encoding ff =
     bnd (gets p_encoder) (\<lambda>enc. whenb (enc = None)
       (thn (make_encoder ff)
       (bnd (gets p_config) (\<lambda>cfg.
        thn (on_encoder (setBitrate (ucast (target_bitrate cfg))))
       (thn (on_encoder (setFramerate (expected_framerate cfg)))
       (bnd (deref p_server) (\<lambda>v.
        thn (on_encoder (setPackageSizeHint ff (maxPacketSize v - 24)))
            (on_encoder (bnd (deref ctx) (\<lambda>_. ret ()))))))))))"

text \<open>
  The loop \<^verbatim>\<open>while (data = encoder_->nextPacket()) server_->sendFrame(data)\<close>. \<open>meanwhile\<close>
  lists the calls that live555 makes before the first, the second and so on call of
  \<open>nextPacket\<close>.
\<close>

partial_function (option) send_loop ::
  "build \<Rightarrow> srv_event list list \<Rightarrow> 'w publisher \<Rightarrow> ((fault + unit) \<times> 'w publisher) option" where
  "send_loop b meanwhile s0 =
     (let s = fold (live_call b) (concat (take 1 meanwhile)) s0 in
      case p_encoder s of
        None \<Rightarrow> Some (Inl NullDeref, s)
      | Some e \<Rightarrow>
          (case nextPacket e of
             (None, e') \<Rightarrow> Some (Inr (), s\<lparr>p_encoder := Some e'\<rparr>)
           | (Some f, e') \<Rightarrow>
               (case p_server s of
                  None \<Rightarrow> Some (Inl NullDeref, s\<lparr>p_encoder := Some e'\<rparr>)
                | Some v \<Rightarrow> send_loop b (drop 1 meanwhile)
                    (s\<lparr>p_encoder := Some e', p_server := Some (sendFrame f v), trail := trail s @ [Frame f]\<rparr>))))"

declare send_loop.simps [code]

definition send_packets :: "build \<Rightarrow> srv_event list list \<Rightarrow> ('w publisher, unit) op" where
  "send_packets b meanwhile =
     (\<lambda>s. case send_loop b meanwhile s of None \<Rightarrow> (Inl Diverges, s) | Some r \<Rightarrow> r)"

definition stop_encoding :: "('w publisher, unit) op" where
  "stop_encoding =
     bnd (gets p_encoder) (\<lambda>enc. whenb (enc \<noteq> None)
       (thn (upd (\<lambda>s. s\<lparr>p_encoder := None\<rparr>)) announce))"

definition encode_image :: "build \<Rightarrow> 'w ffmpeg \<Rightarrow> image \<Rightarrow> srv_event list list \<Rightarrow> ('w publisher, unit) op" where
  "encode_image b ff img meanwhile =
     thn (begin_encoding ff)
    (bnd (on_encoder (encodeVideo ff img)) (\<lambda>n. whenb (n > 0) (send_packets b meanwhile)))"

definition publish :: "build \<Rightarrow> 'w ffmpeg \<Rightarrow> image \<Rightarrow> srv_event list list \<Rightarrow> ('w publisher, unit) op" where
  "publish b ff img meanwhile =
     handle
       (bnd (gets (\<lambda>s. p_server s = None \<or> p_failed s)) (\<lambda>off. whenb (\<not> off)
         (thn (bnd (gets update_url) (\<lambda>up. whenb up
                (thn announce (upd (\<lambda>s. s\<lparr>update_url := False\<rparr>)))))
         (bnd (deref p_server) (\<lambda>v.
            if \<not> hasActiveStreams v then stop_encoding else encode_image b ff img meanwhile)))))
       (\<lambda>e. upd (\<lambda>s. s\<lparr>p_encoder := None, p_failed := True\<rparr>))"

definition onGraphChange :: "nat \<Rightarrow> 'w publisher \<Rightarrow> 'w publisher" where
  "onGraphChange subscribers s =
     (if subscribers = 0 \<and> p_encoder s \<noteq> None \<and> p_server s \<noteq> None
      then s\<lparr>p_encoder := None\<rparr> else s)"

section \<open>The publisher at work\<close>

datatype pub_event =
    Advertise bool "nat \<Rightarrow> string" surroundings pub_params
  | PubParameters bool "nat \<Rightarrow> string" surroundings pub_params
  | UndeclaredAdvertise bool "nat \<Rightarrow> string" surroundings exn
  | UnreadableAdvertise bool "nat \<Rightarrow> string" surroundings exn
  | UnreadablePubParameters bool "nat \<Rightarrow> string" surroundings exn
  | Publish image "srv_event list list"
  | Live srv_event
  | GraphChange nat
  | PubNodeGone
  | PubShutdown

definition pub_op :: "build \<Rightarrow> 'w ffmpeg \<Rightarrow> pub_event \<Rightarrow> ('w publisher, unit) op" where
  "pub_op b ff e =
     (case e of
        Advertise bound port_text env params \<Rightarrow> advertiseImpl b bound port_text env (Inr ()) (Inr params)
      | PubParameters bound port_text env params \<Rightarrow> pub_updateParameters b bound port_text env (Inr params)
      | UndeclaredAdvertise bound port_text env x \<Rightarrow>
          advertiseImpl b bound port_text env (Inl (Throw x)) (Inl (Throw x))
      | UnreadableAdvertise bound port_text env x \<Rightarrow> advertiseImpl b bound port_text env (Inr ()) (Inl (Throw x))
      | UnreadablePubParameters bound port_text env x \<Rightarrow>
          pub_updateParameters b bound port_text env (Inl (Throw x))
      | Publish img meanwhile \<Rightarrow> publish b ff img meanwhile
      | Live e \<Rightarrow> upd (live_call b e)
      | GraphChange n \<Rightarrow> upd (onGraphChange n)
      | PubNodeGone \<Rightarrow> upd (\<lambda>s. s\<lparr>p_node := False\<rparr>)
      | PubShutdown \<Rightarrow> upd pub_shutdown)"

definition pub_step :: "build \<Rightarrow> 'w ffmpeg \<Rightarrow> 'w publisher \<Rightarrow> pub_event \<Rightarrow> 'w publisher" where
  "pub_step b ff s e = snd (pub_op b ff e s)"

text \<open>Parameters that could not be declared or read leave the publisher as it was.\<close>

lemma unread_op:
  "pub_op b ff (UndeclaredAdvertise bound port_text env x) s = (Inl (Throw x), s\<lparr>graph_monitor := True\<rparr>)"
  "pub_op b ff (UnreadableAdvertise bound port_text env x) s =
    (if p_node s then Inl (Throw x) else Inr (), s\<lparr>graph_monitor := True\<rparr>)"
  "pub_op b ff (UnreadablePubParameters bound port_text env x) s =
    (if p_node s then Inl (Throw x) else Inr (), s)"
  by (simp_all add: pub_op_def advertiseImpl_Inl advertiseImpl_Inr pub_updateParameters_Inl)

text \<open>A node refuses parameters that are not in the declared ranges.\<close>

definition allowed_event :: "pub_event \<Rightarrow> bool" where
  "allowed_event e =
     (case e of
        Advertise _ _ _ params \<Rightarrow> pub_setupParameters params
      | PubParameters _ _ _ params \<Rightarrow> pub_setupParameters params
      | _ \<Rightarrow> True)"

definition reachable_publisher :: "build \<Rightarrow> 'w ffmpeg \<Rightarrow> 'w publisher \<Rightarrow> bool" where
  "reachable_publisher b ff s \<longleftrightarrow> names_ok ff \<and>
     (\<exists>w level. runs (pub_op b ff) allowed_event (new_publisher w level) s)"

end
