(* ===== verification/Publisher_Run.thy ===== *)
theory Publisher_Run
  imports Publisher_Plugin
begin

text \<open>
  What holds in every state that the publisher (theory \<open>Publisher_Plugin\<close>) reaches, and how
  each of its operations gets from one such state to the next.
\<close>

section \<open>Calls into the server and the encoder\<close>

lemma wp_on_server [wp_rules]:
  "wp (on_server m) Q E s =
     (case p_server s of None \<Rightarrow> E NullDeref s
      | Some v \<Rightarrow> wp m (\<lambda>a v'. Q a (s\<lparr>p_server := Some v'\<rparr>)) (\<lambda>f v'. E f (s\<lparr>p_server := Some v'\<rparr>)) v)"
  by (auto simp: on_server_def bnd_def deref_def wp_def split: option.split prod.splits sum.splits)

lemma wp_on_encoder [wp_rules]:
  "wp (on_encoder m) Q E s =
     (case p_encoder s of None \<Rightarrow> E NullDeref s
      | Some e \<Rightarrow> wp m (\<lambda>a e'. Q a (s\<lparr>p_encoder := Some e', p_world := world e', p_level := log_level e'\<rparr>))
          (\<lambda>f e'. E f (s\<lparr>p_encoder := Some e', p_world := world e', p_level := log_level e'\<rparr>))
          (e\<lparr>world := p_world s, log_level := p_level s\<rparr>))"
  by (auto simp: on_encoder_def bnd_def deref_def wp_def split: option.split prod.splits sum.splits)

lemma enc_inv_world [simp]: "enc_inv ff (e\<lparr>world := w, log_level := l\<rparr>) = enc_inv ff e"
  by (simp add: enc_inv_defs)

text \<open>An encoder that belongs to the codec of the parameters, without waiting packets.\<close>

definition enc_fit :: "'w ffmpeg \<Rightarrow> video_codec \<Rightarrow> 'w encoder \<Rightarrow> bool" where
  "enc_fit ff codec e \<longleftrightarrow> enc_inv ff e \<and> e_codec e = codec \<and> packets e = []"

lemma wp_make_encoder:
  assumes "names_ok ff"
  shows "wp (make_encoder ff)
    (\<lambda>_ t. \<exists>e n. t = s\<lparr>p_encoder := Some e, p_world := world e, p_level := log_level e\<rparr> \<and>
       set_up (p_codec (p_config s)) (p_level s) n e)
    (\<lambda>f t. (\<exists>x. f = Throw x) \<and> (\<exists>w l. t = s\<lparr>p_world := w, p_level := l\<rparr>)) s"
proof -
  let ?codec = "p_codec (p_config s)"
  let ?r = "StreamEncoder ff ?codec (p_hw_encoder (p_config s)) (blank_encoder ?codec (p_level s) (p_world s))"
  obtain r e where re: "?r = (r, e)" by (rule prod.exhaust)
  from wp_StreamEncoder [OF assms, of ?codec "p_hw_encoder (p_config s)" "p_level s" "p_world s"] re
  have "(case r of Inl f \<Rightarrow> \<exists>x. f = Throw x | Inr _ \<Rightarrow> \<exists>n. set_up ?codec (p_level s) n e)"
    by (auto simp: wp_def set_up_def split: sum.splits)
  then show ?thesis
    using re by (auto simp: make_encoder_def wp_def split: sum.splits)
qed

text \<open>The setters change the context of an encoder that is not in use yet, and never fail there.\<close>

lemma keeps_set_up_setters:
  "keeps (set_up codec level n) never (setBitrate rate)"
  "keeps (set_up codec level n) never (setFramerate fps)"
  "keeps (set_up codec level n) never (setPackageSizeHint ff hint)"
proof -
  have ini: "keeps (set_up codec level n) never (bnd (gets initialized) (\<lambda>ini. if ini then m else m'))"
    if "keeps (set_up codec level n) never m'" for m m' :: "('w encoder, unit) op"
    using that by (auto simp: keeps_def wp_rules set_up_def unused_def)
  show "keeps (set_up codec level n) never (setBitrate rate)"
    "keeps (set_up codec level n) never (setFramerate fps)"
    "keeps (set_up codec level n) never (setPackageSizeHint ff hint)"
    unfolding setBitrate_def setFramerate_def setPackageSizeHint_def
    by (rule ini, intro keeps_rules blind_set_up; simp)+
qed

lemma set_up_fit: "set_up codec level n e \<Longrightarrow> enc_fit ff codec e \<and> log_level e = level"
  using unused_idle [of codec level e ff] by (auto simp: set_up_def enc_fit_def idle_inv chosen_def) (auto simp: unused_def)

section \<open>Encoding keeps the codec\<close>

definition has_codec :: "video_codec \<Rightarrow> 'w encoder \<Rightarrow> bool" where
  "has_codec k e \<longleftrightarrow> ctx e \<noteq> None \<and> e_codec e = k"

abbreviation any_fault :: "fault \<Rightarrow> 's \<Rightarrow> bool" where
  "any_fault f t \<equiv> True"

lemma blind_has_codec: "blind (has_codec k)"
  by (auto simp: blind_def has_codec_def)

lemma keeps_fail_any: "keeps I any_fault (fail f)"
  by (simp add: keeps_def wp_rules)

lemma keeps_deref_any: "keeps I any_fault (deref f)"
  by (simp add: keeps_def wp_rules split: option.split)

lemma keeps_lift_any: "keeps I any_fault (lift_op r)"
  by (simp add: keeps_def wp_rules split: sum.split)

lemma keeps_receive_packets: "keeps (has_codec k) any_fault (receive_packets ff t)"
  by (auto simp: keeps_def receive_packets_def bnd_def deref_def wp_def has_codec_def split: option.splits prod.splits sum.splits)

lemma keeps_encodeVideo: "keeps (has_codec k) any_fault (encodeVideo ff img)"
proof -
  note rules = keeps_rules keeps_fail_any keeps_lift_any keeps_deref_any keeps_receive_packets blind_has_codec keeps_upd
  have "keeps (has_codec k) any_fault (start_encoding ff img)"
    unfolding start_encoding_def openEncoder_def open_frames_def open_codec_def
    by (intro rules) (simp_all add: has_codec_def)
  moreover have "keeps (has_codec k) any_fault (convert_frame ff img)"
    unfolding convert_frame_def Let_def by (intro rules) (simp_all add: has_codec_def)
  moreover have "keeps (has_codec k) any_fault (submit_frame ff img cv pts)" for cv pts
    unfolding submit_frame_def Let_def case_prod_unfold by (intro rules) (simp_all add: has_codec_def)
  ultimately show ?thesis
    unfolding encodeVideo_def by (intro rules) (simp_all add: has_codec_def)
qed

lemma wp_encode_fit:
  assumes "enc_fit ff codec e"
  shows "wp (encodeVideo ff img)
    (\<lambda>n t. enc_fit ff codec (t\<lparr>packets := []\<rparr>) \<and> n = length (packets t) \<and>
       stamped (padding ff) (i_stamp img) (packets t)) any_fault e"
proof -
  have inv: "enc_inv ff e" and k: "has_codec codec e" and p: "packets e = []"
    using assms by (auto simp: enc_fit_def has_codec_def enc_inv_def)
  have none: "enc_inv ff (t\<lparr>packets := []\<rparr>)" if "enc_inv ff t" for t
    using that by (simp add: enc_inv_defs)
  show ?thesis
    by (rule wp_mono [OF wp_both [OF wp_encodeVideo [OF inv] keepsD [OF keeps_encodeVideo k]]])
       (use p none in \<open>auto simp: enc_fit_def has_codec_def\<close>)
qed

section \<open>Calls of live555\<close>

text \<open>What the publisher relies on: the session, its URL and its sizes are the publisher's.\<close>

definition same_session :: "server \<Rightarrow> server \<Rightarrow> bool" where
  "same_session v v' \<longleftrightarrow> sms v' = sms v \<and> s_url v' = s_url v \<and> s_codec v' = s_codec v \<and>
     udp_packet_size v' = udp_packet_size v"

lemma same_session_refl [simp]: "same_session v v"
  by (simp add: same_session_def)

lemma same_session_trans: "same_session u v \<Longrightarrow> same_session v w \<Longrightarrow> same_session u w"
  by (simp add: same_session_def)

lemma same_on_injector [simp]: "same_session u (on_injector p f v) = same_session u v"
  by (simp add: same_session_def)

lemma same_sendFrame [simp]:
  "same_session u (sendFrame f v) = same_session u v" "same_session (sendFrame f u) v = same_session u v"
  by (simp_all add: same_session_def sendFrame_def)

lemma same_newStreamSource [simp]: "same_session u (newStreamSource src p v) = same_session u v"
  by (simp add: same_session_def newStreamSource_def)

lemma same_new_source [simp]: "same_session u (snd (new_source framer v)) = same_session u v"
  by (simp add: same_session_def new_source_def Let_def)

lemma same_createNewStreamSource [simp]:
  "same_session u (snd (createNewStreamSource b dummy v)) = same_session u v"
  by (simp add: createNewStreamSource_def case_prod_unfold split: option.split)

lemma same_createNewRTPSink [simp]: "same_session u (snd (createNewRTPSink b dummy v)) = same_session u v"
  by (simp add: same_session_def createNewRTPSink_def Let_def)

lemma same_closeStreamSource [simp]: "same_session u (closeStreamSource src v) = same_session u v"
  by (simp add: same_session_def closeStreamSource_def Let_def split: option.split)

lemma same_sdpLines [simp]: "same_session u (snd (sdpLines b cached v)) = same_session u v"
  using same_createNewStreamSource [of u b True v]
  by (cases "createNewStreamSource b True v") (simp add: sdpLines_def split: option.split)

lemma same_callback: "callback v e \<Longrightarrow> same_session v (srv_step b v e)"
  by (cases e) (simp_all add: callback_def)

definition serve :: "build \<Rightarrow> srv_event \<Rightarrow> server \<Rightarrow> server" where
  "serve b e v = (if callback v e then srv_step b v e else v)"

text \<open>A server with a session that belongs to the parameters.\<close>

definition cast_ok :: "bool \<Rightarrow> server \<Rightarrow> bool" where
  "cast_ok mc v \<longleftrightarrow>
     (if mc then streams v \<noteq> [] \<and> (\<exists>p. sms v = Some (p, MulticastSession))
      else \<exists>p port. sms v = Some (p, UnicastSession port))"

definition srv_fit :: "build \<Rightarrow> video_codec \<Rightarrow> bool \<Rightarrow> server \<Rightarrow> bool" where
  "srv_fit b codec mc v \<longleftrightarrow> srv_inv b v \<and> s_codec v = codec \<and> isSupported b codec \<and> cast_ok mc v"

lemma serve_cast: "cast_ok mc v \<Longrightarrow> cast_ok mc (serve b e v)"
proof (cases "callback v e")
  case True
  assume c: "cast_ok mc v"
  show ?thesis
  proof (cases mc)
    case True
    with c \<open>callback v e\<close> obtain p m where "e = Consume p m"
      by (auto simp: cast_ok_def callback_def split: srv_event.splits)
    with c show ?thesis by (simp add: cast_ok_def serve_def)
  next
    case False
    with c same_callback [OF \<open>callback v e\<close>] show ?thesis
      by (auto simp: cast_ok_def serve_def same_session_def)
  qed
qed (simp add: serve_def)

lemma serve_fit:
  assumes "srv_fit b codec mc v"
  shows "srv_fit b codec mc (serve b e v)" "same_session v (serve b e v)"
proof -
  have "srv_inv b v" using assms by (simp add: srv_fit_def)
  then have "srv_inv b (srv_step b v e)" by (rule server_machine.step_inv)
  moreover show "same_session v (serve b e v)" by (simp add: serve_def same_callback)
  ultimately show "srv_fit b codec mc (serve b e v)"
    using assms serve_cast [of mc v b e] by (auto simp: srv_fit_def serve_def same_session_def)
qed

lemma sendFrame_fit: "srv_fit b codec mc v \<Longrightarrow> srv_fit b codec mc (sendFrame f v)"
  using same_sendFrame(1) [of v f v] sendFrame_inv [of b v f]
  by (simp add: srv_fit_def same_session_def cast_ok_def) (simp add: sendFrame_def)

lemma live_call_eq: "p_server s = Some v \<Longrightarrow> live_call b e s = s\<lparr>p_server := Some (serve b e v)\<rparr>"
  by (simp add: live_call_def serve_def)

lemma live_calls_eq:
  "p_server s = Some v \<Longrightarrow> fold (live_call b) es s = s\<lparr>p_server := Some (fold (serve b) es v)\<rparr>"
  by (induction es arbitrary: s v) (simp_all add: live_call_eq)

section \<open>Sending the packets\<close>

text \<open>The reference: the frames in their order, each after the calls that precede it.\<close>

primrec relay :: "build \<Rightarrow> srv_event list list \<Rightarrow> frame_data list \<Rightarrow> server \<Rightarrow> server" where
  "relay b meanwhile [] v = fold (serve b) (concat (take 1 meanwhile)) v"
| "relay b meanwhile (f # fs) v =
     relay b (drop 1 meanwhile) fs (sendFrame f (fold (serve b) (concat (take 1 meanwhile)) v))"

lemma relay_undisturbed: "relay b [] fs v = fold sendFrame fs v"
  by (induction fs arbitrary: v) simp_all

lemma serve_all_fit:
  "srv_fit b codec mc v \<Longrightarrow> srv_fit b codec mc (fold (serve b) es v) \<and> same_session v (fold (serve b) es v)"
  by (induction es arbitrary: v) (auto intro: serve_fit same_session_trans)

lemma relay_fit:
  "srv_fit b codec mc v \<Longrightarrow> srv_fit b codec mc (relay b mw fs v) \<and> same_session v (relay b mw fs v)"
proof (induction fs arbitrary: mw v)
  case Nil
  then show ?case by (simp add: serve_all_fit)
next
  case (Cons f fs)
  let ?v = "fold (serve b) (concat (take 1 mw)) v"
  have v: "srv_fit b codec mc ?v" "same_session v ?v" using serve_all_fit [OF Cons.prems] by blast+
  with Cons.IH [OF sendFrame_fit [OF v(1), of f], of "drop 1 mw"] v(2) show ?case
    by (auto dest: same_session_trans)
qed

lemma send_loop_eq:
  assumes "p_encoder s = Some e" and "p_server s = Some v"
  shows "send_loop b mw s = Some (Inr (), s\<lparr>p_encoder := Some (e\<lparr>packets := []\<rparr>),
    p_server := Some (relay b mw (packets e) v), trail := trail s @ map Frame (packets e)\<rparr>)"
  using assms
proof (induction "packets e" arbitrary: s e v mw)
  case Nil
  then show ?case by (subst send_loop.simps) (simp add: live_calls_eq nextPacket_def)
next
  case (Cons f fs)
  let ?v = "fold (serve b) (concat (take 1 mw)) v" and ?e = "e\<lparr>packets := fs\<rparr>"
  let ?s = "s\<lparr>p_encoder := Some ?e, p_server := Some (sendFrame f ?v), trail := trail s @ [Frame f]\<rparr>"
  have "send_loop b mw s = send_loop b (drop 1 mw) ?s"
    using Cons.prems Cons.hyps(2) [symmetric]
    by (subst send_loop.simps) (simp add: live_calls_eq nextPacket_def)
  with Cons.hyps(1) [of ?e ?s "sendFrame f ?v" "drop 1 mw"] Cons.hyps(2) [symmetric] show ?case by simp
qed

section \<open>The invariant\<close>

text \<open>The last URL that was announced.\<close>

definition announced :: "sent_item list \<Rightarrow> string option" where
  "announced items = (case filter (\<lambda>x. case x of Url _ \<Rightarrow> True | Frame _ \<Rightarrow> False) (rev items) of
     Url u # _ \<Rightarrow> Some u | _ \<Rightarrow> None)"

lemma announced_url [simp]: "announced (items @ [Url u]) = Some u"
  by (simp add: announced_def)

lemma announced_frames [simp]: "announced (items @ map Frame fs) = announced items"
  by (simp add: announced_def rev_map filter_empty_conv)

definition pub_inv :: "build \<Rightarrow> 'w ffmpeg \<Rightarrow> 'w publisher \<Rightarrow> bool" where
  "pub_inv b ff s \<longleftrightarrow>
     (\<forall>v. p_server s = Some v \<longrightarrow> srv_fit b (p_codec (p_config s)) (use_ip_multicast (p_config s)) v \<and>
        (\<not> update_url s \<longrightarrow> announced (trail s) = Some (s_url v))) \<and>
     (\<forall>e. p_encoder s = Some e \<longrightarrow> enc_fit ff (p_codec (p_config s)) e \<and> p_server s \<noteq> None \<and> \<not> p_failed s)"

lemma pub_inv_off: "p_server s = None \<Longrightarrow> p_encoder s = None \<Longrightarrow> pub_inv b ff s"
  by (simp add: pub_inv_def)

section \<open>Changing parameters\<close>

definition needs_server :: "'w publisher \<Rightarrow> pub_config \<Rightarrow> bool" where
  "needs_server s new \<longleftrightarrow> p_server s = None \<and> \<not> p_failed s \<or> p_udp_port (p_config s) \<noteq> p_udp_port new"

definition needs_session :: "'w publisher \<Rightarrow> pub_config \<Rightarrow> bool" where
  "needs_session s new \<longleftrightarrow> needs_server s new \<or> p_codec (p_config s) \<noteq> p_codec new \<or>
     use_ip_multicast (p_config s) \<noteq> use_ip_multicast new"

definition needs_encoder :: "'w publisher \<Rightarrow> pub_config \<Rightarrow> bool" where
  "needs_encoder s new \<longleftrightarrow> needs_session s new \<or> target_bitrate (p_config s) \<noteq> target_bitrate new \<or>
     expected_framerate (p_config s) \<noteq> expected_framerate new \<or> p_hw_encoder (p_config s) \<noteq> p_hw_encoder new"

text \<open>The comparisons of the combined level are these conditions.\<close>

lemma change_levels:
  "LVL_SERVER \<le> change_level s new \<longleftrightarrow> needs_server s new"
  "change_level s new < LVL_SERVER \<longleftrightarrow> \<not> needs_server s new"
  "LVL_SESSION \<le> change_level s new \<longleftrightarrow> needs_session s new"
  "LVL_CODEC \<le> change_level s new \<longleftrightarrow> needs_encoder s new"
proof -
  show "LVL_SERVER \<le> change_level s new \<longleftrightarrow> needs_server s new"
    "LVL_SESSION \<le> change_level s new \<longleftrightarrow> needs_session s new"
    "LVL_CODEC \<le> change_level s new \<longleftrightarrow> needs_encoder s new"
    by (simp_all add: change_level_def Let_def needs_encoder_def needs_session_def needs_server_def
        LVL_SERVER_def LVL_SESSION_def LVL_CODEC_def)
  then show "change_level s new < LVL_SERVER \<longleftrightarrow> \<not> needs_server s new" by (simp add: not_le [symmetric])
qed

lemma keeps_case_option:
  "keeps I E m \<Longrightarrow> (\<And>x. keeps I E (f x)) \<Longrightarrow> keeps I E (case r of None \<Rightarrow> m | Some x \<Rightarrow> f x)"
  by (cases r) simp_all

lemma keeps_start_size: "keeps (\<lambda>v. udp_packet_size v = n) any_fault (start b env codec mc)"
proof -
  have "keeps (\<lambda>v. udp_packet_size v = n) any_fault (alloc_source framer)" for framer
    by (auto simp: keeps_def wp_alloc_source new_source_def Let_def)
  note rules = keeps_rules keeps_fail_any keeps_case_option this
  show ?thesis
    unfolding start_def start_multicast_def case_prod_unfold
    by (intro rules keeps_upd) (simp_all add: newStreamSource_def add_session_def Let_def)
qed

lemma wp_start_fit:
  assumes "srv_inv b v"
  shows "wp (start b env codec mc)
    (\<lambda>_ v'. srv_fit b codec mc v' \<and> s_url v' = rtsp_url env \<and> udp_packet_size v' = udp_packet_size v)
    (\<lambda>f _. \<exists>x. f = Throw x) v"
  by (rule wp_mono [OF wp_both [OF wp_start [OF assms] keepsD [OF keeps_start_size refl]]])
    (auto simp: srv_fit_def cast_ok_def split: if_splits)

text \<open>What a session that was (re)started leaves behind.\<close>

definition restarted :: "32 word \<Rightarrow> build \<Rightarrow> surroundings \<Rightarrow> 'w publisher \<Rightarrow> 'w publisher \<Rightarrow> bool" where
  "restarted n b env s t \<longleftrightarrow> (\<exists>v. t = s\<lparr>p_server := Some v, update_url := True, p_encoder := None\<rparr> \<and>
     srv_fit b (p_codec (p_config s)) (use_ip_multicast (p_config s)) v \<and> s_url v = rtsp_url env \<and> udp_packet_size v = n)"

abbreviation throw_only :: "fault \<Rightarrow> 's \<Rightarrow> bool" where
  "throw_only f t \<equiv> \<exists>x. f = Throw x"

lemma wp_run_session:
  assumes v: "p_server s = Some v" "srv_inv b v"
  shows "wp (thn (bnd (gets p_config) (\<lambda>cfg. on_server (start b env (p_codec cfg) (use_ip_multicast cfg))))
       (thn (upd (\<lambda>s. s\<lparr>update_url := True\<rparr>)) (upd (\<lambda>s. s\<lparr>p_encoder := None\<rparr>))))
    (\<lambda>_. restarted (udp_packet_size v) b env s)
    (\<lambda>f t. (\<exists>x. f = Throw x) \<and> (\<exists>v. t = s\<lparr>p_server := Some v\<rparr>)) s"
  unfolding wp_thn wp_bnd wp_gets wp_upd wp_on_server v(1) option.case
  by (rule wp_mono [OF wp_start_fit [OF v(2)]]) (auto simp: restarted_def)

lemma wp_make_server:
  "wp (make_server bound port_text)
    (\<lambda>_ t. \<exists>v. t = s\<lparr>p_server := Some v\<rparr> \<and> srv_inv b v \<and> udp_packet_size v = p_packet_size (p_config s) - 42)
    (\<lambda>f t. (\<exists>x. f = Throw x) \<and> t = s\<lparr>p_server := None\<rparr>) s"
proof (cases bound)
  case True
  then obtain v where v: "create_server bound port_text (unat (p_udp_port (p_config s)))
      (p_packet_size (p_config s) - 42) = Inr v" "udp_packet_size v = p_packet_size (p_config s) - 42"
    by (simp add: create_server_def)
  with create_inv [OF v(1), of b] show ?thesis by (auto simp: make_server_def wp_rules)
next
  case False
  then show ?thesis by (simp add: make_server_def wp_rules create_server_def)
qed

lemma restarted_inv: "restarted n b env s t \<Longrightarrow> pub_inv b ff t"
  by (auto simp: restarted_def pub_inv_def)

text \<open>
  The outcome of a change of the parameters: it fails only if the session has to be started
  anew on a server that is gone because of an earlier failure.
\<close>

definition switched_off :: "'w publisher \<Rightarrow> 'w publisher" where
  "switched_off s = s\<lparr>p_server := None, p_encoder := None, update_url := False, p_failed := True\<rparr>"

definition new_size :: "'w publisher \<Rightarrow> pub_config \<Rightarrow> 32 word" where
  "new_size s new = (if needs_server s new then p_packet_size new - 42 else udp_packet_size (the (p_server s)))"

definition applied :: "build \<Rightarrow> surroundings \<Rightarrow> 'w publisher \<Rightarrow> pub_config \<Rightarrow> 'w publisher \<Rightarrow> bool" where
  "applied b env s new t \<longleftrightarrow>
     (let s' = s\<lparr>p_config := new\<rparr> in
      if \<not> p_node s then t = s
      else if needs_session s new then restarted (new_size s new) b env s' t \<or> t = switched_off s'
      else t = (if needs_encoder s new then s'\<lparr>p_encoder := None\<rparr> else s'))"

definition stuck :: "'w publisher \<Rightarrow> pub_config \<Rightarrow> bool" where
  "stuck s new \<longleftrightarrow> p_server s = None \<and> p_failed s \<and> p_node s \<and> needs_session s new \<and> \<not> needs_server s new"

lemma applied_inv:
  assumes "pub_inv b ff s" and "applied b env s new t"
  shows "pub_inv b ff t"
proof (cases "p_node s \<and> needs_session s new")
  case True
  then show ?thesis
    using assms(2) restarted_inv by (auto simp: applied_def Let_def switched_off_def pub_inv_off)
next
  case False
  then show ?thesis
    using assms by (auto simp: applied_def Let_def pub_inv_def needs_session_def split: if_splits)
qed

lemma wp_pub_updateParameters:
  assumes inv: "pub_inv b ff s"
  shows "wp (pub_updateParameters b bound port_text env (Inr params))
    (\<lambda>_ t. applied b env s (read_config params) t)
    (\<lambda>f t. f = NullDeref \<and> stuck s (read_config params)) s" (is "wp _ ?Q ?E s")
proof (cases "p_node s")
  case False
  then show ?thesis by (simp add: pub_updateParameters_Inr apply_params_def wp_rules applied_def Let_def)
next
  case True
  define new where "new = read_config params"
  let ?s = "s\<lparr>p_config := new\<rparr>" and ?l = "change_level s new"
  let ?H = "\<lambda>f t. case f of Throw x \<Rightarrow> ?Q () (switched_off t) | _ \<Rightarrow> ?E f t"
  have go: "wp (pub_updateParameters b bound port_text env (Inr params)) Q E s =
      wp (apply_changes b bound port_text env ?l) Q (\<lambda>f t. case f of Throw x \<Rightarrow> Q () (switched_off t) | _ \<Rightarrow> E f t) ?s"
    for Q E unfolding pub_updateParameters_Inr apply_params_def Let_def wp_bnd wp_gets wp_whenb wp_thn wp_handle wp_upd
      new_def switched_off_def using True by simp
  have cs: "needs_server s new \<Longrightarrow> needs_session s new" "needs_session s new \<Longrightarrow> needs_encoder s new"
    by (simp_all add: needs_session_def needs_encoder_def)
  have off: "?Q () (switched_off (?s\<lparr>p_server := v\<rparr>))" if "needs_session s new" for v
    using that True by (simp add: applied_def Let_def switched_off_def new_def)
  have session: "wp (thn (bnd (gets p_config) (\<lambda>cfg. on_server (start b env (p_codec cfg) (use_ip_multicast cfg))))
       (thn (upd (\<lambda>s. s\<lparr>update_url := True\<rparr>)) (upd (\<lambda>s. s\<lparr>p_encoder := None\<rparr>)))) ?Q ?H (?s\<lparr>p_server := Some v\<rparr>)"
    if v: "srv_inv b v" "udp_packet_size v = new_size s new" and ns: "needs_session s new" for v
  proof (rule wp_mono [OF wp_run_session [OF _ v(1)]])
    fix t
    assume "restarted (udp_packet_size v) b env (?s\<lparr>p_server := Some v\<rparr>) t"
    then have "restarted (new_size s new) b env ?s t" by (simp add: restarted_def v(2))
    then show "?Q () t" using True ns by (simp add: applied_def Let_def new_def)
  next
    fix f t
    assume "(\<exists>x. f = Throw x) \<and> (\<exists>w. t = ?s\<lparr>p_server := Some v, p_server := Some w\<rparr>)"
    then show "?H f t" using off [OF ns] by auto
  qed simp
  show ?thesis
  proof (cases "needs_session s new")
    case False
    then have "?Q () (if needs_encoder s new then ?s\<lparr>p_encoder := None\<rparr> else ?s)"
      using True by (simp add: applied_def Let_def new_def)
    with False cs show ?thesis
      unfolding go apply_changes_def wp_thn wp_whenb change_levels by (auto simp: wp_upd)
  next
    case ns: True
    show ?thesis
    proof (cases "needs_server s new")
      case True
      with ns cs have "wp (apply_changes b bound port_text env ?l) Q E ?s = wp (make_server bound port_text)
          (\<lambda>_. wp (thn (bnd (gets p_config) (\<lambda>cfg. on_server (start b env (p_codec cfg) (use_ip_multicast cfg))))
            (thn (upd (\<lambda>s. s\<lparr>update_url := True\<rparr>)) (upd (\<lambda>s. s\<lparr>p_encoder := None\<rparr>)))) Q E) E ?s" for Q E
        unfolding apply_changes_def wp_thn wp_whenb change_levels by simp
      then show ?thesis
        unfolding go
        by simp (rule wp_mono [OF wp_make_server [where b = b and s = ?s]],
          use session ns True off [OF ns] in \<open>auto simp: new_size_def\<close>)
    next
      case False
      show ?thesis
      proof (cases "p_server s")
        case None
        with False ns True have "stuck s new" by (simp add: stuck_def needs_server_def)
        with False ns None show ?thesis
          unfolding go apply_changes_def wp_thn wp_whenb change_levels wp_on_server by (simp add: new_def)
      next
        case (Some v)
        have v: "srv_inv b (stop v)" "udp_packet_size (stop v) = new_size s new"
          using inv Some False by (simp_all add: pub_inv_def srv_fit_def stop_inv new_size_def)
        from False ns cs Some have "wp (apply_changes b bound port_text env ?l) Q E ?s =
            wp (thn (bnd (gets p_config) (\<lambda>cfg. on_server (start b env (p_codec cfg) (use_ip_multicast cfg))))
            (thn (upd (\<lambda>s. s\<lparr>update_url := True\<rparr>)) (upd (\<lambda>s. s\<lparr>p_encoder := None\<rparr>)))) Q E
            (?s\<lparr>p_server := Some (stop v)\<rparr>)" for Q E
          unfolding apply_changes_def wp_thn wp_whenb change_levels wp_on_server [of "upd _"] by (simp add: wp_upd [of stop])
        then show ?thesis unfolding go using session [OF v ns] by simp
      qed
    qed
  qed
qed

section \<open>Publishing\<close>

definition fresh_encoder :: "'w publisher \<Rightarrow> 'w publisher \<Rightarrow> bool" where
  "fresh_encoder s t \<longleftrightarrow>
     (\<exists>e n. t = s\<lparr>p_encoder := Some e, p_world := world e, p_level := log_level e\<rparr> \<and>
        set_up (p_codec (p_config s)) (p_level s) n e)"

lemma keeps_on_fresh:
  assumes "\<And>n. keeps (set_up (p_codec (p_config s)) (p_level s) n) never m"
  shows "keeps (fresh_encoder s) never (on_encoder m)"
  unfolding keeps_def wp_on_encoder
proof (intro allI impI)
  fix t
  assume "fresh_encoder s t"
  then obtain e n where e: "t = s\<lparr>p_encoder := Some e, p_world := world e, p_level := log_level e\<rparr>"
    "set_up (p_codec (p_config s)) (p_level s) n e" by (auto simp: fresh_encoder_def)
  have "wp m (\<lambda>_ e'. fresh_encoder s (t\<lparr>p_encoder := Some e', p_world := world e', p_level := log_level e'\<rparr>)) never e"
    by (rule wp_mono [OF keepsD [OF assms e(2)]]) (auto simp: e(1) fresh_encoder_def)
  then show "case p_encoder t of None \<Rightarrow> False | Some e \<Rightarrow>
      wp m (\<lambda>_ e'. fresh_encoder s (t\<lparr>p_encoder := Some e', p_world := world e', p_level := log_level e'\<rparr>))
        never (e\<lparr>world := p_world t, log_level := p_level t\<rparr>)"
    by (simp add: e(1))
qed

text \<open>Only the encoder and FFmpeg's world and log level differ.\<close>

definition encoder_only :: "'w publisher \<Rightarrow> 'w publisher \<Rightarrow> bool" where
  "encoder_only s t \<longleftrightarrow> (\<exists>e w l. t = s\<lparr>p_encoder := e, p_world := w, p_level := l\<rparr>)"

lemma wp_begin_encoding:
  assumes ok: "names_ok ff" and v: "p_server s \<noteq> None"
    and e: "\<And>e. p_encoder s = Some e \<Longrightarrow> enc_fit ff (p_codec (p_config s)) e"
  shows "wp (begin_encoding ff)
    (\<lambda>_ t. encoder_only s t \<and> (\<exists>e. p_encoder t = Some e \<and> enc_fit ff (p_codec (p_config s)) e))
    (\<lambda>f t. encoder_only s t) s"
proof (cases "p_encoder s")
  case (Some e)
  have "s = s\<lparr>p_encoder := p_encoder s, p_world := p_world s, p_level := p_level s\<rparr>" by simp
  then have "encoder_only s s" unfolding encoder_only_def by blast
  with Some assms show ?thesis by (simp add: begin_encoding_def wp_bnd wp_gets wp_whenb)
next
  case None
  let ?rest = "bnd (gets p_config) (\<lambda>cfg. thn (on_encoder (setBitrate (ucast (target_bitrate cfg))))
     (thn (on_encoder (setFramerate (expected_framerate cfg))) (bnd (deref p_server) (\<lambda>v.
        thn (on_encoder (setPackageSizeHint ff (maxPacketSize v - 24)))
            (on_encoder (bnd (deref ctx) (\<lambda>_. ret ())))))))"
  have "keeps (fresh_encoder s) never (deref p_server)"
    using v unfolding keeps_def wp_deref fresh_encoder_def by fastforce
  then have keep: "keeps (fresh_encoder s) never ?rest"
    by (intro keeps_rules keeps_on_fresh keeps_set_up_setters blind_set_up)
  have fit: "encoder_only s t \<and> (\<exists>e. p_encoder t = Some e \<and> enc_fit ff (p_codec (p_config s)) e)"
    if "fresh_encoder s t" for t
    using that set_up_fit by (fastforce simp: fresh_encoder_def encoder_only_def)
  have "wp (thn (make_encoder ff) ?rest)
    (\<lambda>_ t. encoder_only s t \<and> (\<exists>e. p_encoder t = Some e \<and> enc_fit ff (p_codec (p_config s)) e))
    (\<lambda>f t. encoder_only s t) s"
    unfolding wp_thn [of "make_encoder ff"]
  proof (rule wp_mono [OF wp_make_encoder [OF ok]])
    fix t
    assume "\<exists>e n. t = s\<lparr>p_encoder := Some e, p_world := world e, p_level := log_level e\<rparr> \<and>
       set_up (p_codec (p_config s)) (p_level s) n e"
    then have "fresh_encoder s t" by (simp add: fresh_encoder_def)
    then show "wp ?rest (\<lambda>_ t. encoder_only s t \<and> (\<exists>e. p_encoder t = Some e \<and> enc_fit ff (p_codec (p_config s)) e))
      (\<lambda>f t. encoder_only s t) t"
      by (intro wp_mono [OF keepsD [OF keep]]) (use fit in auto)
  next
    fix f t
    assume "(\<exists>x. f = Throw x) \<and> (\<exists>w l. t = s\<lparr>p_world := w, p_level := l\<rparr>)"
    then obtain w l where "t = s\<lparr>p_encoder := p_encoder s, p_world := w, p_level := l\<rparr>" by auto
    then show "encoder_only s t" unfolding encoder_only_def by blast
  qed
  then show ?thesis by (simp add: begin_encoding_def wp_bnd wp_gets wp_whenb None)
qed

text \<open>The frames that the encoder makes of an image.\<close>

definition encoded :: "'w ffmpeg \<Rightarrow> image \<Rightarrow> 'w publisher \<Rightarrow> frame_data list \<Rightarrow> bool" where
  "encoded ff img s fs \<longleftrightarrow>
     (\<exists>t e e'. begin_encoding ff s = (Inr (), t) \<and> p_encoder t = Some e \<and>
        encodeVideo ff img (e\<lparr>world := p_world t, log_level := p_level t\<rparr>) = (Inr (length fs), e') \<and>
        packets e' = fs)"

text \<open>What an image did: the frames \<open>fs\<close> that it became went to the server and into the trail.\<close>

definition transmitted :: "build \<Rightarrow> 'w ffmpeg \<Rightarrow> image \<Rightarrow> srv_event list list \<Rightarrow> 'w publisher \<Rightarrow> 'w publisher \<Rightarrow> bool" where
  "transmitted b ff img mw s t \<longleftrightarrow>
     (\<exists>fs e w l v. stamped (padding ff) (i_stamp img) fs \<and> encoded ff img s fs \<and> enc_fit ff (p_codec (p_config s)) e \<and>
        p_server s = Some v \<and>
        t = s\<lparr>p_encoder := Some e, p_world := w, p_level := l,
              p_server := Some (if fs = [] then v else relay b mw fs v), trail := trail s @ map Frame fs\<rparr>)"

lemma wp_encode_image:
  assumes ok: "names_ok ff" and v: "p_server s = Some v"
    and e: "\<And>e. p_encoder s = Some e \<Longrightarrow> enc_fit ff (p_codec (p_config s)) e"
  shows "wp (encode_image b ff img mw) (\<lambda>_. transmitted b ff img mw s) (\<lambda>_. encoder_only s) s"
  unfolding encode_image_def wp_thn wp_bnd [of "on_encoder _"]
proof (rule wp_mono [OF wp_run [OF wp_begin_encoding [OF ok]]])
  fix u t
  assume "(encoder_only s t \<and> (\<exists>e. p_encoder t = Some e \<and> enc_fit ff (p_codec (p_config s)) e)) \<and>
    begin_encoding ff s = (Inr u, t)"
  then obtain e w l where begun: "begin_encoding ff s = (Inr (), t)" and t: "t = s\<lparr>p_encoder := Some e, p_world := w, p_level := l\<rparr>"
    and e: "enc_fit ff (p_codec (p_config s)) (e\<lparr>world := w, log_level := l\<rparr>)"
    by (auto simp: encoder_only_def enc_fit_def)
  have "wp (encodeVideo ff img)
      (\<lambda>n e'. wp (whenb (n > 0) (send_packets b mw)) (\<lambda>_. transmitted b ff img mw s) (\<lambda>_. encoder_only s)
        (t\<lparr>p_encoder := Some e', p_world := world e', p_level := log_level e'\<rparr>))
      (\<lambda>f e'. encoder_only s (t\<lparr>p_encoder := Some e', p_world := world e', p_level := log_level e'\<rparr>))
      (e\<lparr>world := w, log_level := l\<rparr>)"
  proof (rule wp_mono [OF wp_run [OF wp_encode_fit [OF e]]])
    fix n e'
    assume run: "(enc_fit ff (p_codec (p_config s)) (e'\<lparr>packets := []\<rparr>) \<and> n = length (packets e') \<and>
      stamped (padding ff) (i_stamp img) (packets e')) \<and>
      encodeVideo ff img (e\<lparr>world := w, log_level := l\<rparr>) = (Inr n, e')"
    then have n: "enc_fit ff (p_codec (p_config s)) (e'\<lparr>packets := []\<rparr>) \<and> n = length (packets e') \<and>
      stamped (padding ff) (i_stamp img) (packets e')" by blast
    have made: "encoded ff img s (packets e')"
      unfolding encoded_def by (rule exI [of _ t], rule exI [of _ e], rule exI [of _ e']) (use run begun in \<open>simp add: t\<close>)
    let ?t = "t\<lparr>p_encoder := Some e', p_world := world e', p_level := log_level e'\<rparr>"
    have "send_packets b mw ?t = (Inr (), ?t\<lparr>p_encoder := Some (e'\<lparr>packets := []\<rparr>),
        p_server := Some (relay b mw (packets e') v), trail := trail s @ map Frame (packets e')\<rparr>)"
      using send_loop_eq [of ?t e' v b mw] v by (simp add: send_packets_def t)
    moreover have "transmitted b ff img mw s (?t\<lparr>p_encoder := Some (e'\<lparr>packets := []\<rparr>),
        p_server := Some (relay b mw (packets e') v), trail := trail s @ map Frame (packets e')\<rparr>)"
      if "packets e' \<noteq> []"
      unfolding transmitted_def t
      by (rule exI [of _ "packets e'"], rule exI [of _ "e'\<lparr>packets := []\<rparr>"], rule exI [of _ "world e'"],
          rule exI [of _ "log_level e'"], rule exI [of _ v]) (use n v that made in simp)
    moreover have "transmitted b ff img mw s ?t" if "packets e' = []"
      unfolding transmitted_def t
      by (rule exI [of _ "[]"], rule exI [of _ e'], rule exI [of _ "world e'"],
          rule exI [of _ "log_level e'"], rule exI [of _ v]) (use n v that made in \<open>simp add: enc_fit_def enc_inv_defs\<close>)
    ultimately show "wp (whenb (n > 0) (send_packets b mw)) (\<lambda>_. transmitted b ff img mw s) (\<lambda>_. encoder_only s) ?t"
      using n by (cases "packets e' = []") (simp_all add: wp_whenb wp_def [of "send_packets b mw"])
  qed (auto simp: t encoder_only_def)
  then show "wp (on_encoder (encodeVideo ff img)) (\<lambda>n. wp (whenb (n > 0) (send_packets b mw))
      (\<lambda>_. transmitted b ff img mw s) (\<lambda>_. encoder_only s)) (\<lambda>_. encoder_only s) t"
    by (simp add: wp_on_encoder t)
qed (use v e in auto)

text \<open>The state after the announcement, and what \<open>publish\<close> may do.\<close>

definition announcing :: "server \<Rightarrow> 'w publisher \<Rightarrow> 'w publisher" where
  "announcing v s =
     (if update_url s then s\<lparr>trail := trail s @ [Url (s_url v)], update_url := False\<rparr> else s)"

definition published ::
  "build \<Rightarrow> 'w ffmpeg \<Rightarrow> image \<Rightarrow> srv_event list list \<Rightarrow> 'w publisher \<Rightarrow> 'w publisher \<Rightarrow> bool" where
  "published b ff img mw s t \<longleftrightarrow>
     (case p_server s of
        None \<Rightarrow> t = s
      | Some v \<Rightarrow>
          (let s1 = announcing v s in
           if p_failed s then t = s
           else if \<not> hasActiveStreams v
           then t = (if p_encoder s = None then s1
                     else s1\<lparr>p_encoder := None, trail := trail s1 @ [Url (s_url v)]\<rparr>)
           else transmitted b ff img mw s1 t \<or>
                (\<exists>w l. t = s1\<lparr>p_encoder := None, p_world := w, p_level := l, p_failed := True\<rparr>)))"

lemma wp_publish:
  assumes ok: "names_ok ff" and inv: "pub_inv b ff s"
  shows "wp (publish b ff img mw) (\<lambda>_. published b ff img mw s) (\<lambda>f _. \<forall>x. f \<noteq> Throw x) s"
    (is "wp _ ?Q ?E s")
proof (cases "p_server s = None \<or> p_failed s")
  case True
  then have "?Q () s" by (auto simp: published_def split: option.split)
  with True show ?thesis by (simp add: publish_def wp_handle wp_bnd wp_gets wp_whenb)
next
  case False
  then obtain v where v: "p_server s = Some v" and nf: "\<not> p_failed s" by auto
  let ?s = "announcing v s"
  have s1: "p_server ?s = Some v" "p_encoder ?s = p_encoder s" "p_config ?s = p_config s"
    using v by (simp_all add: announcing_def)
  let ?off = "\<lambda>t. t\<lparr>p_encoder := None, p_failed := True\<rparr>"
  let ?body = "if \<not> hasActiveStreams v then stop_encoding else encode_image b ff img mw"
  have go: "wp (publish b ff img mw) Q E s =
      wp ?body Q (\<lambda>f t. case f of Throw x \<Rightarrow> Q () (?off t) | _ \<Rightarrow> E f t) ?s" for Q E
    unfolding publish_def wp_handle wp_bnd wp_gets wp_whenb wp_thn wp_upd announce_def wp_deref
    using v nf by (auto simp: announcing_def wp_upd)
  show ?thesis
  proof (cases "hasActiveStreams v")
    case False
    with v nf s1 have "?Q () (if p_encoder s = None then ?s else ?s\<lparr>p_encoder := None, trail := trail ?s @ [Url (s_url v)]\<rparr>)"
      by (simp add: published_def Let_def)
    with False s1 show ?thesis
      unfolding go by (auto simp: stop_encoding_def announce_def wp_rules)
  next
    case True
    have e: "enc_fit ff (p_codec (p_config ?s)) e" if "p_encoder ?s = Some e" for e
      using inv that s1 by (simp add: pub_inv_def)
    have fail: "?Q () (?off t)" if t: "encoder_only ?s t" for t
    proof -
      from t obtain e w l where "t = ?s\<lparr>p_encoder := e, p_world := w, p_level := l\<rparr>"
        by (auto simp: encoder_only_def)
      then have "?off t = ?s\<lparr>p_encoder := None, p_world := w, p_level := l, p_failed := True\<rparr>" by simp
      then show ?thesis using v nf True by (auto simp: published_def Let_def)
    qed
    show ?thesis
      unfolding go using True
      by simp (rule wp_mono [OF wp_encode_image [OF ok s1(1) e]],
        use v nf True fail in \<open>auto simp: published_def Let_def split: fault.split\<close>)
  qed
qed

lemma transmitted_inv:
  assumes "pub_inv b ff s" and "transmitted b ff img mw s t" and "\<not> p_failed s" "\<not> update_url s"
  shows "pub_inv b ff t"
proof -
  from assms(2) obtain fs e w l v where fs: "enc_fit ff (p_codec (p_config s)) e" "p_server s = Some v"
    "t = s\<lparr>p_encoder := Some e, p_world := w, p_level := l,
       p_server := Some (if fs = [] then v else relay b mw fs v), trail := trail s @ map Frame fs\<rparr>"
    by (auto simp: transmitted_def)
  then have "srv_fit b (p_codec (p_config s)) (use_ip_multicast (p_config s)) v" "announced (trail s) = Some (s_url v)"
    using assms(1,4) by (auto simp: pub_inv_def)
  moreover from this have "srv_fit b (p_codec (p_config s)) (use_ip_multicast (p_config s)) (relay b mw fs v)" "s_url (relay b mw fs v) = s_url v"
    using relay_fit [of b _ _ v mw fs] by (auto simp: same_session_def)
  ultimately show ?thesis using fs assms(3) by (simp add: pub_inv_def)
qed

lemma announcing_inv:
  "pub_inv b ff s \<Longrightarrow> p_server s = Some v \<Longrightarrow> pub_inv b ff (announcing v s) \<and> \<not> update_url (announcing v s)"
  by (simp add: pub_inv_def announcing_def)

lemma published_inv:
  assumes inv: "pub_inv b ff s" and p: "published b ff img mw s t"
  shows "pub_inv b ff t"
proof (cases "p_server s")
  case None
  with p inv show ?thesis by (simp add: published_def)
next
  case (Some v)
  note s1 = announcing_inv [OF inv Some]
  have same: "p_failed (announcing v s) = p_failed s" "p_server (announcing v s) = Some v"
    using Some by (simp_all add: announcing_def)
  consider "t = s" | "t = announcing v s" | "t = (announcing v s)\<lparr>p_encoder := None, trail := trail (announcing v s) @ [Url (s_url v)]\<rparr>"
    | "\<not> p_failed s" "transmitted b ff img mw (announcing v s) t"
    | w l where "t = (announcing v s)\<lparr>p_encoder := None, p_world := w, p_level := l, p_failed := True\<rparr>"
    using p Some by (auto simp: published_def Let_def split: if_splits)
  then show ?thesis
  proof cases
    case 4
    with transmitted_inv s1 same show ?thesis by metis
  next
    case 3
    with s1 same show ?thesis by (simp add: pub_inv_def)
  next
    case 5
    with s1 same show ?thesis by (simp add: pub_inv_def)
  qed (use inv s1 in simp_all)
qed

end
