(* ===== verification/Publisher_Facts.thy ===== *)
theory Publisher_Facts
  imports Publisher_Run
begin

text \<open>
  The properties of the publisher (theory \<open>Publisher_Plugin\<close>), with the lemmas of theory
  \<open>Publisher_Run\<close> put together for every event.
\<close>

section \<open>The invariant in every reachable state\<close>

definition sized :: "'w publisher \<Rightarrow> bool" where
  "sized s \<longleftrightarrow> (\<forall>v. p_server s = Some v \<longrightarrow>
     534 \<le> unat (udp_packet_size v) \<and> unat (udp_packet_size v) \<le> 8958)"

lemma packet_size_fits:
  assumes "pub_setupParameters params"
  shows "534 \<le> unat (p_packet_size (read_config params) - 42) \<and> unat (p_packet_size (read_config params) - 42) \<le> 8958"
proof -
  let ?n = "nat (par_packet_size params)"
  have n: "576 \<le> ?n" "?n \<le> 9000" and w: "p_packet_size (read_config params) = of_nat ?n"
    using assms by (auto simp: pub_setupParameters_def read_config_def)
  have "p_packet_size (read_config params) - 42 = of_nat (?n - 42)"
    unfolding w using n by (simp add: of_nat_diff)
  moreover have "unat (of_nat (?n - 42) :: 32 word) = ?n - 42"
    using n by (subst unat_of_nat) simp
  ultimately have "unat (p_packet_size (read_config params) - 42) = ?n - 42" by (simp only:)
  with n show ?thesis by linarith
qed

lemma applied_sized:
  assumes "sized s" and "applied b env s (read_config params) t" and "pub_setupParameters params"
    and "\<not> stuck s (read_config params)"
  shows "sized t"
proof (cases "p_node s \<and> needs_session s (read_config params)")
  case True
  let ?new = "read_config params"
  have "534 \<le> unat (new_size s ?new) \<and> unat (new_size s ?new) \<le> 8958"
    using packet_size_fits [OF assms(3)] assms(1,4) True
    by (cases "p_server s") (auto simp: new_size_def sized_def stuck_def needs_server_def)
  with assms(2) True show ?thesis
    by (auto simp: applied_def Let_def restarted_def switched_off_def sized_def)
next
  case False
  with assms(1,2) show ?thesis by (auto simp: applied_def Let_def sized_def split: if_splits)
qed

lemma published_sized:
  assumes "pub_inv b ff s" "sized s" and "published b ff img mw s t"
  shows "sized t"
proof (cases "p_server s")
  case None
  with assms show ?thesis by (simp add: published_def)
next
  case (Some v)
  have v: "srv_fit b (p_codec (p_config s)) (use_ip_multicast (p_config s)) v"
    using assms(1) Some by (simp add: pub_inv_def)
  have "udp_packet_size (relay b mw fs v) = udp_packet_size v" for fs
    using relay_fit [OF v, of mw fs] by (simp add: same_session_def)
  with assms(2,3) Some show ?thesis
    by (auto simp: published_def Let_def transmitted_def announcing_def sized_def split: if_splits)
qed

definition good :: "build \<Rightarrow> 'w ffmpeg \<Rightarrow> 'w publisher \<Rightarrow> bool" where
  "good b ff s \<longleftrightarrow> names_ok ff \<and> pub_inv b ff s \<and> sized s"

lemma wp_advertise:
  assumes "pub_inv b ff s"
  shows "wp (advertiseImpl b bound port_text env (Inr ()) (Inr params))
    (\<lambda>_ t. applied b env (s\<lparr>graph_monitor := True\<rparr>) (read_config params) t)
    (\<lambda>f t. f = NullDeref \<and> stuck s (read_config params)) s"
proof -
  let ?s = "s\<lparr>graph_monitor := True\<rparr>"
  have "pub_inv b ff ?s" using assms by (simp add: pub_inv_def)
  from wp_pub_updateParameters [OF this] show ?thesis
    unfolding advertiseImpl_def wp_thn wp_upd wp_lift_op sum.case
    by (rule wp_mono) (auto simp: stuck_def needs_session_def needs_server_def)
qed

lemma stuck_fails:
  assumes "stuck s (read_config params)"
  shows "fst (pub_updateParameters b bound port_text env (Inr params) s) = Inl NullDeref"
proof -
  have "wp (pub_updateParameters b bound port_text env (Inr params)) (\<lambda>_ _. False) (\<lambda>f t. f = NullDeref) s"
    unfolding pub_updateParameters_Inr apply_params_def Let_def wp_bnd wp_gets wp_whenb wp_thn wp_handle wp_upd
      apply_changes_def change_levels wp_on_server
    using assms by (simp add: stuck_def)
  then show ?thesis by (auto simp: wp_def split: prod.splits sum.splits)
qed

lemma live_good:
  assumes "pub_inv b ff s" "sized s"
  shows "pub_inv b ff (live_call b e s) \<and> sized (live_call b e s)"
proof (cases "p_server s")
  case None
  with assms show ?thesis by (simp add: live_call_def)
next
  case (Some v)
  then have "srv_fit b (p_codec (p_config s)) (use_ip_multicast (p_config s)) v"
    using assms(1) by (simp add: pub_inv_def)
  note serve_fit [OF this, of e]
  with assms Some show ?thesis
    by (simp add: live_call_eq pub_inv_def sized_def same_session_def)
qed

interpretation publisher_machine: partial_machine "pub_op b ff" allowed_event "good b ff"
  for b ff
proof
  fix s e t
  assume good: "good b ff s" and ok: "allowed_event e" and go: "pub_op b ff e s = (Inr (), t)"
  then have inv: "pub_inv b ff s" "sized s" "names_ok ff" by (simp_all add: good_def)
  show "good b ff t"
  proof (cases e)
    case (Advertise bound port_text env params)
    let ?s = "s\<lparr>graph_monitor := True\<rparr>"
    have s: "pub_inv b ff ?s" "sized ?s" using inv by (simp_all add: pub_inv_def sized_def)
    have go': "pub_updateParameters b bound port_text env (Inr params) ?s = (Inr (), t)"
      using go Advertise by (simp add: pub_op_def advertiseImpl_Inr)
    with stuck_fails [of ?s params b bound port_text env] have "\<not> stuck ?s (read_config params)" by auto
    moreover have "applied b env ?s (read_config params) t"
      using wp_result [OF wp_pub_updateParameters [OF s(1)] go'] .
    ultimately show ?thesis
      using applied_inv [OF s(1)] applied_sized [OF s(2)] ok Advertise inv
      by (auto simp: good_def allowed_event_def)
  next
    case (PubParameters bound port_text env params)
    then have go': "pub_updateParameters b bound port_text env (Inr params) s = (Inr (), t)"
      using go by (simp add: pub_op_def)
    with stuck_fails [of s params b bound port_text env] have "\<not> stuck s (read_config params)" by auto
    moreover have "applied b env s (read_config params) t"
      using wp_result [OF wp_pub_updateParameters [OF inv(1)] go'] .
    ultimately show ?thesis
      using applied_inv [OF inv(1)] applied_sized [OF inv(2)] ok PubParameters inv
      by (auto simp: good_def allowed_event_def)
  next
    case (Publish img mw)
    then have "published b ff img mw s t"
      using wp_result [OF wp_publish [OF inv(3,1)]] go by (simp add: pub_op_def)
    then show ?thesis using published_inv published_sized inv by (auto simp: good_def)
  next
    case (Live e)
    then show ?thesis using go live_good [OF inv(1,2)] inv by (auto simp: pub_op_def upd_def good_def)
  next
    case (GraphChange n)
    then show ?thesis using go inv by (auto simp: pub_op_def upd_def good_def onGraphChange_def pub_inv_def sized_def split: if_splits)
  next
    case PubNodeGone
    then show ?thesis using go inv by (auto simp: pub_op_def upd_def good_def pub_inv_def sized_def)
  next
    case PubShutdown
    then show ?thesis using go inv by (auto simp: pub_op_def upd_def good_def pub_shutdown_def pub_inv_def sized_def)
  qed (use go inv in \<open>auto simp: unread_op good_def pub_inv_def sized_def split: if_splits\<close>)
qed

lemma reachable_good: "reachable_publisher b ff s \<Longrightarrow> good b ff s"
proof -
  assume "reachable_publisher b ff s"
  then obtain w level where ok: "names_ok ff" and r: "runs (pub_op b ff) allowed_event (new_publisher w level) s"
    by (auto simp: reachable_publisher_def)
  have "good b ff (new_publisher w level)"
    using ok by (simp add: good_def pub_inv_def sized_def new_publisher_def)
  with publisher_machine.runs_inv [OF r] show ?thesis .
qed

section \<open>Server, encoder and parameters agree\<close>

text \<open>
  C26: the parts fit together. In every reachable state of the publisher its server serves exactly
  one session, for the codec of the parameters, which the build supports; unless a new URL is
  still to be announced, the last URL on the topic is that of the session; an encoder exists
  only beside a server and never after a failure, and it encodes for the same codec.
\<close>

theorem publisher_agreement:
  assumes "reachable_publisher b ff s"
  shows "(\<forall>v. p_server s = Some v \<longrightarrow>
      s_codec v = p_codec (p_config s) \<and> isSupported b (s_codec v) \<and> (\<exists>k. sessions v = [k]) \<and>
      (\<not> update_url s \<longrightarrow> announced (trail s) = Some (s_url v))) \<and>
    (\<forall>e. p_encoder s = Some e \<longrightarrow>
      \<not> p_failed s \<and> ctx e \<noteq> None \<and> (\<exists>v. p_server s = Some v \<and> e_codec e = s_codec v))"
proof -
  have inv: "pub_inv b ff s" using reachable_good [OF assms] by (simp add: good_def)
  have one: "\<exists>k. sessions v = [k]" if "srv_fit b c mc v" for c mc v
    using that by (auto simp: srv_fit_def srv_inv_def session_ok_def cast_ok_def split: if_splits)
  have "srv_fit b (p_codec (p_config s)) (use_ip_multicast (p_config s)) v"
    if "p_server s = Some v" for v using inv that by (simp add: pub_inv_def)
  moreover have "announced (trail s) = Some (s_url v)" if "p_server s = Some v" "\<not> update_url s" for v
    using inv that by (simp add: pub_inv_def)
  moreover have "\<not> p_failed s \<and> p_server s \<noteq> None \<and> enc_inv ff e \<and> e_codec e = p_codec (p_config s)"
    if "p_encoder s = Some e" for e using inv that by (simp add: pub_inv_def enc_fit_def)
  ultimately show ?thesis
    using one by (fastforce simp: srv_fit_def enc_inv_def)
qed

section \<open>From an image to the clients\<close>

lemma sendFrames_queues:
  assumes "srv_inv b v"
  shows "streams (fold sendFrame fs v) = streams v \<and>
    (\<forall>p \<in> snd ` set (streams v). frame_queue (injectors (fold sendFrame fs v) p) = frame_queue (injectors v p) @ fs)"
  using assms
proof (induction fs arbitrary: v)
  case (Cons f fs)
  have "fresh_streams v" using Cons.prems by (simp add: srv_inv_def)
  then have "distinct (map snd (streams v))" and "\<forall>p \<in> snd ` set (streams v). \<not> is_shutdown (injectors v p)"
    by (auto simp: fresh_streams_def)
  then have "\<forall>p \<in> snd ` set (streams v). frame_queue (injectors (sendFrame f v) p) = frame_queue (injectors v p) @ [f]"
    by (simp add: sendFrame_def injectors_on_each injectFrame_def)
  moreover have "streams (sendFrame f v) = streams v" by (simp add: sendFrame_def)
  ultimately show ?case using Cons.IH [OF sendFrame_inv [OF Cons.prems, of f]] by simp
qed simp

lemma transmitted_undisturbed:
  assumes "transmitted b ff img [] s t" and "p_server s = Some v"
  shows "\<exists>fs. stamped (padding ff) (i_stamp img) fs \<and> encoded ff img s fs \<and> p_server t = Some (fold sendFrame fs v) \<and>
    trail t = trail s @ map Frame fs \<and> update_url t = update_url s \<and> p_failed t = p_failed s"
proof -
  have none: "(if fs = [] then v else relay b [] fs v) = fold sendFrame fs v" for fs
    by (simp add: relay_undisturbed)
  from assms obtain fs e w l where "stamped (padding ff) (i_stamp img) fs" "encoded ff img s fs"
    "t = s\<lparr>p_encoder := Some e, p_world := w, p_level := l,
       p_server := Some (if fs = [] then v else relay b [] fs v), trail := trail s @ map Frame fs\<rparr>"
    unfolding transmitted_def by auto
  then show ?thesis unfolding none by (intro exI [of _ fs]) simp
qed

lemma publish_queues:
  assumes "reachable_publisher b ff s" and "p_server s = Some v" "\<not> p_failed s" "hasActiveStreams v"
    and "publish b ff img [] s = (Inr (), t)"
  shows "\<exists>fs. trail t = trail s @ (if update_url s then [Url (s_url v)] else []) @ map Frame fs \<and>
    \<not> update_url t \<and> (\<forall>f \<in> set fs. frame_ok (padding ff) f \<and> fstamp f = i_stamp img) \<and>
    (\<exists>v'. p_server t = Some v' \<and> streams v' = streams v \<and>
      (\<forall>p \<in> snd ` set (streams v). frame_queue (injectors v' p) = frame_queue (injectors v p) @ fs)) \<and>
    (if p_failed t then fs = [] \<and> p_encoder t = None else encoded ff img (announcing v s) fs)"
proof -
  have inv: "pub_inv b ff s" "names_ok ff" using reachable_good [OF assms(1)] by (simp_all add: good_def)
  then have v: "srv_inv b v" using assms(2) by (simp add: pub_inv_def srv_fit_def)
  have s1: "trail (announcing v s) = trail s @ (if update_url s then [Url (s_url v)] else [])"
    "\<not> update_url (announcing v s)" "p_failed (announcing v s) = p_failed s" "p_server (announcing v s) = Some v"
    using assms(2) by (simp_all add: announcing_def)
  have "published b ff img [] s t" using wp_result [OF wp_publish [OF inv(2,1)] assms(5)] .
  then consider "transmitted b ff img [] (announcing v s) t"
    | w l where "t = (announcing v s)\<lparr>p_encoder := None, p_world := w, p_level := l, p_failed := True\<rparr>"
    using assms(2-4) by (auto simp: published_def Let_def)
  then show ?thesis
  proof cases
    case 1
    from transmitted_undisturbed [OF 1 s1(4)] obtain fs where
      "stamped (padding ff) (i_stamp img) fs" "encoded ff img (announcing v s) fs" "p_server t = Some (fold sendFrame fs v)"
      "trail t = trail (announcing v s) @ map Frame fs" "update_url t = update_url (announcing v s)"
      "p_failed t = p_failed (announcing v s)" by blast
    with sendFrames_queues [OF v, of fs] s1 assms(3) show ?thesis
      by (intro exI [of _ fs]) (auto dest: stamped_frames)
  next
    case 2
    with s1 show ?thesis by (intro exI [of _ "[]"]) simp
  qed
qed

text \<open>
  C5: from an image to the clients. When somebody receives the stream, publishing an image first
  announces a URL that is new, and then appends exactly the frames that the encoder makes of
  the image, with its time stamp, to the queue of every client, in order and without loss; all
  of it happens unless encoding fails, and then nothing more is sent.
\<close>

theorem publish_reaches_clients:
  assumes "reachable_publisher b ff s" and "p_server s = Some v" "\<not> p_failed s" "hasActiveStreams v"
    and "publish b ff img [] s = (Inr (), t)"
  shows "\<exists>fs. trail t = trail s @ (if update_url s then [Url (s_url v)] else []) @ map Frame fs \<and>
    \<not> update_url t \<and> (\<forall>f \<in> set fs. frame_ok (padding ff) f \<and> fstamp f = i_stamp img) \<and>
    (\<exists>v'. p_server t = Some v' \<and> streams v' = streams v \<and>
      (\<forall>p \<in> snd ` set (streams v). frame_queue (injectors v' p) = frame_queue (injectors v p) @ fs)) \<and>
    (if p_failed t then fs = [] \<and> p_encoder t = None else encoded ff img (announcing v s) fs)"
  by (rule publish_queues [OF assms])

section \<open>Errors\<close>

text \<open>
  C34: an exception escapes from the publisher only where its parameters are declared or read. Whatever
  the publisher is asked to do in a reachable state, it lets no exception out but, unchanged, one that
  declaring the parameters or reading them threw, which happens outside of the \<^verbatim>\<open>try\<close> block (and of which
  only the registration with the graph monitor is left). When changing parameters that were read
  ends in undefined behaviour, then through the null pointer that stands for the server after a
  failure. Publishing can fail to return only while somebody receives the stream, and then in
  undefined behaviour or a loop that does not end; everything else returns. (What ROS may throw
  when publishers, timers or callback groups are created is not modelled.)
\<close>

theorem publisher_never_throws:
  assumes "reachable_publisher b ff s" and "pub_op b ff e s = (Inl f, t)"
  shows "case e of
       Publish _ _ \<Rightarrow> (\<forall>x. f \<noteq> Throw x) \<and> (\<exists>v. p_server s = Some v \<and> hasActiveStreams v \<and> \<not> p_failed s)
     | PubParameters _ _ _ _ \<Rightarrow> f = NullDeref \<and> p_server s = None \<and> p_failed s
     | Advertise _ _ _ _ \<Rightarrow> f = NullDeref \<and> p_server s = None \<and> p_failed s
     | UnreadablePubParameters _ _ _ x \<Rightarrow> f = Throw x \<and> t = s
     | UndeclaredAdvertise _ _ _ x \<Rightarrow> f = Throw x \<and> t = s\<lparr>graph_monitor := True\<rparr>
     | UnreadableAdvertise _ _ _ x \<Rightarrow> f = Throw x \<and> t = s\<lparr>graph_monitor := True\<rparr>
     | _ \<Rightarrow> False"
proof -
  have inv: "pub_inv b ff s" "names_ok ff" using reachable_good [OF assms(1)] by (simp_all add: good_def)
  show ?thesis
  proof (cases e)
    case (Advertise bound port_text env params)
    then have "advertiseImpl b bound port_text env (Inr ()) (Inr params) s = (Inl f, t)" using assms(2) by (simp add: pub_op_def)
    with wp_fault [OF wp_advertise [OF inv(1)] this] Advertise show ?thesis by (simp add: stuck_def)
  next
    case (PubParameters bound port_text env params)
    then have "pub_updateParameters b bound port_text env (Inr params) s = (Inl f, t)" using assms(2) by (simp add: pub_op_def)
    with wp_fault [OF wp_pub_updateParameters [OF inv(1)] this] PubParameters show ?thesis by (simp add: stuck_def)
  next
    case (Publish img mw)
    have go: "publish b ff img mw s = (Inl f, t)" using assms(2) Publish by (simp add: pub_op_def)
    have "\<exists>v. p_server s = Some v \<and> hasActiveStreams v \<and> \<not> p_failed s"
    proof (rule ccontr)
      assume "\<not> ?thesis"
      then have "p_server s = None \<or> p_failed s \<or> \<not> hasActiveStreams (the (p_server s))" by auto
      then have "\<exists>t. publish b ff img mw s = (Inr (), t)"
        by (auto simp: publish_def stop_encoding_def announce_def op_defs split: option.split)
      with go show False by simp
    qed
    with wp_fault [OF wp_publish [OF inv(2,1)] go] Publish show ?thesis by simp
  next
    case Live
    with assms(2) show ?thesis by (simp add: pub_op_def upd_def)
  next
    case GraphChange
    with assms(2) show ?thesis by (simp add: pub_op_def upd_def)
  next
    case PubNodeGone
    with assms(2) show ?thesis by (simp add: pub_op_def upd_def)
  next
    case PubShutdown
    with assms(2) show ?thesis by (simp add: pub_op_def upd_def)
  qed (use assms(2) in \<open>simp_all add: unread_op split: if_splits\<close>)
qed

text \<open>
  A failure is fatal for the next correction. After a failure to start the session the
  server is gone; when the user then corrects the codec (or the multicast setting) and leaves
  the port alone, the handler calls \<^verbatim>\<open>stop\<close> on the null pointer.
\<close>

theorem publisher_null_server:
  assumes "p_node s" "p_failed s" "p_server s = None"
    and "p_udp_port (read_config params) = p_udp_port (p_config s)"
    and "p_codec (read_config params) \<noteq> p_codec (p_config s) \<or>
         use_ip_multicast (read_config params) \<noteq> use_ip_multicast (p_config s)"
  shows "fst (pub_updateParameters b bound port_text env (Inr params) s) = Inl NullDeref"
  by (rule stuck_fails) (use assms in \<open>auto simp: stuck_def needs_session_def needs_server_def\<close>)

section \<open>After a failure\<close>

text \<open>Silent: failed for good, with the trail \<open>T\<close>.\<close>

definition silent :: "sent_item list \<Rightarrow> 'w publisher \<Rightarrow> bool" where
  "silent T s \<longleftrightarrow> p_failed s \<and> trail s = T"

abbreviation same_pred :: "('s \<Rightarrow> bool) \<Rightarrow> fault \<Rightarrow> 's \<Rightarrow> bool" where
  "same_pred I f t \<equiv> I t"

lemma keeps_fail_same: "keeps I (same_pred I) (fail f)"
  by (simp add: keeps_def wp_rules)

lemma keeps_lift_same: "keeps I (same_pred I) (lift_op r)"
  by (simp add: keeps_def wp_rules split: sum.split)

lemma keeps_deref_same: "keeps I (same_pred I) (deref f)"
  by (simp add: keeps_def wp_rules split: option.split)

lemma keeps_handle_same:
  assumes m: "keeps I (same_pred I) m" and h: "\<And>x. keeps I (same_pred I) (h x)"
  shows "keeps I (same_pred I) (handle m h)"
  unfolding keeps_def wp_handle
proof (intro allI impI)
  fix s
  assume "I s"
  show "wp m (\<lambda>_. I) (\<lambda>f t. case f of Throw e \<Rightarrow> wp (h e) (\<lambda>_. I) (same_pred I) t | _ \<Rightarrow> I t) s"
    by (rule wp_mono [OF keepsD [of I, OF m \<open>I s\<close>]]) (use h in \<open>auto simp: keeps_def split: fault.split\<close>)
qed

lemma keeps_on_server_same: "keeps (silent T) (same_pred (silent T)) (on_server m)"
  by (simp add: keeps_def on_server_def bnd_def deref_def wp_def silent_def split: option.split prod.split sum.split)

lemma silent_update: "keeps (silent T) (same_pred (silent T)) (pub_updateParameters b bound port_text env (Inr params))"
  unfolding pub_updateParameters_Inr apply_params_def apply_changes_def make_server_def Let_def
  by (intro keeps_rules keeps_handle_same keeps_on_server_same keeps_lift_same keeps_upd)
    (simp_all add: silent_def)

lemma silent_publish: "p_failed s \<Longrightarrow> publish b ff img mw s = (Inr (), s)"
  by (simp add: publish_def op_defs)

lemma silent_step:
  assumes "silent T s"
  shows "silent T (pub_step b ff s e)"
proof -
  have update: "silent T (snd (pub_updateParameters b bound port_text env (Inr params) u))" if "silent T u"
    for bound port_text env params u
    by (rule wp_state [OF keepsD [of "silent T", OF silent_update that]])
  show ?thesis
  proof (cases e)
    case (Advertise bound port_text env params)
    have "silent T (s\<lparr>graph_monitor := True\<rparr>)" using assms by (simp add: silent_def)
    from update [OF this] Advertise show ?thesis by (simp add: pub_step_def pub_op_def advertiseImpl_Inr)
  next
    case (PubParameters bound port_text env params)
    then show ?thesis using update [OF assms] by (simp add: pub_step_def pub_op_def)
  next
    case (Publish img mw)
    moreover have "publish b ff img mw s = (Inr (), s)" using assms by (intro silent_publish) (simp add: silent_def)
    ultimately show ?thesis using assms by (simp add: pub_step_def pub_op_def)
  next
    case Live
    with assms show ?thesis by (simp add: pub_step_def pub_op_def upd_def silent_def live_call_def split: option.split)
  next
    case GraphChange
    with assms show ?thesis by (simp add: pub_step_def pub_op_def upd_def silent_def onGraphChange_def)
  next
    case PubNodeGone
    with assms show ?thesis by (simp add: pub_step_def pub_op_def upd_def silent_def)
  next
    case PubShutdown
    with assms show ?thesis by (simp add: pub_step_def pub_op_def upd_def silent_def pub_shutdown_def)
  qed (use assms in \<open>simp_all add: pub_step_def unread_op silent_def\<close>)
qed

text \<open>
  A failure is final. Once the publisher has failed it never announces a URL and never sends a
  frame again, whatever happens and whatever the parameters are changed to.
\<close>

theorem publisher_failure_final:
  assumes "p_failed s"
  shows "p_failed (foldl (pub_step b ff) s es) \<and> trail (foldl (pub_step b ff) s es) = trail s"
proof -
  have "silent (trail s) (foldl (pub_step b ff) t es)" if "silent (trail s) t" for t
    using that by (induction es arbitrary: t) (simp_all add: silent_step)
  with assms show ?thesis by (simp add: silent_def)
qed

text \<open>
  The packet size is read once. A change of the parameter \<^verbatim>\<open>udp_packet_size\<close> alone has no
  effect on a running server or encoder: the server keeps the size that it was created with.
\<close>

theorem publisher_packet_size_ignored:
  assumes "p_node s" "p_server s = Some v"
    and "p_config s = read_config old" "params = old\<lparr>par_packet_size := n\<rparr>"
  shows "pub_updateParameters b bound port_text env (Inr params) s = (Inr (), s\<lparr>p_config := read_config params\<rparr>)"
proof -
  have "\<not> needs_encoder s (read_config params)"
    using assms by (simp add: needs_encoder_def needs_session_def needs_server_def read_config_def)
  then have "change_level s (read_config params) < LVL_CODEC"
    using change_levels(4) [of s "read_config params"] by simp
  then have "change_level s (read_config params) < LVL_SESSION" "change_level s (read_config params) < LVL_SERVER"
    "change_level s (read_config params) < LVL_CODEC"
    by (simp_all add: LVL_CODEC_def LVL_SESSION_def LVL_SERVER_def)
  with assms(1) show ?thesis
    by (simp add: pub_updateParameters_Inr apply_params_def apply_changes_def Let_def op_defs)
qed

text \<open>
  Packet sizes stay in range. With parameters in the declared ranges no subtraction of header
  sizes wraps around: every server has room for 534 to 8958 bytes in a packet, and the
  encoder is asked for slices of 510 to 8934 bytes.
\<close>

theorem publisher_packet_sizes:
  assumes "reachable_publisher b ff s" and "p_server s = Some v"
  shows "534 \<le> unat (maxPacketSize v) \<and> unat (maxPacketSize v) \<le> 8958 \<and>
    510 \<le> unat (maxPacketSize v - 24) \<and> unat (maxPacketSize v - 24) \<le> 8934"
proof -
  have m: "534 \<le> unat (udp_packet_size v)" "unat (udp_packet_size v) \<le> 8958"
    using reachable_good [OF assms(1)] assms(2) by (simp_all add: good_def sized_def)
  then have "unat (udp_packet_size v - 24) = unat (udp_packet_size v) - 24"
    by (subst unat_sub) (simp_all add: word_le_nat_alt)
  with m show ?thesis unfolding maxPacketSize_def by linarith
qed

text \<open>
  Multicast is always on. While the publisher has a multicast server, that server has an
  active stream, so that, as the comment in the code says, the publisher never stops
  encoding for lack of clients.
\<close>

theorem publisher_multicast_active:
  assumes "reachable_publisher b ff s" and "p_server s = Some v" and "use_ip_multicast (p_config s)"
  shows "hasActiveStreams v"
  using reachable_good [OF assms(1)] assms(2,3)
  by (simp add: good_def pub_inv_def srv_fit_def cast_ok_def hasActiveStreams_def)

text \<open>
  C39: the sending loop. It always ends, and it does what handing the waiting packets to the server
  one after the other does, whatever live555 calls in between; nothing waits afterwards.
\<close>

theorem send_loop_reference:
  assumes "p_encoder s = Some e" and "p_server s = Some v"
  shows "send_loop b meanwhile s = Some (Inr (), s\<lparr>p_encoder := Some (e\<lparr>packets := []\<rparr>),
    p_server := Some (relay b meanwhile (packets e) v), trail := trail s @ map Frame (packets e)\<rparr>)"
  by (rule send_loop_eq [OF assms])

section \<open>The publisher as a machine with four modes\<close>

datatype mode = Off | Idle | Encoding | Broken

definition mode_of :: "'w publisher \<Rightarrow> mode" where
  "mode_of s =
     (if p_failed s then Broken
      else if p_server s = None then Off
      else if p_encoder s = None then Idle else Encoding)"

datatype cause = Configured | Image bool | Nobody | Closed | Other


inductive mode_step :: "mode \<Rightarrow> cause \<Rightarrow> mode \<Rightarrow> bool" where
  stays_broken: "mode_step Broken c Broken"
| opens: "mode_step Off Configured Idle"
| restarts: "m \<noteq> Off \<Longrightarrow> m \<noteq> Broken \<Longrightarrow> mode_step m Configured Idle"
| unchanged: "mode_step m Configured m"
| breaks: "mode_step m Configured Broken"
| ignores: "mode_step Off c Off"
| encodes: "m = Idle \<or> m = Encoding \<Longrightarrow> mode_step m (Image True) Encoding"
| cannot_encode: "m = Idle \<or> m = Encoding \<Longrightarrow> mode_step m (Image True) Broken"
| rests: "m = Idle \<or> m = Encoding \<Longrightarrow> mode_step m (Image False) Idle"
| left: "m = Idle \<or> m = Encoding \<Longrightarrow> mode_step m Nobody Idle"
| closes: "m \<noteq> Broken \<Longrightarrow> mode_step m Closed Off"
| goes_on: "mode_step m Other m"

inductive_cases mode_stepE: "mode_step m c m'"

lemma mode_changes:
  "mode_step Broken c m \<Longrightarrow> m = Broken"
  "mode_step m c Encoding \<Longrightarrow> m = Encoding \<or> m = Idle \<and> c = Image True"
  "mode_step Off c m \<Longrightarrow> c \<noteq> Configured \<Longrightarrow> m = Off"
  by (auto elim: mode_stepE)

lemma mode_of_simps [simp]:
  "mode_of (s\<lparr>p_config := c\<rparr>) = mode_of s" "mode_of (s\<lparr>graph_monitor := g\<rparr>) = mode_of s"
  "mode_of (s\<lparr>p_node := n\<rparr>) = mode_of s" "mode_of (switched_off s) = Broken"
  by (simp_all add: mode_of_def switched_off_def)




section \<open>Witnesses\<close>

abbreviation soft_mp4 :: "byte list list ffmpeg" where
  "soft_mp4 \<equiv> soft_ffmpeg ''mpeg4''"

definition mp4_params :: pub_params where
  "mp4_params = pub_defaults\<lparr>par_codec := ''mpeg-4''\<rparr>"

definition advertise :: "pub_params \<Rightarrow> pub_event" where
  "advertise params = Advertise True (\<lambda>_. ''0'') plain_host params"

abbreviation pub_at :: "pub_event list \<Rightarrow> byte list list publisher" where
  "pub_at es \<equiv> foldl (pub_step full_build soft_mp4) (new_publisher [] 16) es"

definition mp4_ready :: "byte list list encoder" where
  "mp4_ready =
     \<lparr>e_codec = MPEG4, initialized = False, is_vaapi = False,
      ctx = Some \<lparr>codec_name = ''mpeg4'', log_level_offset = 8, time_base = (1, 300), gop_size = 30,
        bit_rate = 1000000, framerate = (30, 1), rc_min_rate = 0, rc_max_rate = 1000000,
        rc_buffer_size = 2000000, flag_global_header = False, flag_closed_gop = True,
        flag_low_delay = True, global_quality = 0, max_b_frames = 0, trellis = 1, width = 0, height = 0,
        pixfmt = PIX_NONE, hw_frames_ref = False, opts = []\<rparr>,
      hw_device = False, hw_frames = False, hw_frm = False, sw_frm = False, pkt = False,
      last_pixel_format = PIX_NONE, sws = None, first_ts = 0, last_pts = -1, packets = [], sent = [],
      log_level = 16, world = []\<rparr>"

definition mp4_packet :: frame_data where
  "mp4_packet = mk_frame 4 [0, 0, 0, 1, 7] 5"

definition mp4_used :: "byte list list encoder" where
  "mp4_used =
     \<lparr>e_codec = MPEG4, initialized = True, is_vaapi = False,
      ctx = Some \<lparr>codec_name = ''mpeg4'', log_level_offset = 8, time_base = (1, 300), gop_size = 30,
        bit_rate = 1000000, framerate = (30, 1), rc_min_rate = 0, rc_max_rate = 1000000,
        rc_buffer_size = 2000000, flag_global_header = False, flag_closed_gop = True,
        flag_low_delay = True, global_quality = 0, max_b_frames = 0, trellis = 1, width = 1, height = 1,
        pixfmt = PIX_YUV420P, hw_frames_ref = False, opts = []\<rparr>,
      hw_device = False, hw_frames = False, hw_frm = False, sw_frm = True, pkt = True,
      last_pixel_format = PIX_GRAY8, sws = Some (1, 1, PIX_GRAY8, PIX_YUV420P), first_ts = 5, last_pts = 0,
      packets = [mp4_packet],
      sent = [\<lparr>in_image = tiny_image 5 [7], in_sws = (1, 1, PIX_GRAY8, PIX_YUV420P), in_hw = False, in_pts = 0\<rparr>],
      log_level = 16, world = []\<rparr>"

lemma mp4_runs:
  "StreamEncoder soft_mp4 MPEG4 True (blank_encoder MPEG4 16 []) = (Inr (), mp4_ready)"
  "encodeVideo soft_mp4 (tiny_image 5 [7]) mp4_ready = (Inr 1, mp4_used)"
  by code_simp+

lemma codec_params: "codec_of_param ''mpeg-4'' = MPEG4" "codec_of_param ''av1'' = AV1" "codec_of_param ''H264'' = H264"
  by code_simp+

lemmas pub_eval = pub_step_def pub_op_def advertiseImpl_Inr pub_updateParameters_Inr apply_params_def apply_changes_def
  make_server_def change_level_def Let_def op_defs new_publisher_def pub_defaults_def pub_default_config_def
  read_config_def LVL_SERVER_def LVL_SESSION_def LVL_CODEC_def on_server_def server_ops plain_host_def
  codec_params full_build_def mp4_params_def advertise_def live_call_def callback_def

definition watched :: "byte list list publisher" where
  "watched = pub_at [advertise mp4_params, Live OpenSource]"

lemma mp4_allowed: "allowed_event (advertise mp4_params)" "allowed_event (Live e)" "allowed_event (Publish img mw)"
  by (simp_all add: allowed_event_def advertise_def mp4_params_def pub_defaults_def pub_default_config_def
      pub_setupParameters_def)

lemma reachable_stepI:
  assumes "reachable_publisher b ff s" and "allowed_event e" and "fst (pub_op b ff e s) = Inr ()"
  shows "reachable_publisher b ff (pub_step b ff s e)"
proof -
  have "pub_op b ff e s = (Inr (), pub_step b ff s e)"
    using assms(3) unfolding pub_step_def by (metis prod.collapse)
  with assms(1,2) show ?thesis unfolding reachable_publisher_def by (blast intro: runs_more)
qed

lemma new_reachable: "reachable_publisher full_build soft_mp4 (new_publisher [] 16)"
  unfolding reachable_publisher_def using soft_names_ok by (blast intro: runs_none)

lemma advertised_reachable: "reachable_publisher full_build soft_mp4 (pub_at [advertise mp4_params])"
  using reachable_stepI [OF new_reachable mp4_allowed(1)] by (simp add: pub_eval)

lemma watched_reachable: "reachable_publisher full_build soft_mp4 watched"
  using reachable_stepI [OF advertised_reachable mp4_allowed(2), of OpenSource]
  by (simp add: watched_def pub_op_def upd_def)

lemma watched_is:
  "\<exists>v. p_server watched = Some v \<and> streams v = [(3, 2)] \<and> frame_queue (injectors v 2) = [] \<and> s_url v = ''rtsp://host/''"
  "\<not> p_failed watched" "update_url watched" "trail watched = []"
  by (simp_all add: watched_def pub_eval new_injector_def)

lemmas encode_eval = publish_def announce_def encode_image_def begin_encoding_def make_encoder_def on_encoder_def
  hasActiveStreams_def maxPacketSize_def setBitrate_def setFramerate_def setPackageSizeHint_def upd_ctx_def
  mp4_runs [unfolded mp4_ready_def mp4_used_def] send_packets_def mp4_ready_def

abbreviation first_image :: "(fault + unit) \<times> byte list list publisher" where
  "first_image \<equiv> publish full_build soft_mp4 (tiny_image 5 [7]) [] watched"

lemma first_image_ok: "fst first_image = Inr ()" "\<not> p_failed (snd first_image)"
  by (simp_all add: watched_def pub_eval encode_eval send_loop_eq)

definition encoding :: "byte list list publisher" where
  "encoding = pub_step full_build soft_mp4 watched (Publish (tiny_image 5 [7]) [])"

lemma encoding_reachable: "reachable_publisher full_build soft_mp4 encoding"
  unfolding encoding_def by (rule reachable_stepI [OF watched_reachable mp4_allowed(3)])
    (simp add: pub_op_def first_image_ok)

lemma encoding_is: "p_encoder encoding \<noteq> None" "\<not> update_url encoding"
  by (simp_all add: encoding_def watched_def pub_eval encode_eval send_loop_eq)

theorem publisher_agreement_witness:
  "\<exists>v e. p_server encoding = Some v \<and> p_encoder encoding = Some e \<and> e_codec e = s_codec v \<and>
    announced (trail encoding) = Some (s_url v)"
  using publisher_agreement [OF encoding_reachable] encoding_is by fastforce

lemma first_image_trail: "trail (snd first_image) = [Url ''rtsp://host/'', Frame mp4_packet]"
  by (simp add: watched_def pub_eval encode_eval send_loop_eq mp4_used_def)

theorem publish_reaches_clients_witness:
  "\<exists>v. p_server (snd first_image) = Some v \<and> frame_queue (injectors v 2) = [mp4_packet]"
proof -
  obtain v where v: "p_server watched = Some v" "streams v = [(3, 2)]" "frame_queue (injectors v 2) = []"
    "s_url v = ''rtsp://host/''" using watched_is(1) by blast
  have active: "hasActiveStreams v" using v(2) by (simp add: hasActiveStreams_def)
  have go: "first_image = (Inr (), snd first_image)" using first_image_ok(1) by (metis prod.collapse)
  have one: "fs = [mp4_packet]" if "map Frame fs = [Frame mp4_packet]" for fs
    using that by (auto simp: map_eq_Cons_conv)
  from publish_reaches_clients [OF watched_reachable v(1) watched_is(2) active go] watched_is(3,4) v(2-4)
  show ?thesis by (auto simp: first_image_trail dest: one)
qed

text \<open>A user who asks for a codec that the build lacks, and then for another one.\<close>

definition broken :: "byte list list publisher" where
  "broken = pub_at [advertise (mp4_params\<lparr>par_codec := ''av1''\<rparr>)]"

lemma broken_is: "p_node broken" "p_failed broken" "p_server broken = None" "trail broken = []"
  "p_config broken = read_config (mp4_params\<lparr>par_codec := ''av1''\<rparr>)"
  by (simp_all add: broken_def pub_eval)

lemma broken_reachable: "reachable_publisher full_build soft_mp4 broken"
proof -
  have "allowed_event (advertise (mp4_params\<lparr>par_codec := ''av1''\<rparr>))"
    using mp4_allowed(1) by (simp add: allowed_event_def advertise_def pub_setupParameters_def)
  from reachable_stepI [OF new_reachable this] show ?thesis by (simp add: broken_def pub_eval)
qed

lemma broken_fixed: "p_codec (read_config mp4_params) = MPEG4" "p_codec (p_config broken) = AV1"
  "p_udp_port (read_config mp4_params) = p_udp_port (p_config broken)"
  by (simp_all add: broken_is(5) read_config_def mp4_params_def codec_params)

theorem publisher_null_server_witness:
  "fst (pub_updateParameters full_build True (\<lambda>_. ''0'') plain_host (Inr mp4_params) broken) = Inl NullDeref"
  by (rule publisher_null_server) (simp_all add: broken_is(1-3) broken_fixed)

theorem publisher_never_throws_witness:
  "\<exists>f t. pub_op full_build soft_mp4 (PubParameters True (\<lambda>_. ''0'') plain_host mp4_params) broken = (Inl f, t) \<and> f = NullDeref"
proof -
  let ?e = "PubParameters True (\<lambda>_. ''0'') plain_host mp4_params"
  have "stuck broken (read_config mp4_params)"
    by (simp add: stuck_def needs_session_def needs_server_def broken_is(1-3) broken_fixed)
  from stuck_fails [OF this, of full_build True "\<lambda>_. ''0''" plain_host] obtain f t where
    r: "pub_op full_build soft_mp4 ?e broken = (Inl f, t)"
    by (auto simp: pub_op_def) (metis prod.collapse)
  from publisher_never_throws [OF broken_reachable r] r show ?thesis by auto
qed

theorem publisher_failure_final_witness:
  "trail (foldl (pub_step full_build soft_mp4) broken
     [PubParameters True (\<lambda>_. ''0'') plain_host (mp4_params\<lparr>par_port := 8554\<rparr>), Live OpenSource,
      Publish (tiny_image 5 [7]) []]) = []"
  using publisher_failure_final [OF broken_is(2)] broken_is(4) by metis

theorem publisher_packet_size_ignored_witness:
  "\<exists>v t. pub_updateParameters full_build True (\<lambda>_. ''0'') plain_host (Inr (mp4_params\<lparr>par_packet_size := 9000\<rparr>))
     (pub_at [advertise mp4_params]) = (Inr (), t) \<and> p_server t = Some v \<and> maxPacketSize v = 1354"
proof -
  let ?s = "pub_at [advertise mp4_params]"
  have node: "p_node ?s" and cfg: "p_config ?s = read_config mp4_params" by (simp_all add: pub_eval)
  have "\<exists>v. p_server ?s = Some v \<and> maxPacketSize v = 1354" by (simp add: pub_eval maxPacketSize_def)
  then obtain v where v: "p_server ?s = Some v" "maxPacketSize v = 1354" by blast
  from publisher_packet_size_ignored [OF node v(1) cfg refl] v show ?thesis by simp
qed

theorem publisher_packet_sizes_witness:
  "\<exists>v. p_server watched = Some v \<and> 510 \<le> unat (maxPacketSize v - 24)"
  using publisher_packet_sizes [OF watched_reachable] watched_is(1) by blast

definition casting :: "byte list list publisher" where
  "casting = pub_at [advertise (mp4_params\<lparr>par_multicast := True\<rparr>)]"

lemma casting_is: "\<exists>v. p_server casting = Some v" "use_ip_multicast (p_config casting)"
  by (simp_all add: casting_def pub_eval start_multicast_def open_groupsocks_def alloc_source_def)

lemma casting_reachable: "reachable_publisher full_build soft_mp4 casting"
proof -
  have "allowed_event (advertise (mp4_params\<lparr>par_multicast := True\<rparr>))"
    using mp4_allowed(1) by (simp add: allowed_event_def advertise_def pub_setupParameters_def)
  from reachable_stepI [OF new_reachable this] show ?thesis
    by (simp add: casting_def pub_eval start_multicast_def open_groupsocks_def alloc_source_def)
qed

theorem publisher_multicast_active_witness:
  "\<exists>v. p_server casting = Some v \<and> hasActiveStreams v"
  using publisher_multicast_active [OF casting_reachable _ casting_is(2)] casting_is(1) by blast

theorem send_loop_reference_witness:
  "\<exists>t. send_loop full_build [[], [CloseSource 3]]
     ((new_publisher [] 16)\<lparr>p_encoder := Some mp4_used, p_server := Some serving\<rparr>) = Some (Inr (), t) \<and>
     trail t = [Frame mp4_packet]"
  using send_loop_reference [of "(new_publisher [] 16)\<lparr>p_encoder := Some mp4_used, p_server := Some serving\<rparr>"
    mp4_used serving] by (simp add: mp4_used_def new_publisher_def)


end
