(* ===== verification/Threads.thy ===== *)
theory Threads
  imports Main
begin

text \<open>
  What the models of concurrent code share: threads take turns, each turn an instance of a
  step relation, and an invariant holds in every state that some sequence of turns reaches.
\<close>

locale turns =
  fixes turn :: "'s \<Rightarrow> 's \<Rightarrow> bool" and start :: 's and good :: "'s \<Rightarrow> bool"
  assumes good_start: "good start"
    and good_turn: "good s \<Longrightarrow> turn s t \<Longrightarrow> good t"
begin

lemma good_later: "turn\<^sup>*\<^sup>* s t \<Longrightarrow> good s \<Longrightarrow> good t"
  by (induction rule: rtranclp_induct) (auto intro: good_turn)

lemma reached_good: "turn\<^sup>*\<^sup>* start s \<Longrightarrow> good s"
  using good_later good_start by blast

text \<open>What every turn from a reachable state keeps holds for ever.\<close>

lemma stays:
  assumes "turn\<^sup>*\<^sup>* start s" and "turn\<^sup>*\<^sup>* s t" and "P s"
    and "\<And>u v. good u \<Longrightarrow> P u \<Longrightarrow> turn u v \<Longrightarrow> P v"
  shows "P t"
  using assms(2)
proof (induction rule: rtranclp_induct)
  case (step u v)
  have "good u" using reached_good assms(1) step.hyps(1) by (meson rtranclp_trans)
  with assms(4) step show ?case by blast
qed (rule assms(3))

end

end
