(* ===== verification/Graph_Monitor.thy ===== *)
theory Graph_Monitor
  imports Threads
begin

text \<open>
  The monitor that tells the publishers of a process when the ROS graph changes
  (\<^verbatim>\<open>src/src/graph_monitor.h\<close>, \<^verbatim>\<open>src/src/graph_monitor.cpp\<close>): a singleton
  with a thread of its own, which is given up when the last listener has gone and made anew
  for the next one.

  Threads take turns; a turn is what happens between two accesses to shared state that other
  threads can come between. Critical sections in which nothing can interfere are one turn.
  Listeners, clients (the threads that call the class) and monitors are natural numbers; a
  monitor is known by the order of its creation, and those not created yet have ended.
\<close>

section \<open>The state\<close>

datatype loop_pc = Test | Waits | Check | Locks | Calls "nat list" | Resets | Ended

record gmon =
  lset :: "nat set"
  stopping :: bool
  event :: bool
  pc :: loop_pc

text \<open>
  Where a client is: outside, before the lock in \<open>instance\<close> or \<open>removeListener\<close>, behind
  \<^verbatim>\<open>if (instance_)\<close>, in the loop \<^verbatim>\<open>while (instance_)\<close>, or gone through a null pointer.
\<close>

datatype client_pc = Away | Asks nat | Leaves nat nat | Found nat | Spins nat | Crashed

datatype owner = Client nat | Loop nat

text \<open>\<open>called\<close> is the past: the listeners whose \<open>onGraphChange\<close> was called.\<close>

record gm_state =
  mutex :: "owner option"
  inst :: "nat option"
  mons :: "nat \<Rightarrow> gmon"
  created :: nat
  clients :: "nat \<Rightarrow> client_pc"
  called :: "nat list"

definition gm_start :: gm_state where
  "gm_start =
     \<lparr>mutex = None, inst = None, mons = (\<lambda>_. \<lparr>lset = {}, stopping = False, event = False, pc = Ended\<rparr>),
      created = 0, clients = (\<lambda>_. Away), called = []\<rparr>"

section \<open>The operations\<close>

definition on_mon :: "nat \<Rightarrow> (gmon \<Rightarrow> gmon) \<Rightarrow> gm_state \<Rightarrow> gm_state" where
  "on_mon m f s = s\<lparr>mons := (mons s)(m := f (mons s m))\<rparr>"

definition goes :: "nat \<Rightarrow> client_pc \<Rightarrow> gm_state \<Rightarrow> gm_state" where
  "goes c p s = s\<lparr>clients := (clients s)(c := p)\<rparr>"

text \<open>
  Callers always pass a listener; the tests for null pointers are left out. The insertion is
  also what \<open>addListener\<close> does, which nothing calls, under the mutex.
\<close>

definition gm_addListener :: "nat \<Rightarrow> nat \<Rightarrow> gm_state \<Rightarrow> gm_state" where
  "gm_addListener m l = on_mon m (\<lambda>x. x\<lparr>lset := insert l (lset x)\<rparr>)"

definition gm_removeListener :: "nat \<Rightarrow> nat \<Rightarrow> gm_state \<Rightarrow> gm_state" where
  "gm_removeListener m l = on_mon m (\<lambda>x.
     if l \<in> lset x
     then if lset x - {l} = {} then x\<lparr>lset := {}, stopping := True, event := True\<rparr>
          else x\<lparr>lset := lset x - {l}\<rparr>
     else x)"

definition new_monitor :: "nat \<Rightarrow> gm_state \<Rightarrow> gm_state" where
  "new_monitor l s =
     gm_addListener (created s) l
       (on_mon (created s) (\<lambda>_. \<lparr>lset = {}, stopping = False, event = False, pc = Test\<rparr>)
         (s\<lparr>inst := Some (created s), created := created s + 1\<rparr>))"

text \<open>
  The turns. The first group is ROS and the users of the class, the second the static function
  \<open>instance\<close>, the third \<open>removeListener\<close>, the last the event loop.
\<close>

inductive gm_step :: "gm_state \<Rightarrow> gm_state \<Rightarrow> bool" where
  graph_changes: "gm_step s (s\<lparr>mons := (\<lambda>m. (mons s m)\<lparr>event := True\<rparr>)\<rparr>)"
| asks: "clients s c = Away \<Longrightarrow> gm_step s (goes c (Asks l) s)"
| leaves: "clients s c = Away \<Longrightarrow> m < created s \<Longrightarrow> gm_step s (goes c (Leaves m l) s)"

| creates: "clients s c = Asks l \<Longrightarrow> mutex s = None \<Longrightarrow> inst s = None \<Longrightarrow>
    gm_step s (goes c Away (new_monitor l s))"
| enters: "clients s c = Asks l \<Longrightarrow> mutex s = None \<Longrightarrow> inst s \<noteq> None \<Longrightarrow>
    gm_step s (goes c (Found l) (s\<lparr>mutex := Some (Client c)\<rparr>))"
| crashes: "clients s c = Found l \<Longrightarrow> inst s = None \<Longrightarrow> gm_step s (goes c Crashed s)"
| reuses: "clients s c = Found l \<Longrightarrow> inst s = Some m \<Longrightarrow> \<not> stopping (mons s m) \<Longrightarrow>
    gm_step s (goes c Away (gm_addListener m l (s\<lparr>mutex := None\<rparr>)))"
| must_wait: "clients s c = Found l \<Longrightarrow> inst s = Some m \<Longrightarrow> stopping (mons s m) \<Longrightarrow>
    gm_step s (goes c (Spins l) s)"
| yields: "clients s c = Spins l \<Longrightarrow> inst s \<noteq> None \<Longrightarrow> gm_step s s"
| replaces: "clients s c = Spins l \<Longrightarrow> inst s = None \<Longrightarrow>
    gm_step s (goes c Away (new_monitor l (s\<lparr>mutex := None\<rparr>)))"

| removes: "clients s c = Leaves m l \<Longrightarrow> mutex s = None \<Longrightarrow>
    gm_step s (goes c Away (gm_removeListener m l s))"

| tests: "pc (mons s m) = Test \<Longrightarrow>
    gm_step s (on_mon m (\<lambda>x. x\<lparr>pc := if stopping x then Resets else Waits\<rparr>) s)"
| wakes: "pc (mons s m) = Waits \<Longrightarrow> gm_step s (on_mon m (\<lambda>x. x\<lparr>pc := Check\<rparr>) s)"
| checks: "pc (mons s m) = Check \<Longrightarrow>
    gm_step s (on_mon m (\<lambda>x. x\<lparr>event := False, pc := if event x \<and> \<not> stopping x then Locks else Test\<rparr>) s)"
| locks: "pc (mons s m) = Locks \<Longrightarrow> mutex s = None \<Longrightarrow>
    gm_step s (on_mon m (\<lambda>x. x\<lparr>pc := Calls (sorted_list_of_set (lset x))\<rparr>) (s\<lparr>mutex := Some (Loop m)\<rparr>))"
| calls: "pc (mons s m) = Calls (l # ls) \<Longrightarrow>
    gm_step s (on_mon m (\<lambda>x. x\<lparr>pc := Calls ls\<rparr>) (s\<lparr>called := called s @ [l]\<rparr>))"
| unlocks: "pc (mons s m) = Calls [] \<Longrightarrow>
    gm_step s (on_mon m (\<lambda>x. x\<lparr>pc := Test\<rparr>) (s\<lparr>mutex := None\<rparr>))"
| resets: "pc (mons s m) = Resets \<Longrightarrow>
    gm_step s (on_mon m (\<lambda>x. x\<lparr>pc := Ended\<rparr>) (s\<lparr>inst := None\<rparr>))"

inductive_cases gm_stepE: "gm_step s t"

definition reachable_gm :: "gm_state \<Rightarrow> bool" where
  "reachable_gm s \<longleftrightarrow> gm_step\<^sup>*\<^sup>* gm_start s"

lemma gm_frame [simp]:
  "clients (on_mon m f s) = clients s" "mutex (on_mon m f s) = mutex s" "inst (on_mon m f s) = inst s"
  "created (on_mon m f s) = created s" "called (on_mon m f s) = called s"
  "mons (on_mon m f s) = (mons s)(m := f (mons s m))"
  "mons (goes c p s) = mons s" "mutex (goes c p s) = mutex s" "inst (goes c p s) = inst s"
  "created (goes c p s) = created s" "called (goes c p s) = called s"
  "clients (goes c p s) = (clients s)(c := p)"
  by (simp_all add: on_mon_def goes_def)

lemmas gm_ops = gm_addListener_def gm_removeListener_def new_monitor_def

section \<open>The invariant\<close>

definition critical :: "client_pc \<Rightarrow> bool" where
  "critical p \<longleftrightarrow> (case p of Found _ \<Rightarrow> True | Spins _ \<Rightarrow> True | Crashed \<Rightarrow> True | _ \<Rightarrow> False)"

definition calling :: "loop_pc \<Rightarrow> bool" where
  "calling p \<longleftrightarrow> (case p of Calls _ \<Rightarrow> True | _ \<Rightarrow> False)"

text \<open>At most one monitor is alive, the instance.\<close>

definition one_alive :: "gm_state \<Rightarrow> bool" where
  "one_alive s \<longleftrightarrow> (\<forall>m. pc (mons s m) \<noteq> Ended \<longleftrightarrow> inst s = Some m) \<and> (\<forall>m. inst s = Some m \<longrightarrow> m < created s)"

text \<open>Who holds the lock.\<close>

definition locked_by :: "gm_state \<Rightarrow> bool" where
  "locked_by s \<longleftrightarrow> (\<forall>c. critical (clients s c) \<longleftrightarrow> mutex s = Some (Client c)) \<and>
     (\<forall>m. calling (pc (mons s m)) \<longleftrightarrow> mutex s = Some (Loop m))"

definition listeners_ok :: "gmon \<Rightarrow> bool" where
  "listeners_ok x \<longleftrightarrow> finite (lset x) \<and> (stopping x \<or> pc x = Ended \<longrightarrow> lset x = {}) \<and>
     (pc x = Resets \<longrightarrow> stopping x) \<and> (\<forall>ls. pc x = Calls ls \<longrightarrow> set ls \<subseteq> lset x) \<and>
     (lset x = {} \<longrightarrow> stopping x \<or> pc x = Ended)"

definition spins_ok :: "gm_state \<Rightarrow> bool" where
  "spins_ok s \<longleftrightarrow> (\<forall>c l m. clients s c = Spins l \<longrightarrow> inst s = Some m \<longrightarrow> stopping (mons s m))"

definition gm_inv :: "gm_state \<Rightarrow> bool" where
  "gm_inv s \<longleftrightarrow> one_alive s \<and> locked_by s \<and> (\<forall>m. listeners_ok (mons s m)) \<and> spins_ok s"

lemma gm_start_inv: "gm_inv gm_start"
  by (simp add: gm_inv_def gm_start_def one_alive_def locked_by_def listeners_ok_def spins_ok_def
      critical_def calling_def)

lemma step_one_alive:
  assumes "gm_step s t" and "gm_inv s"
  shows "one_alive t"
proof -
  have alive: "\<And>m. pc (mons s m) = Ended \<longleftrightarrow> inst s \<noteq> Some m" and lt: "\<And>m. inst s = Some m \<Longrightarrow> m < created s"
    using assms(2) by (auto simp: gm_inv_def one_alive_def)
  have running: "inst s = Some m" if "pc (mons s m) = p" "p \<noteq> Ended" for m p
    using alive [of m] that by simp
  from assms(1) show ?thesis
    by (cases rule: gm_step.cases)
      (auto simp: one_alive_def gm_ops alive lt less_SucI dest: running lt split: if_splits)
qed

lemma step_locked_by:
  assumes "gm_step s t" and "gm_inv s"
  shows "locked_by t"
proof -
  have c: "\<And>c. critical (clients s c) \<longleftrightarrow> mutex s = Some (Client c)"
    and m: "\<And>m. calling (pc (mons s m)) \<longleftrightarrow> mutex s = Some (Loop m)"
    using assms(2) by (auto simp: gm_inv_def locked_by_def)
  have away: "mutex s \<noteq> Some (Client d)" if "clients s d = p" "\<not> critical p" for d p
    using c [of d] that by simp
  have inside: "mutex s = Some (Client d)" if "clients s d = p" "critical p" for d p
    using c [of d] that by simp
  have quiet: "mutex s \<noteq> Some (Loop d)" if "pc (mons s d) = p" "\<not> calling p" for d p
    using m [of d] that by simp
  have loud: "mutex s = Some (Loop d)" if "pc (mons s d) = p" "calling p" for d p
    using m [of d] that by simp
  have crit: "critical (Found l)" "critical (Spins l)" "critical Crashed" "\<not> critical Away" "\<not> critical (Asks l)"
    "\<not> critical (Leaves k l)" for k l by (simp_all add: critical_def)
  have call: "calling (Calls ls)" "\<not> calling Test" "\<not> calling Waits" "\<not> calling Check" "\<not> calling Locks"
    "\<not> calling Resets" "\<not> calling Ended" for ls by (simp_all add: calling_def)
  from assms(1) show ?thesis
    by (cases rule: gm_step.cases)
      (auto simp: locked_by_def gm_ops c m crit call dest: away inside quiet loud split: if_splits)
qed

lemma step_listeners_ok:
  assumes "gm_step s t" and "gm_inv s"
  shows "listeners_ok (mons t m)"
proof -
  have ok: "\<And>m. listeners_ok (mons s m)" and alive: "\<And>m. inst s = Some m \<Longrightarrow> pc (mons s m) \<noteq> Ended"
    using assms(2) by (auto simp: gm_inv_def one_alive_def)
  have excl: "pc (mons s k) \<noteq> Calls ls" if "mutex s = None" for k ls
  proof
    assume "pc (mons s k) = Calls ls"
    then have "calling (pc (mons s k))" by (simp add: calling_def)
    with that assms(2) show False by (simp add: gm_inv_def locked_by_def)
  qed
  from assms(1) show ?thesis
  proof (cases rule: gm_step.cases)
    case (reuses c l k)
    with ok [of m] alive [of k] show ?thesis by (auto simp: gm_ops listeners_ok_def)
  next
    case (removes c k l)
    with ok [of m] excl show ?thesis by (auto simp: gm_ops listeners_ok_def)
  next
    case (checks k)
    with ok [of m] show ?thesis by (auto simp: listeners_ok_def)
  next
    case (calls k l ls)
    with ok [of m] show ?thesis by (auto simp: listeners_ok_def)
  qed (use ok [of m] in \<open>auto simp: gm_ops listeners_ok_def\<close>)
qed

text \<open>A client in the waiting loop is alone in the critical section.\<close>

lemma spins_alone:
  assumes "gm_inv s" and "clients s c = Spins l"
  shows "mutex s = Some (Client c)" "\<And>d. d \<noteq> c \<Longrightarrow> \<not> critical (clients s d)" "\<And>m. \<not> calling (pc (mons s m))"
proof -
  have "critical (clients s c)" using assms(2) by (simp add: critical_def)
  then show "mutex s = Some (Client c)" "\<And>d. d \<noteq> c \<Longrightarrow> \<not> critical (clients s d)" "\<And>m. \<not> calling (pc (mons s m))"
    using assms(1) by (auto simp: gm_inv_def locked_by_def)
qed

lemma spins_not_found:
  assumes "gm_inv s" and "clients s c = Spins l"
  shows "clients s d \<noteq> Found k"
proof
  assume d: "clients s d = Found k"
  then have "critical (clients s d)" by (simp add: critical_def)
  with spins_alone(2) [OF assms] have "d = c" by blast
  with d assms(2) show False by simp
qed

lemma step_spins_ok:
  assumes step: "gm_step s t" and inv: "gm_inv s"
  shows "spins_ok t"
  unfolding spins_ok_def
proof (intro allI impI)
  fix c l m
  assume t: "clients t c = Spins l" "inst t = Some m"
  show "stopping (mons t m)"
  proof (cases "clients s c = Spins l")
    case True
    note alone = spins_alone [OF inv True]
    have "\<forall>m. inst s = Some m \<longrightarrow> stopping (mons s m)" using inv True by (auto simp: gm_inv_def spins_ok_def)
    moreover have "\<not> critical (clients s d)" if "d \<noteq> c" for d by (rule alone(2) [OF that])
    then have "clients s d \<noteq> Found k \<and> clients s d \<noteq> Spins k" if "d \<noteq> c" for d k
      using that by (force simp: critical_def)
    ultimately show ?thesis
      using t True alone(1) step by - (erule gm_step.cases; auto simp: gm_ops split: if_splits)
  next
    case False
    with t step show ?thesis by - (erule gm_step.cases; auto simp: gm_ops split: if_splits)
  qed
qed

interpretation monitor: turns gm_step gm_start gm_inv
proof
  show "gm_inv t" if "gm_inv s" "gm_step s t" for s t
    using that step_one_alive step_locked_by step_listeners_ok step_spins_ok by (auto simp: gm_inv_def)
qed (rule gm_start_inv)

lemma reachable_gm_inv: "reachable_gm s \<Longrightarrow> gm_inv s"
  unfolding reachable_gm_def by (rule monitor.reached_good)

section \<open>Properties\<close>

text \<open>
  C31: listeners are not lost. In every reachable state at most one monitor is alive, the instance;
  the lock has at most one holder; and all registered listeners are registered with the
  instance while it is not about to stop, so that the next change of the graph reaches them.
\<close>

theorem gm_listeners_not_lost:
  assumes "reachable_gm s"
  shows "(\<forall>m. pc (mons s m) = Ended \<longleftrightarrow> inst s \<noteq> Some m) \<and>
    (\<forall>c. critical (clients s c) \<longleftrightarrow> mutex s = Some (Client c)) \<and>
    (\<forall>m l. l \<notin> lset (mons s m) \<or> inst s = Some m \<and> \<not> stopping (mons s m))"
proof -
  have inv: "gm_inv s" by (rule reachable_gm_inv [OF assms])
  have alive: "pc (mons s m) = Ended \<longleftrightarrow> inst s \<noteq> Some m" for m
    using inv by (auto simp: gm_inv_def one_alive_def)
  moreover have "lset (mons s m) = {}" if "stopping (mons s m) \<or> pc (mons s m) = Ended" for m
    using inv that by (auto simp: gm_inv_def listeners_ok_def)
  ultimately show ?thesis
    using inv by (auto simp: gm_inv_def locked_by_def)
qed

text \<open>
  Only registered listeners are called. Whenever the event loop calls a listener, the listener
  is registered at that moment and the loop holds the lock; so \<open>removeListener\<close>, which
  needs the lock, never returns while the listener is being called, and a listener that was
  removed is not called any more.
\<close>

theorem gm_calls_registered:
  assumes "reachable_gm s" and "gm_step s t" and "called t \<noteq> called s"
  shows "\<exists>l m. called t = called s @ [l] \<and> inst s = Some m \<and> l \<in> lset (mons s m) \<and> mutex s = Some (Loop m)"
proof -
  have inv: "gm_inv s" by (rule reachable_gm_inv [OF assms(1)])
  from assms(2,3) show ?thesis
  proof (cases rule: gm_step.cases)
    case (calls m l ls)
    have "calling (pc (mons s m))" using calls(2) by (simp add: calling_def)
    then have "mutex s = Some (Loop m)" using inv by (simp add: gm_inv_def locked_by_def)
    moreover have "inst s = Some m" using inv calls(2) by (force simp: gm_inv_def one_alive_def)
    moreover have "l \<in> lset (mons s m)" using inv calls(2) by (fastforce simp: gm_inv_def listeners_ok_def)
    ultimately show ?thesis using calls(1) by simp
  qed (simp_all add: gm_ops)
qed

text \<open>How far the loop of the instance is from giving it up.\<close>

definition turns_left :: "gm_state \<Rightarrow> nat" where
  "turns_left s =
     (case inst s of
        None \<Rightarrow> 0
      | Some m \<Rightarrow> (case pc (mons s m) of Waits \<Rightarrow> 4 | Check \<Rightarrow> 3 | Test \<Rightarrow> 2 | Resets \<Rightarrow> 1 | _ \<Rightarrow> 0))"

definition deadlocked :: "nat \<Rightarrow> nat \<Rightarrow> gm_state \<Rightarrow> bool" where
  "deadlocked c m s \<longleftrightarrow> (\<exists>l. clients s c = Spins l) \<and> inst s = Some m \<and> pc (mons s m) = Locks"

text \<open>
  The wait in \<open>instance\<close> ends unless the old loop wants the lock. While a client waits for the
  old instance to be given up and the loop of that instance is not before the lock, the loop
  can always take a turn that brings it closer to the end, no other turn of any thread
  takes it further away, and none makes it want the lock.
\<close>

theorem gm_wait_ends:
  assumes "reachable_gm s" and "clients s c = Spins l" and "inst s = Some m" and "pc (mons s m) \<noteq> Locks"
  shows "(\<exists>t. gm_step s t \<and> turns_left t < turns_left s \<and> clients t c = Spins l) \<and>
    (\<forall>t. gm_step s t \<longrightarrow> turns_left t \<le> turns_left s \<and> \<not> deadlocked c m t)"
proof -
  have inv: "gm_inv s" by (rule reachable_gm_inv [OF assms(1)])
  note alone = spins_alone [OF inv assms(2)]
  have stop: "stopping (mons s m)" using inv assms(2,3) by (auto simp: gm_inv_def spins_ok_def)
  have pcs: "pc (mons s m) \<in> {Waits, Check, Test, Resets}"
  proof -
    have "pc (mons s m) \<noteq> Ended" using inv assms(3) by (auto simp: gm_inv_def one_alive_def)
    moreover have "\<not> calling (pc (mons s m))" by (rule alone(3))
    ultimately show ?thesis using assms(4) by (cases "pc (mons s m)") (simp_all add: calling_def)
  qed
  have "\<exists>t. gm_step s t \<and> turns_left t < turns_left s \<and> clients t c = Spins l"
  proof (cases "pc (mons s m)")
    case Test
    show ?thesis
      by (rule exI, rule conjI, rule tests [OF Test]) (use Test assms(2,3) stop in \<open>simp add: turns_left_def\<close>)
  next
    case Waits
    show ?thesis
      by (rule exI, rule conjI, rule wakes [OF Waits]) (use Waits assms(2,3) in \<open>simp add: turns_left_def\<close>)
  next
    case Check
    show ?thesis
      by (rule exI, rule conjI, rule checks [OF Check]) (use Check assms(2,3) stop in \<open>simp add: turns_left_def\<close>)
  next
    case Resets
    show ?thesis
      by (rule exI, rule conjI, rule resets [OF Resets]) (use Resets assms(2,3) in \<open>simp add: turns_left_def\<close>)
  qed (use pcs in simp_all)
  moreover have "turns_left t \<le> turns_left s \<and> \<not> deadlocked c m t" if step: "gm_step s t" for t
  proof -
    note no = spins_not_found [OF inv assms(2)]
    have mine: "k = m" if "pc (mons s k) = p" "p \<noteq> Ended" for k p
      using inv assms(3) that by (auto simp: gm_inv_def one_alive_def)
    note simps = turns_left_def deadlocked_def assms(3) stop
    from step show ?thesis
    proof (cases rule: gm_step.cases)
      case graph_changes with assms(4) show ?thesis by (simp add: simps)
    next
      case (asks d k) with assms(4) show ?thesis by (simp add: simps)
    next
      case (leaves d k i) with assms(4) show ?thesis by (simp add: simps)
    next
      case (creates d k) with alone(1) show ?thesis by simp
    next
      case (enters d k) with alone(1) show ?thesis by simp
    next
      case (crashes d k) with assms(3) show ?thesis by simp
    next
      case (reuses d k i) with no show ?thesis by simp
    next
      case (must_wait d k i) with no show ?thesis by simp
    next
      case (yields d k) with assms(4) show ?thesis by (simp add: simps)
    next
      case (replaces d k) with assms(3) show ?thesis by simp
    next
      case (removes d k i) with alone(1) show ?thesis by simp
    next
      case (tests k)
      with mine [OF tests(2)] show ?thesis by (simp add: simps)
    next
      case (wakes k)
      with mine [OF wakes(2)] show ?thesis by (simp add: simps)
    next
      case (checks k)
      with mine [OF checks(2)] show ?thesis by (simp add: simps)
    next
      case (locks k) with alone(1) show ?thesis by simp
    next
      case (calls k i ls)
      with mine [OF calls(2)] pcs show ?thesis by simp
    next
      case (unlocks k)
      with mine [OF unlocks(2)] pcs show ?thesis by simp
    next
      case (resets k)
      then show ?thesis by (simp add: simps)
    qed
  qed
  ultimately show ?thesis by blast
qed

lemma deadlock_step:
  assumes "gm_inv s" and "deadlocked c m s" and "gm_step s t"
  shows "deadlocked c m t \<and> called t = called s \<and> (\<lambda>k. lset (mons t k)) = (\<lambda>k. lset (mons s k))"
proof -
  obtain l where l: "clients s c = Spins l" and m: "inst s = Some m" "pc (mons s m) = Locks"
    using assms(2) by (auto simp: deadlocked_def)
  note alone = spins_alone [OF assms(1) l]
  note no = spins_not_found [OF assms(1) l]
  have mine: "pc (mons s k) = Ended" if "k \<noteq> m" for k
    using assms(1) m(1) that by (auto simp: gm_inv_def one_alive_def)
  have pcs: "pc (mons s k) = Locks \<longleftrightarrow> k = m" "pc (mons s k) \<noteq> Test" "pc (mons s k) \<noteq> Waits"
    "pc (mons s k) \<noteq> Check" "pc (mons s k) \<noteq> Calls ls" "pc (mons s k) \<noteq> Resets" for k ls
    using mine [of k] m(2) by (cases "k = m"; simp)+
  from assms(3) show ?thesis
  proof (cases rule: gm_step.cases)
    case graph_changes with l m show ?thesis by (simp add: deadlocked_def)
  next
    case (asks d k) with l m show ?thesis by (auto simp: deadlocked_def)
  next
    case (leaves d k i) with l m show ?thesis by (auto simp: deadlocked_def)
  next
    case (creates d k) with alone(1) show ?thesis by simp
  next
    case (enters d k) with alone(1) show ?thesis by simp
  next
    case (crashes d k) with m show ?thesis by simp
  next
    case (reuses d k i) with no show ?thesis by simp
  next
    case (must_wait d k i) with no show ?thesis by simp
  next
    case (yields d k) with l m show ?thesis by (simp add: deadlocked_def)
  next
    case (replaces d k) with m show ?thesis by simp
  next
    case (removes d k i) with alone(1) show ?thesis by simp
  next
    case (locks k) with alone(1) show ?thesis by simp
  qed (simp_all add: pcs)
qed

text \<open>
  C32: the deadlock. Once a client waits in \<open>instance\<close>, with the lock, for an instance whose loop
  waits for that lock, nothing gets them out again: in every later state they still wait,
  and no listener is ever registered, removed or called any more.
\<close>

theorem gm_deadlock_forever:
  assumes "reachable_gm s" and "deadlocked c m s" and "gm_step\<^sup>*\<^sup>* s t"
  shows "deadlocked c m t \<and> called t = called s \<and> (\<lambda>k. lset (mons t k)) = (\<lambda>k. lset (mons s k))"
proof (rule monitor.stays [OF _ assms(3)])
  show "gm_step\<^sup>*\<^sup>* gm_start s" using assms(1) by (simp add: reachable_gm_def)
next
  fix u v
  assume "gm_inv u" and "deadlocked c m u \<and> called u = called s \<and> (\<lambda>k. lset (mons u k)) = (\<lambda>k. lset (mons s k))"
    and "gm_step u v"
  with deadlock_step [of u c m v]
  show "deadlocked c m v \<and> called v = called s \<and> (\<lambda>k. lset (mons v k)) = (\<lambda>k. lset (mons s k))" by simp
qed (simp add: assms(2))

section \<open>Witnesses\<close>

text \<open>One listener comes and goes, and the next one asks for the instance too early.\<close>

lemma gm_turn: "reachable_gm s \<Longrightarrow> gm_step s t \<Longrightarrow> reachable_gm t"
  unfolding reachable_gm_def by (rule rtranclp.rtrancl_into_rtrancl)

definition gm_one :: gm_state where
  "gm_one = goes 0 Away (new_monitor 5 (goes 0 (Asks 5) gm_start))"

lemma gm_one_reachable: "reachable_gm gm_one"
proof -
  have "reachable_gm gm_start" by (simp add: reachable_gm_def)
  from gm_turn [OF this asks [of _ 0 5]] have "reachable_gm (goes 0 (Asks 5) gm_start)"
    by (simp add: gm_start_def)
  from gm_turn [OF this creates [of _ 0 5]] show ?thesis by (simp add: gm_one_def gm_start_def goes_def)
qed

definition gm_wants :: gm_state where
  "gm_wants =
     on_mon 0 (\<lambda>x. x\<lparr>event := False, pc := if event x \<and> \<not> stopping x then Locks else Test\<rparr>)
    (on_mon 0 (\<lambda>x. x\<lparr>pc := Check\<rparr>)
    (let s = on_mon 0 (\<lambda>x. x\<lparr>pc := if stopping x then Resets else Waits\<rparr>) gm_one
     in s\<lparr>mons := (\<lambda>m. (mons s m)\<lparr>event := True\<rparr>)\<rparr>))"

lemma gm_wants_reachable: "reachable_gm gm_wants"
proof -
  let ?a = "on_mon 0 (\<lambda>x. x\<lparr>pc := if stopping x then Resets else Waits\<rparr>) gm_one"
  let ?b = "?a\<lparr>mons := (\<lambda>m. (mons ?a m)\<lparr>event := True\<rparr>)\<rparr>"
  let ?c = "on_mon 0 (\<lambda>x. x\<lparr>pc := Check\<rparr>) ?b"
  note gm = gm_one_def gm_ops gm_start_def
  have "reachable_gm ?a" by (rule gm_turn [OF gm_one_reachable tests]) (simp add: gm)
  from gm_turn [OF this graph_changes] have b: "reachable_gm ?b" .
  have "reachable_gm ?c" by (rule gm_turn [OF b wakes]) (simp add: gm)
  from gm_turn [OF this checks [of _ 0]] show ?thesis by (simp add: gm_wants_def)
qed

text \<open>The listener goes, the next one comes: from any state with nobody inside.\<close>

definition gm_exchange :: "gm_state \<Rightarrow> gm_state" where
  "gm_exchange s =
     goes 1 (Spins 6)
    (goes 1 (Found 6) ((goes 1 (Asks 6)
      (goes 0 Away (gm_removeListener 0 5 (goes 0 (Leaves 0 5) s))))\<lparr>mutex := Some (Client 1)\<rparr>))"

lemma gm_exchange_reachable:
  assumes "reachable_gm s" and "clients s = (\<lambda>_. Away)" "mutex s = None" "inst s = Some 0" "0 < created s"
    and "lset (mons s 0) = {5}"
  shows "reachable_gm (gm_exchange s)"
proof -
  let ?a = "goes 0 (Leaves 0 5) s"
  let ?b = "goes 0 Away (gm_removeListener 0 5 ?a)"
  let ?c = "goes 1 (Asks 6) ?b"
  let ?d = "goes 1 (Found 6) (?c\<lparr>mutex := Some (Client 1)\<rparr>)"
  have a: "reachable_gm ?a" by (rule gm_turn [OF assms(1) leaves]) (simp_all add: assms)
  have b: "reachable_gm ?b" by (rule gm_turn [OF a removes]) (simp_all add: assms)
  have c: "reachable_gm ?c" by (rule gm_turn [OF b asks]) (simp add: assms gm_removeListener_def)
  have d: "reachable_gm ?d" by (rule gm_turn [OF c enters]) (simp_all add: assms gm_removeListener_def)
  show ?thesis unfolding gm_exchange_def
    by (rule gm_turn [OF d must_wait [of _ 1 6 0]]) (simp_all add: assms gm_removeListener_def)
qed

lemma gm_one_is: "clients gm_one = (\<lambda>_. Away)" "mutex gm_one = None" "inst gm_one = Some 0" "0 < created gm_one"
  "lset (mons gm_one 0) = {5}" "pc (mons gm_one 0) = Test"
  by (auto simp: gm_one_def gm_ops gm_start_def)

lemma gm_wants_is: "clients gm_wants = (\<lambda>_. Away)" "mutex gm_wants = None" "inst gm_wants = Some 0" "0 < created gm_wants"
  "lset (mons gm_wants 0) = {5}" "pc (mons gm_wants 0) = Locks"
  by (auto simp: gm_wants_def gm_one_def gm_ops gm_start_def Let_def)

lemma gm_deadlocked: "deadlocked 1 0 (gm_exchange gm_wants)"
  by (simp add: deadlocked_def gm_exchange_def gm_removeListener_def gm_wants_is)

theorem gm_deadlock_forever_witness:
  "reachable_gm (gm_exchange gm_wants) \<and> deadlocked 1 0 (gm_exchange gm_wants) \<and>
    deadlocked 1 0 (goes 2 (Asks 7) (gm_exchange gm_wants))"
proof -
  have r: "reachable_gm (gm_exchange gm_wants)"
    by (rule gm_exchange_reachable [OF gm_wants_reachable gm_wants_is(1-5)])
  have "gm_step\<^sup>*\<^sup>* (gm_exchange gm_wants) (goes 2 (Asks 7) (gm_exchange gm_wants))"
    by (rule r_into_rtranclp, rule asks) (simp add: gm_exchange_def gm_removeListener_def gm_wants_is)
  from gm_deadlock_forever [OF r gm_deadlocked this] r gm_deadlocked show ?thesis by blast
qed

theorem gm_wait_ends_witness:
  "\<exists>t. gm_step (gm_exchange gm_one) t \<and> turns_left t < turns_left (gm_exchange gm_one)"
proof -
  have r: "reachable_gm (gm_exchange gm_one)"
    by (rule gm_exchange_reachable [OF gm_one_reachable gm_one_is(1-5)])
  have s: "clients (gm_exchange gm_one) 1 = Spins 6" "inst (gm_exchange gm_one) = Some 0"
    "pc (mons (gm_exchange gm_one) 0) \<noteq> Locks"
    by (simp_all add: gm_exchange_def gm_removeListener_def gm_one_is)
  from gm_wait_ends [OF r s] show ?thesis by blast
qed

theorem gm_listeners_not_lost_witness:
  "inst gm_one = Some 0 \<and> \<not> stopping (mons gm_one 0)"
  using gm_listeners_not_lost [OF gm_one_reachable] gm_one_is(5) by auto

theorem gm_calls_registered_witness:
  "\<exists>s t m. gm_step s t \<and> called t = [5] \<and> 5 \<in> lset (mons s m) \<and> mutex s = Some (Loop m)"
proof -
  let ?s = "on_mon 0 (\<lambda>x. x\<lparr>pc := Calls (sorted_list_of_set (lset x))\<rparr>) (gm_wants\<lparr>mutex := Some (Loop 0)\<rparr>)"
  let ?t = "on_mon 0 (\<lambda>x. x\<lparr>pc := Calls []\<rparr>) (?s\<lparr>called := called ?s @ [5]\<rparr>)"
  have r: "reachable_gm ?s"
    by (rule gm_turn [OF gm_wants_reachable locks]) (simp_all add: gm_wants_is)
  have step: "gm_step ?s ?t" by (rule calls) (simp add: gm_wants_is)
  have none: "called gm_wants = []" by (simp add: gm_wants_def gm_one_def gm_ops gm_start_def Let_def)
  then have more: "called ?t \<noteq> called ?s" by simp
  from gm_calls_registered [OF r step more] none
  show ?thesis by (intro exI [of _ ?s] exI [of _ ?t] exI [of _ 0]) (use step in auto)
qed

text \<open>
  The null pointer. When the old loop gives the instance up between the two places where
  \<open>instance\<close> looks at it, the second look goes through a null pointer.
\<close>

theorem gm_null_pointer:
  "\<exists>s. reachable_gm s \<and> clients s 1 = Crashed"
proof -
  let ?a = "goes 0 (Leaves 0 5) gm_one"
  let ?b = "goes 0 Away (gm_removeListener 0 5 ?a)"
  let ?c = "goes 1 (Asks 6) ?b"
  let ?d = "goes 1 (Found 6) (?c\<lparr>mutex := Some (Client 1)\<rparr>)"
  let ?e = "on_mon 0 (\<lambda>x. x\<lparr>pc := if stopping x then Resets else Waits\<rparr>) ?d"
  let ?f = "on_mon 0 (\<lambda>x. x\<lparr>pc := Ended\<rparr>) (?e\<lparr>inst := None\<rparr>)"
  note eval = gm_one_is gm_removeListener_def
  have a: "reachable_gm ?a" by (rule gm_turn [OF gm_one_reachable leaves]) (simp_all add: eval)
  have b: "reachable_gm ?b" by (rule gm_turn [OF a removes]) (simp_all add: eval)
  have c: "reachable_gm ?c" by (rule gm_turn [OF b asks]) (simp add: eval)
  have d: "reachable_gm ?d" by (rule gm_turn [OF c enters]) (simp_all add: eval)
  have e: "reachable_gm ?e" by (rule gm_turn [OF d tests]) (simp add: eval)
  have f: "reachable_gm ?f" by (rule gm_turn [OF e resets]) (simp add: eval)
  have "reachable_gm (goes 1 Crashed ?f)" by (rule gm_turn [OF f crashes]) (simp_all add: eval)
  moreover have "clients (goes 1 Crashed ?f) 1 = Crashed" by simp
  ultimately show ?thesis by blast
qed

end
