(* ===== verification/Frame_Scheduling.thy ===== *)
theory Frame_Scheduling
  imports Threads Frame_Data "HOL-Library.Sublist"
begin

text \<open>
  How the threads of the subscriber meet at its queue (\<^verbatim>\<open>src/src/subscriber_plugin.cpp\<close>): the
  event loop of the client puts frames into the queue and triggers the waitable \<^verbatim>\<open>ScheduledCB\<close>;
  an executor of ROS waits for it and runs \<^verbatim>\<open>processFrame\<close>, which takes frames out of the queue
  as long as there are any; the other handlers may clear the queue and replace the decoder at
  any time. Theory \<open>Subscriber_Plugin\<close> says what is done with a frame; here only its outcome
  counts, and any outcome may happen.

  A turn is what happens between two places where another thread can come between: the queue
  is only accessed under its mutex, so every access is a turn.
\<close>

section \<open>The waitable\<close>

text \<open>
  A guard condition of ROS remembers a trigger until a wait returns, which uses it up. The
  waitable has one, and says that it is ready after every wait, whatever ended it.
\<close>

record waitable =
  triggered :: bool

definition ScheduledCB :: waitable where
  "ScheduledCB = \<lparr>triggered = False\<rparr>"

definition cb_trigger :: "waitable \<Rightarrow> waitable" where
  "cb_trigger w = w\<lparr>triggered := True\<rparr>"

definition wait_returns :: "waitable \<Rightarrow> waitable" where
  "wait_returns w = w\<lparr>triggered := False\<rparr>"

definition is_ready :: "waitable \<Rightarrow> bool" where
  "is_ready w = True"

section \<open>The threads\<close>

text \<open>The event loop is behind \<^verbatim>\<open>pushFrame\<close> or not; the executor waits, is about to execute the
  waitable, is in the loop of \<^verbatim>\<open>processFrame\<close>, or decodes a frame.\<close>

datatype feeder = Resting | Pushed

datatype worker = Waits | Executes | Looping | Holding frame_data

text \<open>
  \<open>failing\<close> is \<^verbatim>\<open>failed_\<close>, and \<open>equipped\<close> tells whether there is a decoder. The rest is the past:
  the frames that arrived, those that were taken for decoding, the number of those that were
  cleared, and whether the last run of \<^verbatim>\<open>processFrame\<close> ended otherwise than with an empty queue.
\<close>

record threads =
  queued :: "frame_data list"
  waitable :: waitable
  feeder :: feeder
  worker :: worker
  failing :: bool
  equipped :: bool
  arrived :: "frame_data list"
  taken :: "frame_data list"
  cleared :: nat
  cut_short :: bool

definition threads_start :: threads where
  "threads_start =
     \<lparr>queued = [], waitable = ScheduledCB, feeder = Resting, worker = Waits, failing = False, equipped = False,
      arrived = [], taken = [], cleared = 0, cut_short = False\<rparr>"

definition operational :: "threads \<Rightarrow> bool" where
  "operational s \<longleftrightarrow> \<not> failing s \<and> equipped s"

definition clears_queue :: "threads \<Rightarrow> threads" where
  "clears_queue s = s\<lparr>cleared := cleared s + length (queued s), queued := []\<rparr>"

text \<open>
  The names of the turns. \<open>Receives\<close> and \<open>Triggers\<close> are \<^verbatim>\<open>receiveDataStream\<close>; those from \<open>Wakes\<close>
  to \<open>GivesUp\<close> are the executor and \<^verbatim>\<open>processFrame\<close>, where \<open>Warns\<close> is its handler for
  \<^verbatim>\<open>DecodingError\<close> and \<open>GivesUp\<close> that for other exceptions. The last five are what the handlers
  of other threads do to the members that count here: \<^verbatim>\<open>clearQueuedFrames\<close>, a new URL, which
  resets \<^verbatim>\<open>failed_\<close>, a failure to connect or to make a decoder, which sets it, the decoder of a
  new subsession or after a change of parameters, and \<^verbatim>\<open>shutdown\<close>, which drops it.
\<close>

datatype turn = Receives frame_data | Triggers | Wakes | Returns | Begins | Pops frame_data | Finishes
  | Decodes | Warns | GivesUp | Clears | Announced | Fails | Equips | Drops

inductive thr_turn :: "turn \<Rightarrow> threads \<Rightarrow> threads \<Rightarrow> bool" where
  receives: "feeder s = Resting \<Longrightarrow>
    thr_turn (Receives f) s (s\<lparr>queued := queued s @ [f], arrived := arrived s @ [f], feeder := Pushed\<rparr>)"
| triggers: "feeder s = Pushed \<Longrightarrow>
    thr_turn Triggers s (s\<lparr>waitable := cb_trigger (waitable s), feeder := Resting\<rparr>)"

| wakes: "worker s = Waits \<Longrightarrow> is_ready (waitable s) \<Longrightarrow>
    thr_turn Wakes s (s\<lparr>waitable := wait_returns (waitable s), worker := Executes\<rparr>)"
| returns: "worker s = Executes \<Longrightarrow> \<not> operational s \<Longrightarrow>
    thr_turn Returns s (s\<lparr>worker := Waits, cut_short := True\<rparr>)"
| begins: "worker s = Executes \<Longrightarrow> operational s \<Longrightarrow> thr_turn Begins s (s\<lparr>worker := Looping\<rparr>)"
| pops: "worker s = Looping \<Longrightarrow> queued s = f # fs \<Longrightarrow>
    thr_turn (Pops f) s (s\<lparr>queued := fs, taken := taken s @ [f], worker := Holding f\<rparr>)"
| finishes: "worker s = Looping \<Longrightarrow> queued s = [] \<Longrightarrow>
    thr_turn Finishes s (s\<lparr>worker := Waits, cut_short := False\<rparr>)"
| decodes: "worker s = Holding f \<Longrightarrow> thr_turn Decodes s (s\<lparr>worker := Looping\<rparr>)"
| warns: "worker s = Holding f \<Longrightarrow> thr_turn Warns s (s\<lparr>worker := Waits, cut_short := True\<rparr>)"
| gives_up: "worker s = Holding f \<Longrightarrow>
    thr_turn GivesUp s (clears_queue (s\<lparr>failing := True, worker := Waits, cut_short := True\<rparr>))"

| clears: "thr_turn Clears s (clears_queue s)"
| announced: "thr_turn Announced s (s\<lparr>failing := False\<rparr>)"
| fails: "thr_turn Fails s (s\<lparr>failing := True\<rparr>)"
| equips: "thr_turn Equips s (s\<lparr>equipped := True\<rparr>)"
| drops: "thr_turn Drops s (s\<lparr>equipped := False\<rparr>)"

definition thr_step :: "threads \<Rightarrow> threads \<Rightarrow> bool" where
  "thr_step s t \<longleftrightarrow> (\<exists>l. thr_turn l s t)"

primrec thr_run :: "turn list \<Rightarrow> threads \<Rightarrow> threads \<Rightarrow> bool" where
  "thr_run [] s t \<longleftrightarrow> s = t"
| "thr_run (l # ls) s t \<longleftrightarrow> (\<exists>u. thr_turn l s u \<and> thr_run ls u t)"

inductive_cases thr_turnE: "thr_turn l s t"

lemma thr_run_append: "thr_run (ls @ ks) s t \<longleftrightarrow> (\<exists>u. thr_run ls s u \<and> thr_run ks u t)"
  by (induction ls arbitrary: s) auto

lemma thr_run_snoc: "thr_run ls s t \<Longrightarrow> thr_turn l t u \<Longrightarrow> thr_run (ls @ [l]) s u"
  by (auto simp: thr_run_append)

definition reachable_threads :: "threads \<Rightarrow> bool" where
  "reachable_threads s \<longleftrightarrow> thr_step\<^sup>*\<^sup>* threads_start s"

lemma thr_reach: "reachable_threads s \<Longrightarrow> thr_turn l s t \<Longrightarrow> reachable_threads t"
  unfolding reachable_threads_def using thr_step_def by (blast intro: rtranclp.rtrancl_into_rtrancl)

section \<open>Invariant\<close>

text \<open>Frames keep their order; each of them was taken, was cleared or is queued.\<close>

definition in_order :: "threads \<Rightarrow> bool" where
  "in_order s \<longleftrightarrow> subseq (taken s @ queued s) (arrived s) \<and>
     length (arrived s) = length (taken s) + length (queued s) + cleared s"

text \<open>A queue that is not empty will be looked at.\<close>

definition attended :: "threads \<Rightarrow> bool" where
  "attended s \<longleftrightarrow> queued s = [] \<or> triggered (waitable s) \<or> feeder s = Pushed \<or> worker s \<noteq> Waits"

definition thr_inv :: "threads \<Rightarrow> bool" where
  "thr_inv s \<longleftrightarrow> in_order s \<and> (attended s \<or> cut_short s)"

lemma in_order_cleared: "in_order s \<Longrightarrow> in_order (clears_queue s)"
  using subseq_order.trans [of "taken s" "taken s @ queued s" "arrived s"]
  by (auto simp: in_order_def clears_queue_def)

lemma step_in_order:
  assumes "in_order s" and "thr_turn l s t"
  shows "in_order t"
  using assms(2)
proof (cases rule: thr_turn.cases)
  case (receives f)
  have "subseq ((taken s @ queued s) @ [f]) (arrived s @ [f])"
    using assms(1) by (intro list_emb_append_mono) (simp_all add: in_order_def)
  with assms(1) receives show ?thesis by (simp add: in_order_def)
next
  case (gives_up f)
  from in_order_cleared [of "s\<lparr>failing := True, worker := Waits, cut_short := True\<rparr>"] assms(1) gives_up
  show ?thesis by (simp add: in_order_def)
next
  case clears
  with assms(1) show ?thesis by (simp add: in_order_cleared)
qed (use assms(1) in \<open>auto simp: in_order_def\<close>)

lemma step_attended: "attended s \<or> cut_short s \<Longrightarrow> thr_turn l s t \<Longrightarrow> attended t \<or> cut_short t"
  by (cases rule: thr_turn.cases) (auto simp: attended_def cb_trigger_def clears_queue_def)

interpretation queue_threads: turns thr_step threads_start thr_inv
proof
  show "thr_inv threads_start" by (simp add: thr_inv_def in_order_def attended_def threads_start_def)
next
  fix s t
  assume "thr_inv s" and "thr_step s t"
  then show "thr_inv t" unfolding thr_inv_def thr_step_def using step_in_order step_attended by metis
qed

section \<open>Properties\<close>

text \<open>
  C22: no frame is lost, overtaken or decoded twice. Whatever the threads do, the frames that were
  taken out of the queue, followed by those still in it, are a subsequence of those that
  arrived; and if the queue was never cleared, they are exactly those that arrived.
\<close>

theorem threads_keep_order:
  assumes "reachable_threads s"
  shows "subseq (taken s @ queued s) (arrived s) \<and>
    (if cleared s = 0 then taken s @ queued s = arrived s
     else length (taken s) + length (queued s) < length (arrived s))"
proof -
  have inv: "in_order s"
    using queue_threads.reached_good assms by (auto simp: reachable_threads_def thr_inv_def)
  then show ?thesis using subseq_same_length [of "taken s @ queued s" "arrived s"] by (auto simp: in_order_def)
qed

text \<open>
  C21: no wake-up is lost. When frames are queued, the executor is awake, or will be woken up by a
  trigger that has been or is just being given; unless the last run of \<^verbatim>\<open>processFrame\<close> left
  them behind because it found no decoder, or a failure, or because decoding failed.
\<close>

theorem frames_attended:
  assumes "reachable_threads s" and "queued s \<noteq> []" and "\<not> cut_short s"
  shows "triggered (waitable s) \<or> feeder s = Pushed \<or> worker s \<noteq> Waits"
proof -
  have "thr_inv s" using queue_threads.reached_good assms(1) by (simp add: reachable_threads_def)
  with assms(2,3) show ?thesis by (simp add: thr_inv_def attended_def)
qed

text \<open>
  Frames left behind. When decoding a frame fails while others are queued and no trigger is
  pending, \<^verbatim>\<open>processFrame\<close> returns, although the decoder is in order, and nobody attends to the
  other frames: that lasts until the next frame arrives, the queue is cleared, or the executor
  happens to wake up for another reason.
\<close>

theorem frames_left_behind:
  assumes "worker s = Holding f" and "queued s \<noteq> []" and "\<not> triggered (waitable s)" and "feeder s = Resting"
  shows "\<exists>t. thr_step s t \<and> \<not> attended t \<and> operational t = operational s \<and> queued t = queued s \<and>
    (\<forall>u. thr_step t u \<longrightarrow> \<not> attended u \<or> arrived u \<noteq> arrived t \<or> queued u = [] \<or> worker u = Executes)"
proof (intro exI conjI)
  let ?t = "s\<lparr>worker := Waits, cut_short := True\<rparr>"
  show "thr_step s ?t" unfolding thr_step_def using warns [OF assms(1)] by blast
  show "\<forall>u. thr_step ?t u \<longrightarrow> \<not> attended u \<or> arrived u \<noteq> arrived ?t \<or> queued u = [] \<or> worker u = Executes"
    using assms(2-4) by (auto simp: thr_step_def attended_def clears_queue_def elim!: thr_turnE)
qed (use assms in \<open>simp_all add: attended_def operational_def\<close>)

section \<open>Witnesses\<close>

text \<open>Two frames have arrived, and the first is being decoded.\<close>

definition frame_a :: frame_data where "frame_a = mk_frame 2 [1] 5"
definition frame_b :: frame_data where "frame_b = mk_frame 2 [2] 6"

definition two_arrived :: threads where
  "two_arrived = threads_start\<lparr>queued := [frame_a, frame_b], arrived := [frame_a, frame_b], equipped := True,
     waitable := cb_trigger ScheduledCB\<rparr>"

lemma two_arrived_reachable: "reachable_threads two_arrived"
proof -
  let ?a = "threads_start\<lparr>equipped := True\<rparr>"
  let ?b = "?a\<lparr>queued := queued ?a @ [frame_a], arrived := arrived ?a @ [frame_a], feeder := Pushed\<rparr>"
  let ?c = "?b\<lparr>waitable := cb_trigger (waitable ?b), feeder := Resting\<rparr>"
  let ?d = "?c\<lparr>queued := queued ?c @ [frame_b], arrived := arrived ?c @ [frame_b], feeder := Pushed\<rparr>"
  have start: "reachable_threads threads_start" by (simp add: reachable_threads_def)
  have a: "reachable_threads ?a" by (rule thr_reach [OF start equips])
  have b: "reachable_threads ?b" by (rule thr_reach [OF a receives]) (simp add: threads_start_def)
  have c: "reachable_threads ?c" by (rule thr_reach [OF b triggers]) simp
  have d: "reachable_threads ?d" by (rule thr_reach [OF c receives]) simp
  have "reachable_threads (?d\<lparr>waitable := cb_trigger (waitable ?d), feeder := Resting\<rparr>)"
    by (rule thr_reach [OF d triggers]) simp
  moreover have "?d\<lparr>waitable := cb_trigger (waitable ?d), feeder := Resting\<rparr> = two_arrived"
    by (simp add: two_arrived_def threads_start_def cb_trigger_def ScheduledCB_def)
  ultimately show ?thesis by simp
qed

theorem frames_attended_witness: "triggered (waitable two_arrived)"
  using frames_attended [OF two_arrived_reachable] by (simp add: two_arrived_def threads_start_def)

theorem threads_keep_order_witness: "taken two_arrived @ queued two_arrived = [frame_a, frame_b]"
  using threads_keep_order [OF two_arrived_reachable] by (simp add: two_arrived_def threads_start_def)

definition first_held :: threads where
  "first_held = two_arrived\<lparr>waitable := ScheduledCB, queued := [frame_b], taken := [frame_a], worker := Holding frame_a\<rparr>"

lemma first_held_reachable: "reachable_threads first_held"
proof -
  let ?a = "two_arrived\<lparr>waitable := wait_returns (waitable two_arrived), worker := Executes\<rparr>"
  let ?b = "?a\<lparr>worker := Looping\<rparr>"
  note eval = two_arrived_def threads_start_def operational_def
  have a: "reachable_threads ?a"
    by (rule thr_reach [OF two_arrived_reachable wakes]) (simp_all add: eval is_ready_def)
  have b: "reachable_threads ?b" by (rule thr_reach [OF a begins]) (simp_all add: eval)
  have "reachable_threads (?b\<lparr>queued := [frame_b], taken := taken ?b @ [frame_a], worker := Holding frame_a\<rparr>)"
    by (rule thr_reach [OF b pops]) (simp_all add: eval)
  moreover have "?b\<lparr>queued := [frame_b], taken := taken ?b @ [frame_a], worker := Holding frame_a\<rparr> = first_held"
    by (simp add: first_held_def eval wait_returns_def cb_trigger_def ScheduledCB_def)
  ultimately show ?thesis by simp
qed

theorem frames_left_behind_witness:
  "reachable_threads first_held \<and> (\<exists>t. thr_step first_held t \<and> \<not> attended t \<and> operational t \<and> queued t = [frame_b])"
  using frames_left_behind [of first_held frame_a] first_held_reachable by (auto simp: operational_def first_held_def two_arrived_def threads_start_def ScheduledCB_def)

end
