(* ===== verification/Subscriber_Threads.thy ===== *)
theory Subscriber_Threads
  imports Subscriber_Facts Frame_Scheduling
begin

text \<open>
  The subscriber as its threads see it: every run of \<^verbatim>\<open>processFrame\<close> as theory
  \<open>Subscriber_Plugin\<close> models it, with the frames that are pushed meanwhile, is a sequence of
  turns of theory \<open>Frame_Scheduling\<close> in which only the executor and the event loop take part,
  and the event loop brings just those frames. So what holds there holds of it.
\<close>

definition mirrors :: "'w subscriber \<Rightarrow> threads \<Rightarrow> bool" where
  "mirrors s u \<longleftrightarrow> queued u = queue s \<and> taken u = map fst (fed s) \<and>
     failing u = s_failed s \<and> equipped u = (s_decoder s \<noteq> None)"

lemma mirrors_operational: "mirrors s u \<Longrightarrow> operational u \<longleftrightarrow> \<not> s_failed s \<and> s_decoder s \<noteq> None"
  by (simp add: mirrors_def operational_def)

section \<open>Runs of the executor\<close>

text \<open>The turns of the executor in a run of \<^verbatim>\<open>processFrame\<close>, and of the event loop meanwhile.\<close>

fun of_run :: "turn \<Rightarrow> bool" where
  "of_run (Receives f) = True"
| "of_run Triggers = True"
| "of_run Returns = True"
| "of_run Begins = True"
| "of_run (Pops f) = True"
| "of_run Finishes = True"
| "of_run Decodes = True"
| "of_run Warns = True"
| "of_run GivesUp = True"
| "of_run _ = False"

fun brought :: "turn list \<Rightarrow> frame_data list" where
  "brought [] = []"
| "brought (Receives f # ls) = f # brought ls"
| "brought (_ # ls) = brought ls"

fun popped :: "turn list \<Rightarrow> frame_data list" where
  "popped [] = []"
| "popped (Pops f # ls) = f # popped ls"
| "popped (_ # ls) = popped ls"

lemma brought_append: "brought (ls @ ks) = brought ls @ brought ks"
  by (induction ls rule: brought.induct) auto

text \<open>Such a run keeps count: frames only enter behind the others, and only leave to be decoded.\<close>

lemma run_bookkeeping:
  assumes "thr_run ls u v" and "list_all of_run ls" and "GivesUp \<notin> set ls"
  shows "arrived v = arrived u @ brought ls \<and> taken v = taken u @ popped ls \<and>
    taken v @ queued v = taken u @ queued u @ brought ls \<and> cleared v = cleared u"
  using assms
proof (induction ls arbitrary: u)
  case (Cons l ls)
  then obtain x where x: "thr_turn l u x" "thr_run ls x v" by auto
  from Cons.IH [OF x(2)] Cons.prems(2,3) x(1) show ?case
    by (auto elim!: thr_turnE)
qed simp

definition run_of :: "frame_data list \<Rightarrow> turn list \<Rightarrow> threads \<Rightarrow> threads \<Rightarrow> bool" where
  "run_of fs ls u v \<longleftrightarrow> thr_run ls u v \<and> list_all of_run ls \<and> GivesUp \<notin> set ls \<and> brought ls = fs"

lemma run_of_nil: "run_of [] [] u u"
  by (simp add: run_of_def)

lemma run_of_append: "run_of fs ls u v \<Longrightarrow> run_of gs ks v w \<Longrightarrow> run_of (fs @ gs) (ls @ ks) u w"
  by (auto simp: run_of_def thr_run_append brought_append)

lemma run_of_turn:
  "thr_turn l u v \<Longrightarrow> of_run l \<Longrightarrow> l \<noteq> GivesUp \<Longrightarrow> (\<And>f. l \<noteq> Receives f) \<Longrightarrow> run_of [] [l] u v"
  by (cases l) (auto simp: run_of_def)

lemma run_of_more:
  assumes "run_of fs ls u v" and "thr_turn l v w" and "of_run l" "l \<noteq> GivesUp" "\<And>f. l \<noteq> Receives f"
  shows "run_of fs (ls @ [l]) u w"
  using run_of_append [OF assms(1) run_of_turn [OF assms(2-)]] by simp

lemma pushes_mirrored:
  assumes "mirrors s u" and "feeder u = Resting"
  shows "\<exists>ls v. run_of fs ls u v \<and> mirrors (fold pushFrame fs s) v \<and> worker v = worker u \<and> feeder v = Resting"
  using assms
proof (induction fs arbitrary: s u)
  case Nil
  then show ?case using run_of_nil by auto
next
  case (Cons f fs)
  let ?p = "u\<lparr>queued := queued u @ [f], arrived := arrived u @ [f], feeder := Pushed\<rparr>"
  let ?v = "?p\<lparr>waitable := cb_trigger (waitable ?p), feeder := Resting\<rparr>"
  have "thr_turn (Receives f) u ?p" by (rule receives [OF Cons.prems(2)])
  moreover have "thr_turn Triggers ?p ?v" by (rule triggers) simp
  ultimately have go: "run_of [f] [Receives f, Triggers] u ?v" unfolding run_of_def by (auto simp del: threads.simps)
  have "mirrors (pushFrame f s) ?v" using Cons.prems(1) by (simp add: mirrors_def pushFrame_def)
  from Cons.IH [OF this] obtain ls w where w: "run_of fs ls ?v w" "mirrors (fold pushFrame fs (pushFrame f s)) w"
    "worker w = worker u" "feeder w = Resting" by auto
  from run_of_append [OF go w(1)] w(2-4) show ?case by auto
qed

section \<open>The loop\<close>

lemma processFrame_value:
  assumes "\<not> (s_failed s \<or> s_decoder s = None)" and "process_loop ff deliver pushed s = Some (r, x)"
  shows "processFrame ff deliver pushed s =
    (case r of Inl (Throw e) \<Rightarrow> (case e of DecodingError m \<Rightarrow> ret () | _ \<Rightarrow> give_up) x | _ \<Rightarrow> (r, x))"
proof -
  have "processFrame ff deliver pushed s = handle (loop_op (process_loop ff deliver pushed))
      (\<lambda>e. case e of DecodingError m \<Rightarrow> ret () | _ \<Rightarrow> give_up) s"
    using assms(1) by (simp add: processFrame_def bnd_def gets_def whenb_def)
  also have "\<dots> = (case r of Inl (Throw e) \<Rightarrow> (case e of DecodingError m \<Rightarrow> ret () | _ \<Rightarrow> give_up) x | _ \<Rightarrow> (r, x))"
    by (simp add: handle_def loop_op_def assms(2) split: sum.split fault.split)
  finally show ?thesis .
qed

definition loop_ended :: "fault + unit \<Rightarrow> threads \<Rightarrow> bool" where
  "loop_ended r v \<longleftrightarrow> feeder v = Resting \<and> (case r of Inr _ \<Rightarrow> worker v = Waits | Inl _ \<Rightarrow> \<exists>f. worker v = Holding f)"

lemma take_one_more: "concat (take 1 pushed) @ concat (take k (drop 1 pushed)) = concat (take (Suc k) pushed)"
  by (cases pushed) auto

lemma loop_mirrored:
  assumes "frames_sized ff" and "decoding s" and "mirrors s u" and "worker u = Looping" "feeder u = Resting"
    and "process_loop ff deliver pushed s = Some (r, t)"
  shows "\<exists>k ls v. run_of (concat (take k pushed)) ls u v \<and> mirrors t v \<and> loop_ended r v"
  using assms(2-6)
proof (induction "length (queue s) + length (concat pushed)" arbitrary: s u pushed rule: less_induct)
  case less
  let ?s = "fold pushFrame (concat (take 1 pushed)) s"
  obtain ls v where v: "run_of (concat (take 1 pushed)) ls u v" "mirrors ?s v" "worker v = Looping" "feeder v = Resting"
    using pushes_mirrored [OF less.prems(2,4)] less.prems(3) by metis
  show ?case
  proof (cases "queue ?s")
    case Nil
    let ?w = "v\<lparr>worker := Waits, cut_short := False\<rparr>"
    from Nil less.prems(5) have rt: "r = Inr ()" "t = ?s"
      by (simp_all add: process_loop.simps [of ff deliver pushed s] popFrame_def)
    have "thr_turn Finishes v ?w" by (rule finishes [OF v(3)]) (use v(2) Nil in \<open>simp add: mirrors_def\<close>)
    from run_of_more [OF v(1) this] have "run_of (concat (take 1 pushed)) (ls @ [Finishes]) u ?w" by simp
    moreover have "mirrors t ?w" "loop_ended r ?w" using v(2,4) rt by (simp_all add: mirrors_def loop_ended_def)
    ultimately show ?thesis by blast
  next
    case (Cons f fs)
    let ?q = "?s\<lparr>queue := fs\<rparr>" and ?h = "v\<lparr>queued := fs, taken := taken v @ [f], worker := Holding f\<rparr>"
    obtain x w where turn: "process_turn ff deliver f ?q = (x, w)" by (rule prod.exhaust)
    have "decoding ?q" using less.prems(1) by (simp add: decoding_def fold_pushFrame)
    from wp_process_turn [OF this assms(1), of deliver f] turn have tw: "turned f ?q w"
      by (auto simp: wp_def split: sum.splits)
    have "thr_turn (Pops f) v ?h" by (rule pops [OF v(3)]) (use v(2) Cons in \<open>simp add: mirrors_def\<close>)
    from run_of_more [OF v(1) this] have h: "run_of (concat (take 1 pushed)) (ls @ [Pops f]) u ?h" by simp
    have dec: "decoding w" "queue w = fs" using tw by (simp_all add: turned_def untouched_def)
    have operational: "s_decoder w \<noteq> None \<longleftrightarrow> s_decoder ?s \<noteq> None"
      using dec(1) less.prems(1) by (simp add: decoding_def fold_pushFrame) blast
    have mw: "mirrors w ?h"
      using v(2) tw operational by (simp add: mirrors_def turned_def untouched_def)
    show ?thesis
    proof (cases x)
      case (Inl e)
      with less.prems(5) turn Cons have "r = Inl e" "t = w"
        by (simp_all add: process_loop.simps [of ff deliver pushed s] popFrame_def)
      with mw v(4) have "mirrors t ?h" "loop_ended r ?h" by (simp_all add: loop_ended_def)
      with h show ?thesis by blast
    next
      case (Inr _)
      have rest: "process_loop ff deliver (drop 1 pushed) w = Some (r, t)"
        using less.prems(5) turn Cons Inr by (simp add: process_loop.simps [of ff deliver pushed s] popFrame_def)
      let ?l = "?h\<lparr>worker := Looping\<rparr>"
      have "thr_turn Decodes ?h ?l" by (rule decodes) simp
      from run_of_more [OF h this] have l: "run_of (concat (take 1 pushed)) ((ls @ [Pops f]) @ [Decodes]) u ?l" by simp
      have ml: "mirrors w ?l" "worker ?l = Looping" "feeder ?l = Resting" using mw v(4) by (simp_all add: mirrors_def)
      have "queue s @ concat (take 1 pushed) = f # fs" using Cons by (simp add: fold_pushFrame)
      then have "length (queue s) + length (concat (take 1 pushed)) = Suc (length fs)"
        by (metis length_Cons length_append)
      then have "length (queue w) + length (concat (drop 1 pushed)) < length (queue s) + length (concat pushed)"
        using dec(2) by (cases pushed) simp_all
      from less.hyps [OF this dec(1) ml rest] obtain k ks z where
        z: "run_of (concat (take k (drop 1 pushed))) ks ?l z" "mirrors t z" "loop_ended r z" by blast
      from run_of_append [OF l z(1)] z(2,3) show ?thesis unfolding take_one_more by blast
    qed
  qed
qed

text \<open>
  What a run of \<^verbatim>\<open>processFrame\<close> is for the threads: turns of the executor, with the frames that the
  event loop brings meanwhile. The queue is worked off from the front: the frames that were taken,
  followed by the rest, are those that were there and those that came; the rest stays in the
  queue, or is cleared if the executor gives up.
\<close>

definition processed_by :: "turn list \<Rightarrow> frame_data list \<Rightarrow> threads \<Rightarrow> threads \<Rightarrow> bool" where
  "processed_by ls new u v \<longleftrightarrow> thr_run ls u v \<and> list_all of_run ls \<and> worker v = Waits \<and>
     brought ls = new \<and> arrived v = arrived u @ new \<and>
     (\<exists>rest. taken v @ rest = taken u @ queued u @ new \<and>
       (if GivesUp \<in> set ls then queued v = [] \<and> cleared v = cleared u + length rest
        else queued v = rest \<and> cleared v = cleared u))"

lemma run_processed: "run_of new ls u v \<Longrightarrow> worker v = Waits \<Longrightarrow> processed_by ls new u v"
  using run_bookkeeping unfolding run_of_def processed_by_def by auto

lemma run_given_up:
  assumes "run_of new ls u v" and "worker v = Holding f"
  shows "processed_by (ls @ [GivesUp]) new u (clears_queue (v\<lparr>failing := True, worker := Waits, cut_short := True\<rparr>))"
proof -
  have "arrived v = arrived u @ new" "taken v @ queued v = taken u @ queued u @ new" "cleared v = cleared u"
    using run_bookkeeping assms(1) unfolding run_of_def by auto
  moreover have "thr_run (ls @ [GivesUp]) u (clears_queue (v\<lparr>failing := True, worker := Waits, cut_short := True\<rparr>))"
    using assms(1) gives_up [OF assms(2)] unfolding run_of_def by (blast intro: thr_run_snoc)
  ultimately show ?thesis using assms(1)
    by (auto simp: processed_by_def run_of_def brought_append clears_queue_def intro!: exI [of _ "queued v"])
qed

lemma give_up_decoder: "s_decoder (snd (give_up s)) = s_decoder s"
  by (auto simp: give_up_def reconnect_if_def reconnect_def on_client_def clearQueuedFrames_def op_defs
      split: option.split prod.split sum.split)

text \<open>
  C20: what the subscriber does is what its threads may do. From every state that the subscriber
  reaches, a run of \<^verbatim>\<open>processFrame\<close> that returns is a sequence of turns that takes the threads
  from the execution of the waitable back to waiting, with the same queue, the same frames
  taken, and the same failure and decoder. The turns are only those of the executor and of the
  event loop, and the only frames that arrive are those pushed during the run; the frames taken
  from the queue, followed by the rest, are those that were in it and those that arrived, in
  this order, and the rest is what the queue holds in the end, unless the executor gave up and
  cleared it.
\<close>

theorem processFrame_refines_threads:
  assumes ok: "sound_ffmpeg ff" and "s = sub_run ff deliver parse mk_time pad cfg w es"
    and m: "mirrors s u" and u: "worker u = Executes" "feeder u = Resting"
    and run: "processFrame ff deliver pushed s = (Inr (), t)"
  shows "\<exists>ls k v. processed_by ls (concat (take k pushed)) u v \<and> mirrors t v"
proof (cases "s_failed s \<or> s_decoder s = None")
  case True
  let ?v = "u\<lparr>worker := Waits, cut_short := True\<rparr>"
  from True run have t: "t = s" by (auto simp: processFrame_def bnd_def gets_def whenb_def ret_def)
  have "thr_turn Returns u ?v" by (rule returns [OF u(1)]) (use mirrors_operational [OF m] True in simp)
  then have "run_of [] [Returns] u ?v" by (rule run_of_turn) simp_all
  from run_processed [OF this] have "processed_by [Returns] (concat (take 0 pushed)) u ?v" by simp
  moreover have "mirrors t ?v" using m t by (simp add: mirrors_def)
  ultimately show ?thesis by blast
next
  case False
  have inv: "sub_inv s" unfolding assms(2) by (rule sub_run_inv [OF ok])
  with False have d: "decoding s" and client: "s_client s \<noteq> None" by (auto simp: decoding_def sub_inv_def)
  obtain r x where x: "process_loop ff deliver pushed s = Some (r, x)" "processed pushed r s x"
    using process_loop_total [OF _ d] ok by blast
  have l: "linked x"
    using x(2) inv client by (auto simp: processed_def untouched_def clearQueuedFrames_def linked_def sub_inv_def decoding_def)
  let ?b = "u\<lparr>worker := Looping\<rparr>"
  have "thr_turn Begins u ?b" by (rule begins [OF u(1)]) (use mirrors_operational [OF m] False in simp)
  then have b: "run_of [] [Begins] u ?b" by (rule run_of_turn) simp_all
  have "mirrors s ?b" "worker ?b = Looping" "feeder ?b = Resting" using m u by (simp_all add: mirrors_def)
  from loop_mirrored [OF _ d this x(1)] ok obtain k ls v
    where v: "run_of (concat (take k pushed)) ls ?b v" "mirrors x v" "loop_ended r v" by blast
  have uv: "run_of (concat (take k pushed)) (Begins # ls) u v" using run_of_append [OF b v(1)] by simp
  have res: "(case r of Inl (Throw e) \<Rightarrow> (case e of DecodingError m \<Rightarrow> ret () | _ \<Rightarrow> give_up) x | _ \<Rightarrow> (r, x)) = (Inr (), t)"
    using run False by (simp add: processFrame_value [OF _ x(1)])
  consider (ended) "r = Inr ()" "t = x" | (warned) m where "r = Inl (Throw (DecodingError m))" "t = x"
    | (failed) e where "r = Inl e" "give_up x = (Inr (), t)"
  proof (cases r)
    case (Inl e)
    with res that(2,3) show ?thesis by (cases e; cases "case e of Throw y \<Rightarrow> y") (auto simp: ret_def)
  next
    case (Inr _)
    with res that(1) show ?thesis by simp
  qed
  then show ?thesis
  proof cases
    case ended
    from run_processed [OF uv] v(2,3) ended show ?thesis unfolding loop_ended_def by auto
  next
    case warned
    let ?w = "v\<lparr>worker := Waits, cut_short := True\<rparr>"
    obtain f where "worker v = Holding f" using warned v(3) by (auto simp: loop_ended_def)
    from run_of_more [OF uv warns [OF this]]
    have "run_of (concat (take k pushed)) ((Begins # ls) @ [Warns]) u ?w" by simp
    from run_processed [OF this] have "processed_by ((Begins # ls) @ [Warns]) (concat (take k pushed)) u ?w" by simp
    moreover have "mirrors t ?w" using v(2) warned by (simp add: mirrors_def)
    ultimately show ?thesis by blast
  next
    case failed
    let ?w = "clears_queue (v\<lparr>failing := True, worker := Waits, cut_short := True\<rparr>)"
    obtain f where "worker v = Holding f" using failed v(3) by (auto simp: loop_ended_def)
    from run_given_up [OF uv this] have "processed_by ((Begins # ls) @ [GivesUp]) (concat (take k pushed)) u ?w" .
    moreover have "s_failed t" "queue t = []" "fed t = fed x" "s_decoder t = s_decoder x"
      using wp_result [OF wp_give_up [OF l] failed(2)] give_up_decoder [of x] failed(2) by simp_all
    then have "mirrors t ?w" using v(2) by (simp add: mirrors_def clears_queue_def)
    ultimately show ?thesis by blast
  qed
qed

theorem processFrame_refines_threads_witness:
  "\<exists>ls k v. processed_by ls (concat (take k [[mk_frame 2 [7] 6]])) (threads_start\<lparr>equipped := True, worker := Executes\<rparr>) v \<and>
    mirrors (snd (processFrame soft (\<lambda>_. None) [[mk_frame 2 [7] 6]] (sub_at_work sub_playing))) v"
proof -
  let ?s = "sub_at_work sub_playing" and ?u = "threads_start\<lparr>equipped := True, worker := Executes\<rparr>"
  let ?r = "processFrame soft (\<lambda>_. None) [[mk_frame 2 [7] 6]] ?s"
  have s: "\<not> s_failed ?s" "s_decoder ?s \<noteq> None" "queue ?s = []" "fed ?s = []"
    using playing_can_decode(1) by (simp_all add: can_decode_def)
  then have m: "mirrors ?s ?u" "worker ?u = Executes" "feeder ?u = Resting"
    by (simp_all add: mirrors_def threads_start_def)
  have "?r = (Inr (), snd ?r)" using process_eval_soft(2) [OF playing_can_decode(1)] by (metis prod.collapse)
  from processFrame_refines_threads [OF soft_sound refl m this] show ?thesis .
qed

end
