(* ===== verification/Lifetime.thy ===== *)
theory Lifetime
  imports Threads
begin

text \<open>
  Who destroys a \<open>StreamClient\<close> (\<^verbatim>\<open>src/src/stream_client.cpp\<close>) or a \<open>StreamServer\<close>
  (\<^verbatim>\<open>src/src/stream_server.cpp\<close>), and when. Both live in a \<^verbatim>\<open>shared_ptr\<close> of a plugin and own
  a thread, the event loop of live555, whose callbacks lock a \<^verbatim>\<open>weak_ptr\<close> to the object for as
  long as they run (\<^verbatim>\<open>streamClient()\<close>, \<^verbatim>\<open>server_.lock()\<close>). The destructor runs in the thread
  that gives up the last reference; it gives up its connection or its session (\<^verbatim>\<open>disconnect\<close>,
  or \<^verbatim>\<open>stop\<close> and closing the server of live555; what these do is in the theories \<open>Stream_Client\<close>
  and \<open>Stream_Server\<close>), sets the flag that ends the loop and joins its thread.

  A turn is what happens between two places where the other thread can come between.
\<close>

datatype thread = Plugin | EventLoop

datatype life = Alive | Destroying thread | Destroyed | Terminated

text \<open>\<open>owned\<close> and \<open>locked\<close> are the two references; \<open>closed_down\<close>: the destructor is behind
  \<^verbatim>\<open>disconnect\<close> or \<^verbatim>\<open>stop\<close>; \<open>running\<close>: the loop has not ended.\<close>

record shared =
  owned :: bool
  locked :: bool
  life :: life
  closed_down :: bool
  quit_flag :: bool
  running :: bool

definition created_object :: shared where
  "created_object = \<lparr>owned = True, locked = False, life = Alive, closed_down = False, quit_flag = False, running = True\<rparr>"

text \<open>
  A callback that finds the \<^verbatim>\<open>weak_ptr\<close> expired does nothing and is left out. \<^verbatim>\<open>join\<close> of the
  calling thread throws \<^verbatim>\<open>std::system_error\<close>; out of a destructor that terminates the process.
\<close>

inductive life_step :: "shared \<Rightarrow> shared \<Rightarrow> bool" where
  locks: "running s \<Longrightarrow> \<not> locked s \<Longrightarrow> life s = Alive \<Longrightarrow> life_step s (s\<lparr>locked := True\<rparr>)"
| resets: "owned s \<Longrightarrow>
    life_step s (s\<lparr>owned := False, life := if locked s then Alive else Destroying Plugin\<rparr>)"
| unlocks: "locked s \<Longrightarrow>
    life_step s (s\<lparr>locked := False, life := if owned s then Alive else Destroying EventLoop\<rparr>)"
| closes_down: "life s = Destroying w \<Longrightarrow> \<not> closed_down s \<Longrightarrow> life_step s (s\<lparr>closed_down := True\<rparr>)"
| quits: "life s = Destroying w \<Longrightarrow> \<not> quit_flag s \<Longrightarrow> closed_down s \<Longrightarrow> life_step s (s\<lparr>quit_flag := True\<rparr>)"
| ends: "quit_flag s \<Longrightarrow> running s \<Longrightarrow> \<not> locked s \<Longrightarrow> life s = Destroying Plugin \<Longrightarrow>
    life_step s (s\<lparr>running := False\<rparr>)"
| joins: "life s = Destroying Plugin \<Longrightarrow> quit_flag s \<Longrightarrow> \<not> running s \<Longrightarrow>
    life_step s (s\<lparr>life := Destroyed\<rparr>)"
| joins_itself: "life s = Destroying EventLoop \<Longrightarrow> quit_flag s \<Longrightarrow>
    life_step s (s\<lparr>life := Terminated\<rparr>)"

inductive_cases life_stepE: "life_step s t"

text \<open>The object lives while there is a reference, and the loop runs until the plugin destroys it.\<close>

definition life_inv :: "shared \<Rightarrow> bool" where
  "life_inv s \<longleftrightarrow>
     (life s = Alive \<longleftrightarrow> owned s \<or> locked s) \<and>
     (closed_down s \<longrightarrow> life s \<noteq> Alive) \<and>
     (quit_flag s \<longrightarrow> closed_down s) \<and>
     (running s \<or> quit_flag s \<and> life s \<in> {Destroying Plugin, Destroyed}) \<and>
     (life s = Destroyed \<longrightarrow> \<not> running s)"

interpretation object_life: turns life_step created_object life_inv
proof
  show "life_inv created_object" by (simp add: life_inv_def created_object_def)
next
  fix s t
  assume "life_inv s" and "life_step s t"
  from this(2,1) show "life_inv t"
    by (cases rule: life_step.cases) (auto simp: life_inv_def)
qed

text \<open>The object is on its way to be destroyed by its own event loop.\<close>

definition doomed :: "shared \<Rightarrow> bool" where
  "doomed s \<longleftrightarrow> \<not> owned s \<and> (locked s \<and> life s = Alive \<or> life s = Destroying EventLoop \<or> life s = Terminated)"

text \<open>The turns that a destructor still takes.\<close>

definition turns_to_go :: "shared \<Rightarrow> nat" where
  "turns_to_go s =
     (case life s of
        Destroying _ \<Rightarrow> 1 + of_bool (\<not> closed_down s) + of_bool (\<not> quit_flag s) + of_bool (running s)
      | Alive \<Rightarrow> 5
      | _ \<Rightarrow> 0)"

text \<open>
  C25: A plugin that gives up its reference while no callback runs destroys the object itself, and
  that succeeds: every turn brings the end of the destructor closer, some turn is always
  possible until the object is destroyed, and the process is never terminated.
\<close>

theorem destructor_joins:
  assumes "life_step\<^sup>*\<^sup>* created_object s" and "owned s" "\<not> locked s"
    and "life_step\<^sup>*\<^sup>* (s\<lparr>owned := False, life := Destroying Plugin\<rparr>) t"
  shows "life t \<in> {Destroying Plugin, Destroyed} \<and>
    (\<forall>u. life_step t u \<longrightarrow> turns_to_go u < turns_to_go t) \<and>
    (life t = Destroyed \<longleftrightarrow> (\<nexists>u. life_step t u))"
proof -
  let ?s = "s\<lparr>owned := False, life := Destroying Plugin\<rparr>"
  let ?P = "\<lambda>t. \<not> owned t \<and> \<not> locked t \<and> life t \<in> {Destroying Plugin, Destroyed}"
  have "life_step s ?s" using resets [OF assms(2)] assms(3) by simp
  then have r: "life_step\<^sup>*\<^sup>* created_object ?s" using assms(1) by simp
  have keep: "?P v" if "life_inv u" "?P u" "life_step u v" for u v
    using that(3,2) by (cases rule: life_step.cases) auto
  have P: "?P t" by (rule object_life.stays [OF r assms(4), of ?P, OF _ keep]) (simp add: assms(3))
  have inv: "life_inv t" using object_life.reached_good r assms(4) by (meson rtranclp_trans)
  have less: "turns_to_go u < turns_to_go t" if "life_step t u" for u
    using that P by (cases rule: life_step.cases) (auto simp: turns_to_go_def)
  have "\<exists>u. life_step t u" if "life t = Destroying Plugin"
    using that P closes_down [of t] quits [of t] ends [of t] joins [of t] by blast
  moreover have "\<not> life_step t u" if "life t = Destroyed" for u
    using that P by (auto elim!: life_stepE)
  ultimately show ?thesis using P less by auto
qed

text \<open>
  C24: A plugin that gives up its reference while a callback runs, for example because a new URL
  arrives while a reply of the old server is handled, leaves the object to the event loop.
  From then on nothing can be saved: whatever happens, the process ends by being terminated.
\<close>

theorem reset_in_callback:
  assumes "life_step\<^sup>*\<^sup>* created_object s" and "owned s" "locked s"
    and "life_step\<^sup>*\<^sup>* (s\<lparr>owned := False\<rparr>) t"
  shows "doomed t \<and> (\<forall>u. life_step t u \<longrightarrow> turns_to_go u < turns_to_go t) \<and>
    (life t = Terminated \<longleftrightarrow> (\<nexists>u. life_step t u))"
proof -
  let ?s = "s\<lparr>owned := False\<rparr>"
  have alive: "life s = Alive" using object_life.reached_good [OF assms(1)] assms(2) by (simp add: life_inv_def)
  then have "s\<lparr>owned := False, life := Alive\<rparr> = ?s" by simp
  then have "life_step s ?s" using resets [OF assms(2)] assms(3) by simp
  then have r: "life_step\<^sup>*\<^sup>* created_object ?s" using assms(1) by simp
  have keep: "doomed v" if "life_inv u" "doomed u" "life_step u v" for u v
    using that(3,1,2) by (cases rule: life_step.cases) (auto simp: doomed_def life_inv_def)
  have d: "doomed t"
    by (rule object_life.stays [OF r assms(4), of doomed, OF _ keep]) (simp add: assms(3) alive doomed_def)
  have inv: "life_inv t" using object_life.reached_good r assms(4) by (meson rtranclp_trans)
  have less: "turns_to_go u < turns_to_go t" if "life_step t u" for u
    using that d inv by (cases rule: life_step.cases) (auto simp: turns_to_go_def doomed_def life_inv_def)
  have "\<exists>u. life_step t u" if "life t \<noteq> Terminated"
    using that d unlocks [of t] closes_down [of t] quits [of t] joins_itself [of t] by (auto simp: doomed_def)
  moreover have "\<not> life_step t u" if "life t = Terminated" for u
    using that d inv by (auto simp: doomed_def life_inv_def elim!: life_stepE)
  ultimately show ?thesis using d less by blast
qed

section \<open>Witnesses\<close>

theorem destructor_joins_witness:
  "life (created_object\<lparr>owned := False, life := Destroying Plugin\<rparr>) \<in> {Destroying Plugin, Destroyed}"
  using destructor_joins [of created_object, OF _ _ _ rtranclp.rtrancl_refl] by (simp add: created_object_def)

theorem reset_in_callback_witness:
  "doomed (created_object\<lparr>locked := False, owned := False, life := Terminated, closed_down := True, quit_flag := True\<rparr>) \<and>
   life_step\<^sup>*\<^sup>* created_object (created_object\<lparr>locked := False, owned := False, life := Terminated, closed_down := True, quit_flag := True\<rparr>)"
proof -
  let ?a = "created_object\<lparr>locked := True\<rparr>"
  let ?b = "?a\<lparr>owned := False\<rparr>"
  let ?c = "?b\<lparr>locked := False, life := Destroying EventLoop\<rparr>"
  let ?k = "?c\<lparr>closed_down := True\<rparr>"
  let ?d = "?k\<lparr>quit_flag := True\<rparr>"
  let ?e = "?d\<lparr>life := Terminated\<rparr>"
  have a: "life_step created_object ?a" by (rule locks) (simp_all add: created_object_def)
  have b: "life_step ?a ?b" using resets [of ?a] by (simp add: created_object_def)
  have c: "life_step ?b ?c" using unlocks [of ?b] by (simp add: created_object_def)
  have k: "life_step ?c ?k" by (rule closes_down) (simp_all add: created_object_def)
  have d: "life_step ?k ?d" by (rule quits) (simp_all add: created_object_def)
  have e: "life_step ?d ?e" by (rule joins_itself) simp_all
  have s: "life_step\<^sup>*\<^sup>* created_object ?a" and t: "life_step\<^sup>*\<^sup>* ?b ?e" and all: "life_step\<^sup>*\<^sup>* created_object ?e"
    using a b c k d e by (meson rtranclp.rtrancl_refl rtranclp.rtrancl_into_rtrancl)+
  have eq: "?e = created_object\<lparr>locked := False, owned := False, life := Terminated, closed_down := True, quit_flag := True\<rparr>"
    by (simp add: created_object_def)
  have "owned ?a" "locked ?a" by (simp_all add: created_object_def)
  from reset_in_callback [OF s this t] all show ?thesis unfolding eq by blast
qed

end
