(* ===== verification/Lock_Order.thy ===== *)
theory Lock_Order
  imports Threads
begin

text \<open>
  The mutexes of the program, and why its threads do not block each other. An operation is
  represented by the mutexes that it locks and unlocks, in order, along each of its paths; what
  it does else is in the theories of the components. There are two exceptions, which are both part
  of the model: a thread may wait in \<^verbatim>\<open>GraphMonitor::instance\<close>, with the mutex of the monitors
  locked, until the event loop of the last monitor has ended, and the event loop of a server may
  lock the queue of an injector while it holds it already. \<^verbatim>\<open>join\<close> is treated in theory
  \<open>Lifetime\<close>.
\<close>

section \<open>Mutexes and what operations do with them\<close>

datatype mutex =
    MonitorMutex
  | PublisherMutex
  | StreamsMutex
  | FrameQueueMutex
  | ClientMutex
  | SessionMutex
  | QueueMutex

text \<open>\<open>AwaitReset\<close> is \<^verbatim>\<open>while (instance_) yield()\<close>; the last two set and clear \<^verbatim>\<open>instance_\<close>.\<close>

datatype act = Lock mutex | Unlock mutex | AwaitReset | NewInstance | ResetInstance

type_synonym paths = "act list set"

definition skip :: paths where "skip = {[]}"

definition followed_by :: "paths \<Rightarrow> paths \<Rightarrow> paths" where
  "followed_by A B = {a @ b |a b. a \<in> A \<and> b \<in> B}"

definition under :: "mutex \<Rightarrow> paths \<Rightarrow> paths" where
  "under m A = {Lock m # a @ [Unlock m] |a. a \<in> A}"

inductive_set repeatedly :: "paths \<Rightarrow> paths" for A :: paths where
  never_again: "[] \<in> repeatedly A"
| once_more: "a \<in> A \<Longrightarrow> b \<in> repeatedly A \<Longrightarrow> a @ b \<in> repeatedly A"

section \<open>The operations\<close>

text \<open>The injector. Its consumer may ask for the next frame from within the callback \<^verbatim>\<open>afterGetting\<close>
  that it gets for a frame: \<open>again\<close> is how often that happens in a row.\<close>

definition injector_shutdown_locks :: paths where
  "injector_shutdown_locks = under FrameQueueMutex skip"

definition injectFrame_locks :: paths where
  "injectFrame_locks = under FrameQueueMutex skip"

primrec deliverFrame_locks :: "nat \<Rightarrow> paths" where
  "deliverFrame_locks 0 = skip \<union> under FrameQueueMutex skip"
| "deliverFrame_locks (Suc again) = under FrameQueueMutex (deliverFrame_locks again)"

text \<open>The server. Deleting its session closes the sources of the clients.\<close>

definition hasActiveStreams_locks :: paths where
  "hasActiveStreams_locks = under StreamsMutex skip"

definition sendFrame_locks :: paths where
  "sendFrame_locks = under StreamsMutex (repeatedly injectFrame_locks)"

definition newStreamSource_locks :: paths where
  "newStreamSource_locks = under StreamsMutex skip"

definition closeStreamSource_locks :: paths where
  "closeStreamSource_locks = under StreamsMutex (skip \<union> injector_shutdown_locks)"

definition createNewStreamSource_locks :: paths where
  "createNewStreamSource_locks = skip \<union> newStreamSource_locks \<union> injector_shutdown_locks"

definition stop_locks :: paths where
  "stop_locks = followed_by (under StreamsMutex (repeatedly injector_shutdown_locks))
     (skip \<union> repeatedly closeStreamSource_locks)"

definition start_locks :: paths where
  "start_locks = followed_by stop_locks (skip \<union> newStreamSource_locks)"

text \<open>The callbacks of live555 into server and injector.\<close>

definition server_callbacks :: paths where
  "server_callbacks = createNewStreamSource_locks \<union> closeStreamSource_locks \<union> (\<Union>again. deliverFrame_locks again)"

text \<open>The publisher and the graph monitor. Giving up a server stops it.\<close>

definition publish_locks :: paths where
  "publish_locks = under PublisherMutex
     (skip \<union> followed_by hasActiveStreams_locks (repeatedly sendFrame_locks))"

definition pub_updateParameters_locks :: paths where
  "pub_updateParameters_locks = skip \<union> under PublisherMutex
     (followed_by (skip \<union> stop_locks) (followed_by (skip \<union> stop_locks) (followed_by (skip \<union> start_locks)
       (skip \<union> stop_locks))))"

definition onGraphChange_locks :: paths where
  "onGraphChange_locks = under PublisherMutex skip"

definition eventLoop_locks :: paths where
  "eventLoop_locks = followed_by (repeatedly (under MonitorMutex (repeatedly onGraphChange_locks))) {[ResetInstance]}"

definition listener_locks :: paths where
  "listener_locks = skip \<union> under MonitorMutex skip"

definition instance_locks :: paths where
  "instance_locks = under MonitorMutex (skip \<union> {[AwaitReset, NewInstance]})"

definition pub_shutdown_locks :: paths where
  "pub_shutdown_locks = followed_by listener_locks (skip \<union> stop_locks)"

text \<open>The client. The handlers of the subscriber are called without a mutex.\<close>

definition live_timeout_locks :: paths where
  "live_timeout_locks = under SessionMutex skip"

definition teardown_locks :: paths where
  "teardown_locks = under SessionMutex skip"

definition connect_locks :: paths where
  "connect_locks = under ClientMutex (skip \<union> live_timeout_locks)"

definition disconnect_locks :: paths where
  "disconnect_locks = under ClientMutex (skip \<union> teardown_locks)"

definition setSessionTimeout_locks :: paths where
  "setSessionTimeout_locks = under ClientMutex (skip \<union> live_timeout_locks)"

text \<open>The subscriber: accesses to the queue, and \<^verbatim>\<open>reconnect\<close>, which every failure may lead to.\<close>

definition queue_locks :: paths where
  "queue_locks = under QueueMutex skip"

definition reconnect_locks :: paths where
  "reconnect_locks = followed_by disconnect_locks queue_locks"

definition give_up_locks :: paths where
  "give_up_locks = followed_by queue_locks (skip \<union> reconnect_locks)"

definition processFrame_locks :: paths where
  "processFrame_locks = followed_by (repeatedly queue_locks) (skip \<union> give_up_locks)"

definition internalCallback_locks :: paths where
  "internalCallback_locks =
     followed_by (skip \<union> disconnect_locks)
    (followed_by setSessionTimeout_locks (followed_by connect_locks (skip \<union> give_up_locks)))"

definition cooldown_locks :: paths where
  "cooldown_locks = followed_by queue_locks connect_locks"

definition sub_updateParameters_locks :: paths where
  "sub_updateParameters_locks = followed_by (skip \<union> setSessionTimeout_locks) (skip \<union> give_up_locks)"

definition sub_shutdown_locks :: paths where
  "sub_shutdown_locks = followed_by (skip \<union> disconnect_locks) queue_locks"

text \<open>The callbacks of live555 into the client.\<close>

definition client_sessionFailed_locks :: paths where
  "client_sessionFailed_locks = followed_by disconnect_locks connect_locks \<union> skip \<union> reconnect_locks"

definition torn_down_locks :: paths where
  "torn_down_locks = followed_by teardown_locks client_sessionFailed_locks"

definition continueAfterDESCRIBE_locks :: paths where
  "continueAfterDESCRIBE_locks = skip \<union> client_sessionFailed_locks \<union> torn_down_locks"

definition continueAfterSETUP_locks :: paths where
  "continueAfterSETUP_locks = skip \<union> torn_down_locks"

definition continueAfterPLAY_locks :: paths where
  "continueAfterPLAY_locks = skip \<union> under SessionMutex skip \<union> torn_down_locks"

definition afterPlaying_locks :: paths where
  "afterPlaying_locks = skip \<union> followed_by teardown_locks (skip \<union> reconnect_locks)"

definition checkTimeout_locks :: paths where
  "checkTimeout_locks = skip \<union> followed_by (under SessionMutex skip) (skip \<union> reconnect_locks)"

definition client_callbacks :: paths where
  "client_callbacks = continueAfterDESCRIBE_locks \<union> continueAfterSETUP_locks \<union> continueAfterPLAY_locks \<union>
     afterPlaying_locks \<union> checkTimeout_locks \<union> queue_locks"

definition operations :: paths where
  "operations = server_callbacks \<union> publish_locks \<union> pub_updateParameters_locks \<union> eventLoop_locks \<union>
     listener_locks \<union> instance_locks \<union> pub_shutdown_locks \<union> processFrame_locks \<union> internalCallback_locks \<union>
     cooldown_locks \<union> sub_updateParameters_locks \<union> sub_shutdown_locks \<union> client_callbacks"

section \<open>The order of the mutexes\<close>

primrec rank :: "mutex \<Rightarrow> nat" where
  "rank MonitorMutex = 0"
| "rank PublisherMutex = 1"
| "rank StreamsMutex = 2"
| "rank FrameQueueMutex = 3"
| "rank ClientMutex = 1"
| "rank SessionMutex = 2"
| "rank QueueMutex = 3"

text \<open>From holding \<open>held\<close> on, a path locks only mutexes above those held, unlocks only what it
  holds, waits only with the mutex of the monitors locked, and holds nothing in the end. Where
  it locks the queue of an injector again it gets no further, whatever it contains from there on.\<close>

fun orderly :: "mutex set \<Rightarrow> act list \<Rightarrow> bool" where
  "orderly held [] \<longleftrightarrow> held = {}"
| "orderly held (Lock m # as) \<longleftrightarrow> m = FrameQueueMutex \<and> m \<in> held \<or>
     (\<forall>h \<in> held. rank h < rank m) \<and> orderly (insert m held) as"
| "orderly held (Unlock m # as) \<longleftrightarrow> m \<in> held \<and> orderly (held - {m}) as"
| "orderly held (AwaitReset # as) \<longleftrightarrow> MonitorMutex \<in> held \<and> orderly held as"
| "orderly held (NewInstance # as) \<longleftrightarrow> orderly held as"
| "orderly held (ResetInstance # as) \<longleftrightarrow> orderly held as"

text \<open>A path that can be put between others where only mutexes below \<open>n\<close> are held.\<close>

definition neutral :: "nat \<Rightarrow> paths \<Rightarrow> bool" where
  "neutral n A \<longleftrightarrow> (\<forall>a \<in> A. \<forall>held as. (\<forall>h \<in> held. rank h < n) \<longrightarrow> orderly held as \<longrightarrow> orderly held (a @ as))"

named_theorems neutral_rules "paths that keep the order"

lemma neutral_skip [neutral_rules]: "neutral n skip"
  by (simp add: neutral_def skip_def)

lemma neutral_Un [neutral_rules]: "neutral n A \<Longrightarrow> neutral n B \<Longrightarrow> neutral n (A \<union> B)"
  by (auto simp: neutral_def)

lemma neutral_followed_by [neutral_rules]: "neutral n A \<Longrightarrow> neutral n B \<Longrightarrow> neutral n (followed_by A B)"
  by (auto simp: neutral_def followed_by_def)

lemma neutral_UN [neutral_rules]: "(\<And>k. neutral n (A k)) \<Longrightarrow> neutral n (\<Union>k. A k)"
  by (auto simp: neutral_def)

lemma neutral_reset [neutral_rules]: "neutral n {[ResetInstance]}"
  by (simp add: neutral_def)

lemma under_orderly:
  assumes "n \<le> rank m" and "\<And>b held as. b \<in> A \<Longrightarrow> m \<in> held \<Longrightarrow> (\<forall>h \<in> held. rank h \<le> rank m) \<Longrightarrow>
    orderly held as \<Longrightarrow> orderly held (b @ as)"
  shows "neutral n (under m A)"
  unfolding neutral_def
proof (intro ballI allI impI)
  fix a held as
  assume "a \<in> under m A" and held: "\<forall>h \<in> held. rank h < n" and as: "orderly held as"
  then obtain b where b: "a = Lock m # b @ [Unlock m]" "b \<in> A" by (auto simp: under_def)
  have below: "\<forall>h \<in> held. rank h < rank m" using held assms(1) by auto
  then have "\<forall>h \<in> insert m held. rank h \<le> rank m" "m \<notin> held" by auto
  moreover from this as have "orderly (insert m held) (Unlock m # as)" by (simp add: insert_Diff_if)
  ultimately show "orderly held (a @ as)" using b assms(2) [of b "insert m held" "Unlock m # as"] below by simp
qed

lemma neutral_under [neutral_rules]:
  assumes "n \<le> rank m" and "neutral (Suc (rank m)) A"
  shows "neutral n (under m A)"
  by (rule under_orderly [OF assms(1)]) (use assms(2) in \<open>auto simp: neutral_def less_Suc_eq_le\<close>)

lemma neutral_instance [neutral_rules]: "neutral 0 (under MonitorMutex (skip \<union> {[AwaitReset, NewInstance]}))"
  by (rule under_orderly) (auto simp: skip_def)

text \<open>A delivery either locks the queue once, or gets stuck.\<close>

lemma neutral_delivery [neutral_rules]: "neutral 0 (deliverFrame_locks again)"
proof (cases again)
  case 0
  then show ?thesis by (simp, intro neutral_rules; simp)
next
  case (Suc k)
  have "\<exists>as. b = [] \<or> b = Lock FrameQueueMutex # as" if "b \<in> deliverFrame_locks k" for b
    using that by (cases k) (auto simp: skip_def under_def)
  then show ?thesis unfolding Suc deliverFrame_locks.simps
    by (intro under_orderly) (simp, fastforce)
qed

lemma neutral_repeatedly [neutral_rules]:
  assumes "neutral n A"
  shows "neutral n (repeatedly A)"
proof -
  have "\<forall>held as. (\<forall>h \<in> held. rank h < n) \<longrightarrow> orderly held as \<longrightarrow> orderly held (a @ as)" if "a \<in> repeatedly A" for a
    using that assms by induction (auto simp: neutral_def)
  then show ?thesis by (auto simp: neutral_def)
qed

lemma neutral_below: "neutral n A \<Longrightarrow> k \<le> n \<Longrightarrow> neutral k A"
  by (force simp: neutral_def)




section \<open>Threads that run operations\<close>

text \<open>Any number of threads, each with what it still has to do of its operation; a thread that has
  finished one may begin any other of \<open>ops\<close>.\<close>

record lock_state =
  owner :: "mutex \<Rightarrow> nat option"
  rest :: "nat \<Rightarrow> act list"
  monitor_exists :: bool

definition lock_start :: lock_state where
  "lock_start = \<lparr>owner = (\<lambda>_. None), rest = (\<lambda>_. []), monitor_exists = False\<rparr>"

inductive lock_step :: "paths \<Rightarrow> lock_state \<Rightarrow> lock_state \<Rightarrow> bool" for ops :: paths where
  takes_up: "rest s i = [] \<Longrightarrow> a \<in> ops \<Longrightarrow> lock_step ops s (s\<lparr>rest := (rest s)(i := a)\<rparr>)"
| acquires: "rest s i = Lock m # as \<Longrightarrow> owner s m = None \<Longrightarrow>
    lock_step ops s (s\<lparr>owner := (owner s)(m \<mapsto> i), rest := (rest s)(i := as)\<rparr>)"
| releases: "rest s i = Unlock m # as \<Longrightarrow> owner s m = Some i \<Longrightarrow>
    lock_step ops s (s\<lparr>owner := (owner s)(m := None), rest := (rest s)(i := as)\<rparr>)"
| awaited: "rest s i = AwaitReset # as \<Longrightarrow> \<not> monitor_exists s \<Longrightarrow> lock_step ops s (s\<lparr>rest := (rest s)(i := as)\<rparr>)"
| creates: "rest s i = NewInstance # as \<Longrightarrow>
    lock_step ops s (s\<lparr>rest := (rest s)(i := as), monitor_exists := True\<rparr>)"
| discards: "rest s i = ResetInstance # as \<Longrightarrow>
    lock_step ops s (s\<lparr>rest := (rest s)(i := as), monitor_exists := False\<rparr>)"

inductive_cases lock_stepE: "lock_step ops s t"





section \<open>Properties\<close>

definition advances :: "lock_state \<Rightarrow> nat \<Rightarrow> lock_state \<Rightarrow> bool" where
  "advances s j t \<longleftrightarrow> rest s j \<noteq> [] \<and> rest t = (rest s)(j := tl (rest s j))"









text \<open>
  One of the exceptions. A consumer that asks for the next frame from within its callback makes the
  event loop lock the queue of the injector while it holds it already (the queue is unlocked
  only after \<^verbatim>\<open>afterGetting\<close> has returned). Then this thread never goes on, and no thread
  ever gets the mutex again, so that the next \<^verbatim>\<open>sendFrame\<close> of the publisher hangs as well.
\<close>

theorem delivery_blocks_itself:
  assumes "rest s i \<in> deliverFrame_locks (Suc again)"
    and "rest s i = Lock FrameQueueMutex # Lock FrameQueueMutex # as"
    and "lock_step ops s u" and "advances s i u" and "(lock_step ops)\<^sup>*\<^sup>* u t"
  shows "owner t FrameQueueMutex = Some i \<and> rest t i = Lock FrameQueueMutex # as"
  using assms(5)
proof (induction rule: rtranclp_induct)
  case base
  have i: "rest u i = Lock FrameQueueMutex # as" using assms(2,4) by (simp add: advances_def)
  from assms(3) show ?case
  proof (cases rule: lock_step.cases)
    case (takes_up j a)
    with i assms(2) show ?thesis by (auto split: if_splits)
  next
    case (acquires j m bs)
    with i assms(2) have "j = i" by (auto split: if_splits)
    with acquires assms(2) i show ?thesis by simp
  next
    case (releases j m bs)
    with i assms(2) show ?thesis by (auto split: if_splits)
  qed (use i assms(2) in \<open>auto split: if_splits\<close>)
next
  case (step v w)
  from step.hyps(2) step.IH show ?case by (cases rule: lock_step.cases) auto
qed

section \<open>Witnesses\<close>



theorem delivery_blocks_itself_witness:
  "\<exists>u :: lock_state. rest u 0 = [Lock FrameQueueMutex, Unlock FrameQueueMutex, Unlock FrameQueueMutex] \<and>
     owner u FrameQueueMutex = Some 0"
proof -
  let ?as = "[Unlock FrameQueueMutex, Unlock FrameQueueMutex]"
  let ?a = "Lock FrameQueueMutex # Lock FrameQueueMutex # ?as"
  let ?s = "lock_start\<lparr>rest := (rest lock_start)(0 := ?a)\<rparr>"
  let ?u = "?s\<lparr>owner := (owner ?s)(FrameQueueMutex \<mapsto> 0), rest := (rest ?s)(0 := Lock FrameQueueMutex # ?as)\<rparr>"
  have path: "rest ?s 0 \<in> deliverFrame_locks (Suc 0)" by (simp add: under_def skip_def)
  have next_lock: "rest ?s 0 = ?a" by simp
  have step: "lock_step operations ?s ?u" by (rule acquires) (simp_all add: lock_start_def)
  have adv: "advances ?s 0 ?u" by (simp add: advances_def)
  note blocked = delivery_blocks_itself [OF path next_lock step adv rtranclp.rtrancl_refl]
  show ?thesis by (rule exI [of _ ?u], rule conjI, rule conjunct2 [OF blocked], rule conjunct1 [OF blocked])
qed

end
