(* ===== verification/Process_Setup.thy ===== *)
theory Process_Setup
  imports Prelude
begin

text \<open>
  What both plugins do once per process: the log handler for FFmpeg and the global
  initialisation (\<^verbatim>\<open>src/src/init.cpp\<close>), and the socket that stands for an overridden host
  address (\<^verbatim>\<open>src/src/host_override.cpp\<close>).

  The operating system and FFmpeg give arguments.
\<close>

section \<open>The log handler\<close>

text \<open>FFmpeg's levels; smaller numbers are more severe.\<close>

record av_levels =
  av_panic :: int
  av_fatal :: int
  av_error :: int
  av_warning :: int
  av_info :: int

datatype severity = SevFatal | SevError | SevWarn | SevInfo | SevDebug

definition severity_of :: "av_levels \<Rightarrow> int \<Rightarrow> severity" where
  "severity_of av level =
     (if level = av_panic av \<or> level = av_fatal av then SevFatal
      else if level = av_error av then SevError
      else if level = av_warning av then SevWarn
      else if level = av_info av then SevInfo
      else SevDebug)"

text \<open>\<^verbatim>\<open>vsnprintf\<close> into 256 bytes: what is in the buffer, and the result, which counts also the
  bytes that did not fit. A formatting error leaves the buffer unspecified (\<open>junk\<close>).\<close>

abbreviation nul :: char where
  "nul \<equiv> CHR 0x00"

definition vsnprintf :: "string \<Rightarrow> string option \<Rightarrow> string \<times> int" where
  "vsnprintf junk formatted =
     (case formatted of
        None \<Rightarrow> (junk, -1)
      | Some text \<Rightarrow> (take 255 text @ nul # drop (min 255 (length text) + 1) junk, int (length text)))"

primrec trim_len :: "string \<Rightarrow> nat \<Rightarrow> nat" where
  "trim_len buf 0 = 0"
| "trim_len buf (Suc n) = (if buf ! n = nul \<or> buf ! n = CHR 0x0A then trim_len buf n else Suc n)"

text \<open>A C string ends at its first null byte.\<close>

definition c_string :: "string \<Rightarrow> string" where
  "c_string buf = takeWhile (\<lambda>ch. ch \<noteq> nul) buf"

definition ffmpeg_log_to_ros ::
  "av_levels \<Rightarrow> bool \<Rightarrow> int \<Rightarrow> string option \<Rightarrow> string \<Rightarrow> int \<Rightarrow> string option \<Rightarrow> (severity \<times> string \<times> string) option" where
  "ffmpeg_log_to_ros av debug av_level class junk level formatted =
     (let effective_log_level = (if debug then av_info av else av_level) in
      if level > effective_log_level then None
      else
        let class_name = (case class of Some name \<Rightarrow> name | None \<Rightarrow> ''misc'');
            (buf, result) = vsnprintf junk formatted
        in if result \<le> 0 then None
           else
             let len = trim_len buf (if result \<ge> 256 then 255 else nat result) in
             if len = 0 then None
             else Some (severity_of av level, class_name, c_string (buf[len := nul])))"

definition blank :: "char \<Rightarrow> bool" where
  "blank ch \<longleftrightarrow> ch = nul \<or> ch = CHR 0x0A"

lemma trim_len_take:
  "n \<le> length buf \<Longrightarrow> take (trim_len buf n) buf = rev (dropWhile blank (rev (take n buf)))"
  by (induction n) (auto simp: take_Suc_conv_app_nth blank_def)

lemma trim_len_le: "trim_len buf n \<le> n"
  by (induction n) (auto intro: le_SucI)

lemma takeWhile_stop: "\<not> P x \<Longrightarrow> takeWhile P (xs @ x # ys) = takeWhile P xs"
  by (induction xs) auto

lemma c_string_cut:
  assumes "n < length buf"
  shows "c_string (buf[n := nul]) = c_string (take n buf)"
proof -
  have "buf[n := nul] = take n buf @ nul # drop (Suc n) buf"
    using assms by (simp add: upd_conv_take_nth_drop)
  then show ?thesis by (simp add: c_string_def takeWhile_stop)
qed

text \<open>
  What is logged. A message of FFmpeg that is severe enough is logged with the class that it
  comes from, cut to 255 characters, without the line ends and null bytes behind it and up to
  its first null byte; a message that is empty then is not logged.
\<close>

theorem log_message:
  assumes "length junk = 256" and "level \<le> (if debug then av_info av else av_level)"
    and bd: "body = rev (dropWhile blank (rev (take 255 text)))"
  shows "ffmpeg_log_to_ros av debug av_level class junk level (Some text) =
    (if body = [] then None
     else Some (severity_of av level, (case class of Some name \<Rightarrow> name | None \<Rightarrow> ''misc''), c_string body))"
proof -
  define n where "n = min 255 (length text)"
  define buf where "buf = take 255 text @ nul # drop (n + 1) junk"
  have n: "n \<le> 255" "take n buf = take 255 text" "n < length buf"
    by (auto simp: n_def buf_def min_def)
  have body: "take (trim_len buf n) buf = body"
    using trim_len_take [of n buf] n(2,3) bd by simp
  have lt: "trim_len buf n < length buf" using trim_len_le [of buf n] n(3) by simp
  have len: "trim_len buf n = length body" using arg_cong [OF body, of length] lt by simp
  have cut: "c_string (buf[length body := nul]) = c_string body"
    using c_string_cut [OF lt] body len by simp
  have r: "(if int (length text) \<ge> 256 then 255 else nat (int (length text))) = n"
    by (auto simp: n_def)
  show ?thesis
  proof (cases "text = []")
    case True
    with assms(2) bd show ?thesis by (simp add: ffmpeg_log_to_ros_def vsnprintf_def Let_def)
  next
    case False
    then have pos: "\<not> int (length text) \<le> 0" by simp
    have v: "vsnprintf junk (Some text) = (buf, int (length text))"
      by (simp add: vsnprintf_def buf_def n_def)
    show ?thesis
      using assms(2) pos len cut unfolding ffmpeg_log_to_ros_def Let_def v prod.case r by auto
  qed
qed

definition ffmpeg_levels :: av_levels where
  "ffmpeg_levels = \<lparr>av_panic = 0, av_fatal = 8, av_error = 16, av_warning = 24, av_info = 32\<rparr>"

theorem log_message_witness:
  "ffmpeg_log_to_ros ffmpeg_levels False 16 (Some ''libx264'') (replicate 256 CHR ''?'') 16
     (Some (''bad'' @ [CHR 0x0A])) = Some (SevError, ''libx264'', ''bad'')"
proof -
  have "''bad'' = rev (dropWhile blank (rev (take 255 (''bad'' @ [CHR 0x0A]))))" by (simp add: blank_def)
  from log_message [OF _ _ this, of "replicate 256 CHR ''?''" 16 False ffmpeg_levels 16 "Some ''libx264''"]
  show ?thesis by (simp add: ffmpeg_levels_def severity_of_def c_string_def)
qed

section \<open>The socket of an overridden host\<close>

text \<open>What \<^verbatim>\<open>socket\<close> and \<^verbatim>\<open>bind\<close> return for an address that the name stands for.\<close>

record candidate =
  c_socket :: int
  c_bind :: int

text \<open>The loop, with the descriptors that are open.\<close>

fun bind_loop :: "candidate list \<Rightarrow> int \<Rightarrow> int set \<Rightarrow> int \<times> int set" where
  "bind_loop [] sock opened = (sock, opened)"
| "bind_loop (cur # rest) _ opened =
     (let sock = c_socket cur in
      if sock < 0 then bind_loop rest sock opened
      else if c_bind cur \<ge> 0 then (sock, insert sock opened)
      else bind_loop rest (-1) ((insert sock opened) - {sock}))"

text \<open>\<open>resolve numeric name\<close> is \<^verbatim>\<open>getaddrinfo\<close>, \<open>None\<close> when it fails.\<close>

definition create_host_override_socket ::
  "(bool \<Rightarrow> string \<Rightarrow> candidate list option) \<Rightarrow> string option \<Rightarrow> bool \<Rightarrow> int set \<Rightarrow> int \<times> int set" where
  "create_host_override_socket resolve node numeric opened =
     (case node of
        None \<Rightarrow> (-1, opened)
      | Some name \<Rightarrow>
          (case resolve numeric name of
             None \<Rightarrow> (-1, opened)
           | Some results \<Rightarrow> bind_loop results (-1) opened))"

definition usable :: "candidate \<Rightarrow> bool" where
  "usable c \<longleftrightarrow> c_socket c \<ge> 0 \<and> c_bind c \<ge> 0"

lemma bind_loop_finds:
  assumes "\<forall>c \<in> set cs. c_socket c \<notin> opened" and "sock < 0"
  shows "case List.find usable cs of
      Some c \<Rightarrow> bind_loop cs sock opened = (c_socket c, insert (c_socket c) opened)
    | None \<Rightarrow> \<exists>n<0. bind_loop cs sock opened = (n, opened)"
  using assms
proof (induction cs arbitrary: sock)
  case (Cons c cs)
  have shut: "insert (c_socket c) opened - {c_socket c} = opened" using Cons.prems(1) by simp
  show ?case
  proof (cases "c_socket c < 0")
    case True
    then have "bind_loop (c # cs) sock opened = bind_loop cs (c_socket c) opened" "\<not> usable c"
      by (simp_all add: usable_def)
    with Cons.IH [of "c_socket c"] Cons.prems(1) True show ?thesis by (cases "List.find usable cs") simp_all
  next
    case False
    show ?thesis
    proof (cases "usable c")
      case True
      with False show ?thesis by (simp add: usable_def Let_def)
    next
      case unusable: False
      with False shut have "bind_loop (c # cs) sock opened = bind_loop cs (-1) opened"
        by (simp add: usable_def Let_def)
      with Cons.IH [of "-1"] Cons.prems(1) unusable show ?thesis by (cases "List.find usable cs") simp_all
    qed
  qed
qed simp

text \<open>
  The override socket. It is the first of the addresses that can be bound, and no descriptor
  is left open beside it; the result is negative exactly if the name cannot be resolved or no
  address can be bound, and then nothing is left open. (The system never gives out a
  descriptor that is open.)
\<close>

theorem override_socket:
  assumes "\<And>cs c. resolve numeric name = Some cs \<Longrightarrow> c \<in> set cs \<Longrightarrow> c_socket c \<notin> opened"
    and "create_host_override_socket resolve (Some name) numeric opened = (sock, opened')"
  shows "case Option.bind (resolve numeric name) (List.find usable) of
      Some c \<Rightarrow> sock = c_socket c \<and> sock \<ge> 0 \<and> opened' = insert sock opened
    | None \<Rightarrow> sock < 0 \<and> opened' = opened"
proof (cases "resolve numeric name")
  case None
  with assms(2) show ?thesis by (simp add: create_host_override_socket_def)
next
  case (Some cs)
  have loop: "bind_loop cs (-1) opened = (sock, opened')"
    using assms(2) Some by (simp add: create_host_override_socket_def)
  have ok: "\<forall>c \<in> set cs. c_socket c \<notin> opened" using assms(1) Some by blast
  have found: "c_socket c \<ge> 0" if "List.find usable cs = Some c" for c
    using that by (auto simp: find_Some_iff usable_def)
  from bind_loop_finds [OF ok, of "-1"] loop found Some show ?thesis
    by (auto split: option.splits)
qed

theorem override_socket_witness:
  "case create_host_override_socket (\<lambda>_ _. Some [\<lparr>c_socket = -1, c_bind = 0\<rparr>, \<lparr>c_socket = 5, c_bind = -1\<rparr>,
      \<lparr>c_socket = 5, c_bind = 0\<rparr>]) (Some ''robot'') False {3} of (sock, opened) \<Rightarrow> sock = 5 \<and> opened = {3, 5}"
proof -
  let ?resolve = "\<lambda>_ _. Some [\<lparr>c_socket = -1, c_bind = 0\<rparr>, \<lparr>c_socket = 5, c_bind = -1\<rparr>, \<lparr>c_socket = 5, c_bind = 0\<rparr>]"
  obtain sock opened where r: "create_host_override_socket ?resolve (Some ''robot'') False {3} = (sock, opened)"
    by (rule prod.exhaust)
  have fresh: "c_socket c \<notin> {3}" if "?resolve False ''robot'' = Some cs" "c \<in> set cs" for cs c
    using that by auto
  have "Option.bind (?resolve False ''robot'') (List.find usable) = Some \<lparr>c_socket = 5, c_bind = 0\<rparr>"
    by (simp add: usable_def)
  with override_socket [where resolve = ?resolve, OF fresh r] r show ?thesis by auto
qed

section \<open>Its address\<close>

datatype sockaddr = Inet "byte list" | Inet6 "byte list" | OtherFamily

definition addressBits :: "sockaddr \<Rightarrow> byte list option" where
  "addressBits sa = (case sa of Inet bits \<Rightarrow> Some bits | Inet6 bits \<Rightarrow> Some bits | OtherFamily \<Rightarrow> None)"

text \<open>\<open>inet_ntop\<close> gives no text for a family that it does not know.\<close>

definition socket_bound_address ::
  "(int \<Rightarrow> sockaddr) \<Rightarrow> (sockaddr \<Rightarrow> byte list option \<Rightarrow> string option) \<Rightarrow> int \<Rightarrow> string" where
  "socket_bound_address getsockname inet_ntop sock =
     (let sa = getsockname sock in case inet_ntop sa (addressBits sa) of Some ip_addr \<Rightarrow> ip_addr | None \<Rightarrow> [])"

section \<open>Global initialisation\<close>

record process =
  initialised :: bool
  log_callback :: bool
  av_log_level :: int
  ros_interface_socket :: int
  descriptors :: "int set"

definition new_process :: "int set \<Rightarrow> int \<Rightarrow> process" where
  "new_process fds level =
     \<lparr>initialised = False, log_callback = False, av_log_level = level, ros_interface_socket = -1,
      descriptors = fds\<rparr>"

definition do_global_initialize ::
  "av_levels \<Rightarrow> (bool \<Rightarrow> string \<Rightarrow> candidate list option) \<Rightarrow> (string \<Rightarrow> string option) \<Rightarrow> process \<Rightarrow> process" where
  "do_global_initialize av resolve getenv p =
     (let p1 = p\<lparr>log_callback := True, av_log_level := av_error av\<rparr> in
      case getenv ''ROS_HOSTNAME'' of
        Some node \<Rightarrow>
          (case create_host_override_socket resolve (Some node) False (descriptors p1) of (sock, fds) \<Rightarrow>
             p1\<lparr>ros_interface_socket := sock, descriptors := fds\<rparr>)
      | None \<Rightarrow>
          (case getenv ''ROS_IP'' of
             Some node \<Rightarrow>
               (case create_host_override_socket resolve (Some node) True (descriptors p1) of (sock, fds) \<Rightarrow>
                  p1\<lparr>ros_interface_socket := sock, descriptors := fds\<rparr>)
           | None \<Rightarrow> p1))"

definition global_initialize ::
  "av_levels \<Rightarrow> (bool \<Rightarrow> string \<Rightarrow> candidate list option) \<Rightarrow> (string \<Rightarrow> string option) \<Rightarrow> process \<Rightarrow> process" where
  "global_initialize av resolve getenv p =
     (if initialised p then p else (do_global_initialize av resolve getenv p)\<lparr>initialised := True\<rparr>)"

text \<open>
  Once is enough. However many plugins a process loads, it is initialised as by the first of
  them: at most one socket is opened for the host that \<^verbatim>\<open>ROS_HOSTNAME\<close> or, if that is not
  set, \<^verbatim>\<open>ROS_IP\<close> names, and later calls change nothing.
\<close>

theorem initialize_once:
  "(global_initialize av resolve getenv ^^ Suc n) p = global_initialize av resolve getenv p \<and>
   ros_interface_socket (global_initialize av resolve getenv (new_process fds level)) =
     (case (getenv ''ROS_HOSTNAME'', getenv ''ROS_IP'') of
        (Some node, _) \<Rightarrow> fst (create_host_override_socket resolve (Some node) False fds)
      | (None, Some node) \<Rightarrow> fst (create_host_override_socket resolve (Some node) True fds)
      | (None, None) \<Rightarrow> -1)"
proof
  have flag: "initialised (global_initialize av resolve getenv q)" for q
    by (simp add: global_initialize_def)
  then have again: "global_initialize av resolve getenv (global_initialize av resolve getenv q) =
      global_initialize av resolve getenv q" for q
    by (simp add: global_initialize_def [of av resolve getenv "global_initialize av resolve getenv q"])
  show "(global_initialize av resolve getenv ^^ Suc n) p = global_initialize av resolve getenv p"
    by (induction n) (simp_all add: again)
  show "ros_interface_socket (global_initialize av resolve getenv (new_process fds level)) =
     (case (getenv ''ROS_HOSTNAME'', getenv ''ROS_IP'') of
        (Some node, _) \<Rightarrow> fst (create_host_override_socket resolve (Some node) False fds)
      | (None, Some node) \<Rightarrow> fst (create_host_override_socket resolve (Some node) True fds)
      | (None, None) \<Rightarrow> -1)"
    by (simp add: global_initialize_def do_global_initialize_def new_process_def Let_def split: option.split prod.split)
qed

end
