(* ===== verification/Server_Subsession.thy ===== *)
theory Server_Subsession
  imports Stream_Server
begin

text \<open>
  The media subsessions of the server (\<^verbatim>\<open>src/src/stream_server.cpp\<close>): the objects through which
  live555 calls back. A \<^verbatim>\<open>UnicastServerMediaSubsession\<close> keeps a \<^verbatim>\<open>weak_ptr\<close> to the server, so
  a callback may find that the server is gone; and it keeps the flag \<^verbatim>\<open>dummy_session_\<close>, which
  is set while live555 makes a source and a sink only to describe the stream.

  What the base classes do in \<^verbatim>\<open>sdpLines\<close> belongs to live555 and is an argument (\<open>base\<close>).
\<close>

section \<open>The classes\<close>

definition ESTIMATED_BITRATE :: nat where "ESTIMATED_BITRATE = 500"

text \<open>
  \<open>server_ref\<close> is what \<^verbatim>\<open>server_.lock()\<close> yields. Of the past, \<open>handed_out\<close> lists the sources that
  live555 got, and \<open>given_back\<close> those that it gave back, which the base class destroys.
\<close>

record unicast =
  server_ref :: "server option"
  reuse_first_source :: bool
  initial_port_num :: "16 word"
  dummy_session :: bool
  fSDPLines :: "string option"
  handed_out :: "nat list"
  given_back :: "nat list"

definition UnicastServerMediaSubsession :: "server \<Rightarrow> 16 word \<Rightarrow> unicast" where
  "UnicastServerMediaSubsession s port =
     \<lparr>server_ref = Some s, reuse_first_source = True, initial_port_num = port, dummy_session = False,
      fSDPLines = None, handed_out = [], given_back = []\<rparr>"

definition with_server :: "(server \<Rightarrow> 'a \<times> server) \<Rightarrow> 'a \<Rightarrow> unicast \<Rightarrow> 'a \<times> unicast" where
  "with_server f otherwise u =
     (case server_ref u of
        None \<Rightarrow> (otherwise, u)
      | Some s \<Rightarrow> (case f s of (x, s') \<Rightarrow> (x, u\<lparr>server_ref := Some s'\<rparr>)))"

definition uni_createNewRTPSink :: "build \<Rightarrow> unicast \<Rightarrow> rtp_sink option \<times> unicast" where
  "uni_createNewRTPSink b u = with_server (createNewRTPSink b (dummy_session u)) None u"

text \<open>The source, and the bitrate that the reference argument holds afterwards.\<close>

definition uni_createNewStreamSource :: "build \<Rightarrow> nat \<Rightarrow> unicast \<Rightarrow> (nat option \<times> nat) \<times> unicast" where
  "uni_createNewStreamSource b estBitrate u =
     (case with_server (\<lambda>s. case createNewStreamSource b (dummy_session u) s of
              (source, s') \<Rightarrow> ((source, ESTIMATED_BITRATE), s'))
            (None, estBitrate) u of
        ((source, bitrate), v) \<Rightarrow>
          ((source, bitrate), v\<lparr>handed_out := handed_out v @ (case source of None \<Rightarrow> [] | Some src \<Rightarrow> [src])\<rparr>))"

definition uni_closeStreamSource :: "nat \<Rightarrow> unicast \<Rightarrow> unicast" where
  "uni_closeStreamSource source u =
     (let u1 = snd (with_server (\<lambda>s. ((), closeStreamSource source s)) () u)
      in u1\<lparr>given_back := given_back u1 @ [source]\<rparr>)"

definition uni_sdpLines ::
  "(rtp_sink \<Rightarrow> string) \<Rightarrow> (unicast \<Rightarrow> string option \<times> unicast) \<Rightarrow> unicast \<Rightarrow> string option \<times> unicast" where
  "uni_sdpLines setSDPLinesFromRTPSink base u =
     (let u1 = (case Option.bind (server_ref u) rtp_sink of
                  Some k \<Rightarrow> u\<lparr>fSDPLines := Some (setSDPLinesFromRTPSink k)\<rparr>
                | None \<Rightarrow> u)
      in case base (u1\<lparr>dummy_session := True\<rparr>) of
           (lines, u2) \<Rightarrow> (lines, u2\<lparr>dummy_session := False\<rparr>))"

text \<open>The multicast subsession has no state of its own, only the lines of the base class.\<close>

record multicast =
  m_sink :: rtp_sink
  pSDPLines :: "string option"

definition MulticastServerMediaSubsession :: "rtp_sink \<Rightarrow> multicast" where
  "MulticastServerMediaSubsession k = \<lparr>m_sink = k, pSDPLines = None\<rparr>"

definition multi_sdpLines :: "(multicast \<Rightarrow> string option \<times> multicast) \<Rightarrow> multicast \<Rightarrow> string option \<times> multicast" where
  "multi_sdpLines base m = base (m\<lparr>pSDPLines := None\<rparr>)"

text \<open>\<^verbatim>\<open>~StreamServer\<close>; closing the RTSP server of live555 ends every session that is left.\<close>

definition destroy_StreamServer :: "server \<Rightarrow> server" where
  "destroy_StreamServer s = (stop s)\<lparr>sessions := []\<rparr>"

text \<open>Then the references of the subsessions have expired.\<close>

definition server_gone :: "unicast \<Rightarrow> unicast" where
  "server_gone u = u\<lparr>server_ref := None\<rparr>"

section \<open>What live555 does\<close>

text \<open>
  The base class works through the callbacks, and gives back only sources that it got: this is
  all that is assumed of it. \<open>live_calls b owned calls u\<close> plays calls of a base class that has
  the sources \<open>owned\<close>.
\<close>

datatype callback = AskSource nat | AskSink | GiveBack nat

primrec live_calls :: "build \<Rightarrow> nat list \<Rightarrow> callback list \<Rightarrow> unicast \<Rightarrow> unicast option" where
  "live_calls b owned [] u = Some u"
| "live_calls b owned (c # cs) u =
     (case c of
        AskSource bitrate \<Rightarrow>
          (case uni_createNewStreamSource b bitrate u of
             ((source, _), v) \<Rightarrow>
               live_calls b (case source of None \<Rightarrow> owned | Some src \<Rightarrow> src # owned) cs v)
      | AskSink \<Rightarrow> live_calls b owned cs (snd (uni_createNewRTPSink b u))
      | GiveBack source \<Rightarrow>
          if source \<in> set owned
          then live_calls b (removeAll source owned) cs (uni_closeStreamSource source u)
          else None)"

definition fair_base :: "build \<Rightarrow> (unicast \<Rightarrow> string option \<times> unicast) \<Rightarrow> bool" where
  "fair_base b base \<longleftrightarrow>
     (\<forall>u. \<exists>calls v lines. live_calls b [] calls u = Some v \<and> snd (base u) = v\<lparr>fSDPLines := lines\<rparr>)"

section \<open>Describing a stream\<close>

text \<open>What matters to the clients of \<open>s\<close> is the same in \<open>t\<close>.\<close>

definition undisturbed :: "server \<Rightarrow> server \<Rightarrow> bool" where
  "undisturbed s t \<longleftrightarrow>
     streams t = streams s \<and> (\<forall>p \<in> snd ` set (streams s). injectors t p = injectors s p) \<and>
     sms t = sms s \<and> sessions t = sessions s \<and> s_codec t = s_codec s \<and> s_url t = s_url s \<and>
     udp_packet_size t = udp_packet_size s \<and>
     (rtp_sink t = rtp_sink s \<or> streams s = [] \<and> rtp_sink t = None)"

lemma undisturbed_refl [simp]: "undisturbed s s"
  by (simp add: undisturbed_def)

lemma undisturbed_trans: "undisturbed s t \<Longrightarrow> undisturbed t u \<Longrightarrow> undisturbed s u"
  by (auto simp: undisturbed_def)

definition sources_below :: "nat \<Rightarrow> server \<Rightarrow> bool" where
  "sources_below n s \<longleftrightarrow> n \<le> next_addr s \<and> (\<forall>(source, p) \<in> set (streams s). source < n \<and> p < n)"

lemma new_source_undisturbed:
  assumes "sources_below n s" and "new_source framer s = ((src, p), t)"
  shows "undisturbed s t \<and> sources_below n t \<and> n \<le> src \<and> p \<notin> snd ` set (streams t)"
proof -
  have lt: "q < next_addr s" if "q \<in> snd ` set (streams s)" for q
    using that assms(1) by (fastforce simp: sources_below_def)
  then show ?thesis
    using assms by (fastforce simp: new_source_def Let_def undisturbed_def sources_below_def split: if_splits)
qed

lemma dummy_source_undisturbed:
  assumes "sources_below n s" and "createNewStreamSource b True s = (r, t)"
  shows "undisturbed s t \<and> sources_below n t \<and> (\<forall>src. r = Some src \<longrightarrow> n \<le> src)"
proof (cases "createDiscreteFramer b (s_codec s)")
  case (Some framer)
  obtain src p u where u: "new_source framer s = ((src, p), u)" by (metis prod.exhaust)
  from new_source_undisturbed [OF assms(1) u] assms(2) Some u show ?thesis
    by (auto simp: createNewStreamSource_def)
next
  case None
  obtain src p u where u: "new_source Direct s = ((src, p), u)" by (metis prod.exhaust)
  note new = new_source_undisturbed [OF assms(1) u]
  have t: "r = None" "t = on_injector p inj_shutdown u"
    using assms(2) None u by (simp_all add: createNewStreamSource_def)
  have "undisturbed u t" using new by (auto simp: t undisturbed_def)
  moreover have "sources_below n t" using new by (simp add: t sources_below_def)
  ultimately show ?thesis using new t(1) undisturbed_trans by auto
qed

lemma dummy_sink_undisturbed: "snd (createNewRTPSink b True s) = s"
  by (simp add: createNewRTPSink_def Let_def)

lemma close_undisturbed:
  assumes "sources_below n s" and "n \<le> src"
  shows "undisturbed s (closeStreamSource src s) \<and> sources_below n (closeStreamSource src s)"
proof -
  have "map_of (streams s) src = None"
    using assms by (fastforce simp: map_of_eq_None_iff sources_below_def)
  with assms(1) show ?thesis
    by (simp add: closeStreamSource_def Let_def undisturbed_def sources_below_def)
qed

text \<open>The subsession during the description: the dummy flag is set, and its server is fine.\<close>

definition describing :: "nat \<Rightarrow> server \<Rightarrow> unicast \<Rightarrow> bool" where
  "describing n s u \<longleftrightarrow> dummy_session u \<and>
     (\<exists>t. server_ref u = Some t \<and> undisturbed s t \<and> sources_below n t)"

lemma describing_calls:
  assumes "describing n s u" and "\<forall>src \<in> set owned. n \<le> src" and "live_calls b owned calls u = Some v"
  shows "describing n s v"
  using assms
proof (induction calls arbitrary: owned u)
  case (Cons c cs)
  obtain t where d: "dummy_session u" and t: "server_ref u = Some t" "undisturbed s t" "sources_below n t"
    using Cons.prems(1) by (auto simp: describing_def)
  show ?case
  proof (cases c)
    case (AskSource bitrate)
    obtain r t' where r: "createNewStreamSource b True t = (r, t')" by (metis prod.exhaust)
    let ?u = "u\<lparr>server_ref := Some t', handed_out := handed_out u @ (case r of None \<Rightarrow> [] | Some src \<Rightarrow> [src])\<rparr>" and ?o = "case r of None \<Rightarrow> owned | Some src \<Rightarrow> src # owned"
    note new = dummy_source_undisturbed [OF t(3) r]
    have "describing n s ?u" using new t d undisturbed_trans by (auto simp: describing_def)
    moreover have "\<forall>src \<in> set ?o. n \<le> src" using new Cons.prems(2) by (cases r) auto
    moreover have "live_calls b ?o cs ?u = Some v"
      using Cons.prems(3) AskSource r d t(1)
      by (simp add: uni_createNewStreamSource_def with_server_def)
    ultimately show ?thesis by (rule Cons.IH)
  next
    case AskSink
    obtain k where "createNewRTPSink b True t = (k, t)"
      using dummy_sink_undisturbed [of b t] by (metis prod.collapse)
    with d t have "snd (uni_createNewRTPSink b u) = u"
      by (simp add: uni_createNewRTPSink_def with_server_def)
    with AskSink Cons.prems show ?thesis by (auto intro: Cons.IH)
  next
    case (GiveBack src)
    with Cons.prems have src: "src \<in> set owned"
      "live_calls b (removeAll src owned) cs (uni_closeStreamSource src u) = Some v"
      by (simp_all split: if_splits)
    have "n \<le> src" using src(1) Cons.prems(2) by blast
    with close_undisturbed [OF t(3)] have "describing n s (uni_closeStreamSource src u)"
      using t d undisturbed_trans
      by (auto simp: describing_def uni_closeStreamSource_def with_server_def Let_def)
    moreover have "\<forall>x \<in> set (removeAll src owned). n \<le> x" using Cons.prems(2) by simp
    ultimately show ?thesis using src(2) by (rule Cons.IH)
  qed
qed simp


text \<open>A base class as live555 documents it: it describes the stream once, by dummy objects.\<close>

definition documented_base :: "build \<Rightarrow> (rtp_sink \<Rightarrow> string) \<Rightarrow> unicast \<Rightarrow> string option \<times> unicast" where
  "documented_base b lines_of u =
     (if fSDPLines u \<noteq> None then (fSDPLines u, u)
      else case uni_createNewStreamSource b 0 u of
             ((None, _), v) \<Rightarrow> (None, v)
           | ((Some src, _), v) \<Rightarrow>
               (case uni_createNewRTPSink b v of
                  (k, w) \<Rightarrow> (map_option lines_of k, (uni_closeStreamSource src w)\<lparr>fSDPLines := map_option lines_of k\<rparr>)))"

lemma documented_fair: "fair_base b (documented_base b lines_of)"
  unfolding fair_base_def
proof
  fix u
  let ?u = "snd (documented_base b lines_of u)"
  obtain source rate v where v: "uni_createNewStreamSource b 0 u = ((source, rate), v)" by (metis prod.exhaust)
  obtain k w where w: "uni_createNewRTPSink b v = (k, w)" by (metis prod.exhaust)
  have "\<exists>calls x. live_calls b [] calls u = Some x \<and> (\<exists>lines. ?u = x\<lparr>fSDPLines := lines\<rparr>)"
  proof (cases "fSDPLines u")
    case (Some l)
    then have "?u = u\<lparr>fSDPLines := Some l\<rparr>" by (simp add: documented_base_def)
    moreover have "live_calls b [] [] u = Some u" by simp
    ultimately show ?thesis by blast
  next
    case None
    show ?thesis
    proof (cases source)
      case src: None
      then have "?u = v\<lparr>fSDPLines := fSDPLines v\<rparr>" by (simp add: documented_base_def None v)
      moreover have "live_calls b [] [AskSource 0] u = Some v" by (simp add: v src)
      ultimately show ?thesis by blast
    next
      case src: (Some src)
      then have "?u = (uni_closeStreamSource src w)\<lparr>fSDPLines := map_option lines_of k\<rparr>"
        by (simp add: documented_base_def None v w)
      moreover have "live_calls b [] [AskSource 0, AskSink, GiveBack src] u = Some (uni_closeStreamSource src w)"
        by (simp add: v w src)
      ultimately show ?thesis by blast
    qed
  qed
  then show "\<exists>calls v lines. live_calls b [] calls u = Some v \<and> ?u = v\<lparr>fSDPLines := lines\<rparr>" by blast
qed

section \<open>Properties\<close>

text \<open>
  C15: describing the stream to a new client disturbs no other client. Whatever sources and sinks
  live555 makes and gives back for it, afterwards the server plays the same streams, to the
  same injectors in the same state, has the same session, and the sink of the stream that is
  played; and the subsession is ready for real clients.
\<close>

theorem describing_disturbs_no_client:
  assumes "reachable_server b s" and "server_ref u = Some s" and "fair_base b base"
  shows "\<exists>t. server_ref (snd (uni_sdpLines lines_of base u)) = Some t \<and>
    \<not> dummy_session (snd (uni_sdpLines lines_of base u)) \<and>
    streams t = streams s \<and> (\<forall>p \<in> snd ` set (streams s). injectors t p = injectors s p) \<and>
    sms t = sms s \<and> sessions t = sessions s \<and> s_codec t = s_codec s \<and>
    (hasActiveStreams s \<longrightarrow> rtp_sink t = rtp_sink s)"
proof -
  define u1 where "u1 = (case rtp_sink s of Some k \<Rightarrow> u\<lparr>fSDPLines := Some (lines_of k)\<rparr> | None \<Rightarrow> u)
    \<lparr>dummy_session := True\<rparr>"
  have u1: "server_ref u1 = Some s" "dummy_session u1"
    using assms(2) by (simp_all add: u1_def split: option.split)
  have run: "uni_sdpLines lines_of base u = (fst (base u1), (snd (base u1))\<lparr>dummy_session := False\<rparr>)"
    using assms(2) by (auto simp: uni_sdpLines_def u1_def Let_def split: prod.split option.split)
  obtain calls v lines where v: "live_calls b [] calls u1 = Some v" "snd (base u1) = v\<lparr>fSDPLines := lines\<rparr>"
    using assms(3) unfolding fair_base_def by blast
  have "sources_below (next_addr s) s"
    using reachable_server_inv [OF assms(1)] by (auto simp: sources_below_def srv_inv_defs)
  then have "describing (next_addr s) s u1" using u1 by (simp add: describing_def)
  from describing_calls [OF this _ v(1)]
  obtain t where "server_ref v = Some t" "undisturbed s t" by (auto simp: describing_def)
  then show ?thesis
    by (intro exI [of _ t]) (auto simp: run v(2) undisturbed_def hasActiveStreams_def)
qed

text \<open>
  The two models of the description agree: with a base class that describes a stream once, the
  subsession leaves the server as \<open>sdpLines\<close> says, and it describes the sink of the stream that
  is played whatever it described before.
\<close>

theorem sdpLines_agree:
  assumes "server_ref u = Some s"
  shows "server_ref (snd (uni_sdpLines lines_of (documented_base b lines_of) u)) =
      Some (snd (sdpLines b (fSDPLines u \<noteq> None) s)) \<and>
    (\<forall>k. fst (sdpLines b (fSDPLines u \<noteq> None) s) = Some k \<longrightarrow>
       fst (uni_sdpLines lines_of (documented_base b lines_of) u) = Some (lines_of k))"
proof (cases "rtp_sink s")
  case (Some k)
  with assms show ?thesis by (simp add: uni_sdpLines_def documented_base_def sdpLines_def)
next
  case None
  obtain source t where t: "createNewStreamSource b True s = (source, t)" by (metis prod.exhaust)
  obtain k w where w: "createNewRTPSink b True t = (k, w)" by (metis prod.exhaust)
  show ?thesis
    using assms None t w
    by (cases source) (simp_all add: uni_sdpLines_def documented_base_def sdpLines_def uni_createNewStreamSource_def
        uni_createNewRTPSink_def uni_closeStreamSource_def with_server_def Let_def)
qed

text \<open>
  Callbacks that come too late. When the server is gone, no source and no sink are made, and
  a source that live555 still has is given back all the same.
\<close>

theorem callbacks_without_server:
  "fst (uni_createNewRTPSink b (server_gone u)) = None \<and>
   fst (uni_createNewStreamSource b rate (server_gone u)) = (None, rate) \<and>
   snd (uni_createNewRTPSink b (server_gone u)) = server_gone u \<and>
   snd (uni_createNewStreamSource b rate (server_gone u)) = server_gone u \<and>
   uni_closeStreamSource src (server_gone u) = (server_gone u)\<lparr>given_back := given_back u @ [src]\<rparr>"
  by (simp add: uni_createNewRTPSink_def uni_createNewStreamSource_def uni_closeStreamSource_def
      with_server_def server_gone_def Let_def)

text \<open>
  The end of the server. Its destructor leaves no stream and no session behind, and the
  injector of every stream is shut down.
\<close>

theorem destroy_complete:
  assumes "reachable_server b s"
  shows "\<not> hasActiveStreams (destroy_StreamServer s) \<and> sessions (destroy_StreamServer s) = [] \<and>
    (\<forall>p \<in> snd ` set (streams s). is_shutdown (injectors (destroy_StreamServer s) p))"
  using reachable_server_inv [OF assms]
  by (auto simp: destroy_StreamServer_def hasActiveStreams_def srv_inv_defs injectors_stop inj_shutdown_def)

text \<open>The multicast session never answers with lines that it kept from before.\<close>

lemma multi_sdpLines_fresh: "multi_sdpLines base (m\<lparr>pSDPLines := lines\<rparr>) = multi_sdpLines base m"
  by (simp add: multi_sdpLines_def)

section \<open>New sources\<close>

text \<open>From \<open>s\<close> to \<open>t\<close>, sources were only added that have new addresses.\<close>

definition grows :: "server \<Rightarrow> server \<Rightarrow> bool" where
  "grows s t \<longleftrightarrow> next_addr s \<le> next_addr t \<and>
     (\<forall>x \<in> set (streams t). x \<in> set (streams s) \<or> next_addr s \<le> fst x)"

lemma grows_refl [simp]: "grows s s"
  by (simp add: grows_def)

lemma grows_trans: "grows s t \<Longrightarrow> grows t u \<Longrightarrow> grows s u"
  unfolding grows_def by (meson order.trans)

lemma same_streams_grow: "streams t = streams s \<Longrightarrow> next_addr t = next_addr s \<Longrightarrow> grows s t"
  by (simp add: grows_def)

lemma stop_grows: "grows s (stop s)"
  by (simp add: grows_def)

lemma add_session_grows: "grows s (add_session kind s)"
  by (simp add: grows_def add_session_def Let_def)

lemma new_source_grows:
  assumes "new_source framer s = ((src, p), t)"
  shows "grows s t \<and> grows s (newStreamSource src p t) \<and> next_addr s \<le> src \<and> src < next_addr t"
  using assms by (auto simp: new_source_def Let_def grows_def newStreamSource_def split: if_splits)

lemma createNewStreamSource_grows:
  assumes "createNewStreamSource b dummy s = (r, t)"
  shows "grows s t \<and> (\<forall>src. r = Some src \<longrightarrow> next_addr s \<le> src \<and> src < next_addr t)"
proof (cases "createDiscreteFramer b (s_codec s)")
  case (Some framer)
  obtain src p u where u: "new_source framer s = ((src, p), u)" by (metis prod.exhaust)
  from new_source_grows [OF u] assms Some u show ?thesis
    by (auto simp: createNewStreamSource_def newStreamSource_def split: if_splits)
next
  case None
  obtain src p u where u: "new_source Direct s = ((src, p), u)" by (metis prod.exhaust)
  from new_source_grows [OF u] assms None u show ?thesis
    by (auto simp: createNewStreamSource_def grows_def)
qed

lemma createNewRTPSink_grows: "grows s (snd (createNewRTPSink b dummy s))"
  by (simp add: createNewRTPSink_def Let_def grows_def)

lemma closeStreamSource_grows: "grows s (closeStreamSource src s)"
  by (auto simp: closeStreamSource_def Let_def grows_def split: option.split)

lemma closed_is_gone: "src \<notin> fst ` set (streams (closeStreamSource src s))"
  by (auto simp: closeStreamSource_def Let_def map_of_eq_None_iff split: option.split)

lemma sdpLines_grows: "grows s (snd (sdpLines b cached s))"
proof -
  obtain r t where t: "createNewStreamSource b True s = (r, t)" by (metis prod.exhaust)
  have "grows s (closeStreamSource src (snd (createNewRTPSink b True t)))" for src
    using createNewStreamSource_grows [OF t] createNewRTPSink_grows closeStreamSource_grows grows_trans by blast
  with createNewStreamSource_grows [OF t] t show ?thesis
    by (simp add: sdpLines_def split: option.split)
qed

lemma start_grows: "wp (start b e codec use_multicast) (\<lambda>_. grows s) (\<lambda>_. grows s) s"
proof -
  have source: "wp (alloc_source fr) (\<lambda>a. wp (case a of (source, injector) \<Rightarrow> upd (newStreamSource source injector))
      (\<lambda>_ t. wp (upd (\<lambda>s. s\<lparr>s_url := rtsp_url e\<rparr>)) (\<lambda>_. grows s) (\<lambda>_. grows s) t) (\<lambda>_. grows s)) (\<lambda>_. grows s) t"
    if "grows s t" for fr t
  proof -
    obtain src p u where u: "new_source fr t = ((src, p), u)" by (metis prod.exhaust)
    from new_source_grows [OF u] that have "grows s (newStreamSource src p u)" using grows_trans by blast
    then have "grows s ((newStreamSource src p u)\<lparr>s_url := rtsp_url e\<rparr>)" by (simp add: grows_def)
    then show ?thesis by (simp add: wp_alloc_source u wp_upd)
  qed
  let ?t = "(stop s)\<lparr>s_codec := codec\<rparr>"
  have t: "grows s (stop s)" "grows s ?t" using stop_grows by (simp_all add: grows_def)
  have sink: "grows s ((open_groupsocks e ?t)\<lparr>rtp_sink := k\<rparr>)" for k
    using t(2) by (simp add: grows_def)
  have session: "grows s (add_session MulticastSession ((open_groupsocks e ?t)\<lparr>rtp_sink := k\<rparr>))" for k
    using sink add_session_grows grows_trans by blast
  have unicast: "grows s ((add_session kind ?t)\<lparr>s_url := rtsp_url e\<rparr>)" for kind
    using grows_trans [OF t(2) add_session_grows] by (simp add: grows_def)
  have eta: "wp (upd f) Q E = (\<lambda>s :: server. Q () (f s))" for f Q E
    by (rule ext) (rule wp_upd)
  show ?thesis
    unfolding start_def start_multicast_def
    using t sink session unicast source [unfolded eta]
    by (auto simp: wp_thn wp_bnd eta wp_gets wp_whenb wp_fail split: option.split)
qed

lemma srv_step_grows: "grows s (srv_step b s e)"
proof (cases e)
  case (Start env codec mc)
  from wp_state [OF start_grows] Start show ?thesis by simp
next
  case OpenSource
  obtain r t where "createNewStreamSource b False s = (r, t)" by (metis prod.exhaust)
  with createNewStreamSource_grows OpenSource show ?thesis by (metis snd_conv srv_step.simps(5))
next
  case (Send frame)
  then show ?thesis by (simp add: sendFrame_def grows_def)
next
  case (Consume p m)
  then show ?thesis by (simp add: grows_def)
qed (simp_all add: stop_grows sdpLines_grows createNewRTPSink_grows closeStreamSource_grows)

section \<open>The subsession at work\<close>

text \<open>
  The publisher's calls to the server, the callbacks for real clients, the descriptions, and
  the end of the server, in any order. live555 gives a source back once, and only one that it
  got.
\<close>

datatype uni_event =
    Publisher srv_event
  | OpenRealSource
  | OpenRealSink
  | CloseRealSource nat
  | DescribeStream
  | ServerGone

fun uni_step :: "build \<Rightarrow> (rtp_sink \<Rightarrow> string) \<Rightarrow> unicast \<Rightarrow> uni_event \<Rightarrow> unicast" where
  "uni_step b lines_of u (Publisher e) = snd (with_server (\<lambda>s. ((), srv_step b s e)) () u)"
| "uni_step b lines_of u OpenRealSource = snd (uni_createNewStreamSource b 0 u)"
| "uni_step b lines_of u OpenRealSink = snd (uni_createNewRTPSink b u)"
| "uni_step b lines_of u (CloseRealSource source) =
     (if source \<in> set (handed_out u) \<and> source \<notin> set (given_back u) then uni_closeStreamSource source u else u)"
| "uni_step b lines_of u DescribeStream = snd (uni_sdpLines lines_of (documented_base b lines_of) u)"
| "uni_step b lines_of u ServerGone = server_gone u"

text \<open>Sources that were given back are destroyed: none of them may be one that the server plays.\<close>

definition no_dangling :: "unicast \<Rightarrow> server \<Rightarrow> bool" where
  "no_dangling u s \<longleftrightarrow>
     (\<forall>src \<in> set (handed_out u) \<union> set (given_back u). src < next_addr s) \<and>
     fst ` set (streams s) \<inter> set (given_back u) = {}"

definition uni_inv :: "build \<Rightarrow> unicast \<Rightarrow> bool" where
  "uni_inv b u \<longleftrightarrow> \<not> dummy_session u \<and> (\<forall>s. server_ref u = Some s \<longrightarrow> srv_inv b s \<and> no_dangling u s)"

lemma grows_no_dangling:
  assumes safe: "no_dangling u s" and grows: "grows s t"
  shows "no_dangling u t"
proof -
  have "fst x \<notin> set (given_back u)" if x: "x \<in> set (streams t)" for x
  proof (cases "x \<in> set (streams s)")
    case True
    with safe show ?thesis by (auto simp: no_dangling_def)
  next
    case False
    with x grows have "next_addr s \<le> fst x" unfolding grows_def by blast
    then show ?thesis using safe unfolding no_dangling_def by (meson UnI2 leD)
  qed
  moreover have "src < next_addr t" if "src \<in> set (handed_out u) \<union> set (given_back u)" for src
    using safe grows that unfolding no_dangling_def grows_def by (meson order.strict_trans2)
  ultimately show ?thesis by (auto simp: no_dangling_def)
qed

text \<open>The callbacks that make and close a source, whatever the dummy flag says.\<close>

lemma source_no_dangling:
  assumes "server_ref u = Some s" and "no_dangling u s" and "uni_createNewStreamSource b rate u = ((r, rate'), v)"
  shows "\<exists>t. server_ref v = Some t \<and> createNewStreamSource b (dummy_session u) s = (r, t) \<and> no_dangling v t \<and>
    dummy_session v = dummy_session u \<and> fSDPLines v = fSDPLines u \<and> (\<forall>src. r = Some src \<longrightarrow> src < next_addr t)"
proof -
  obtain r' t where t: "createNewStreamSource b (dummy_session u) s = (r', t)" by (metis prod.exhaust)
  then have v: "r' = r"
    "v = u\<lparr>server_ref := Some t, handed_out := handed_out u @ (case r of None \<Rightarrow> [] | Some src \<Rightarrow> [src])\<rparr>"
    using assms(1,3) by (auto simp: uni_createNewStreamSource_def with_server_def)
  note new = createNewStreamSource_grows [OF t]
  have "no_dangling u t" using grows_no_dangling [OF assms(2)] new by blast
  then have "no_dangling v t" using new unfolding v by (auto simp: no_dangling_def split: option.split)
  with t v new show ?thesis by simp
qed

lemma close_no_dangling:
  assumes "server_ref u = Some s" and "no_dangling u s" and "src < next_addr s"
  shows "server_ref (uni_closeStreamSource src u) = Some (closeStreamSource src s) \<and>
    no_dangling (uni_closeStreamSource src u) (closeStreamSource src s)"
proof -
  let ?t = "closeStreamSource src s"
  have "no_dangling u ?t" using grows_no_dangling [OF assms(2) closeStreamSource_grows] .
  moreover have "src < next_addr ?t" using assms(3) closeStreamSource_grows [of s src] by (auto simp: grows_def)
  ultimately show ?thesis
    using closed_is_gone [of src s] assms(1)
    by (auto simp: uni_closeStreamSource_def with_server_def no_dangling_def Let_def)
qed

lemma sdpLines_no_dangling:
  assumes "server_ref u = Some s" and "no_dangling u s"
  shows "\<exists>t. server_ref (snd (uni_sdpLines lines_of (documented_base b lines_of) u)) = Some t \<and>
    no_dangling (snd (uni_sdpLines lines_of (documented_base b lines_of) u)) t"
proof -
  define u1 where "u1 = (case rtp_sink s of Some k \<Rightarrow> u\<lparr>fSDPLines := Some (lines_of k)\<rparr> | None \<Rightarrow> u)
    \<lparr>dummy_session := True\<rparr>"
  have u1: "server_ref u1 = Some s" "no_dangling u1 s" "dummy_session u1"
    using assms by (simp_all add: u1_def no_dangling_def split: option.split)
  obtain r rate v where v: "uni_createNewStreamSource b 0 u1 = ((r, rate), v)" by (metis prod.exhaust)
  obtain t where t: "server_ref v = Some t" "no_dangling v t" "dummy_session v" "\<forall>src. r = Some src \<longrightarrow> src < next_addr t"
    using source_no_dangling [OF u1(1,2) v] u1(3) by auto
  obtain k w where w: "uni_createNewRTPSink b v = (k, w)" by (metis prod.exhaust)
  then have "w = v" using t dummy_sink_undisturbed [of b t]
    by (auto simp: uni_createNewRTPSink_def with_server_def split: prod.splits)
  have close: "\<exists>t'. server_ref (uni_closeStreamSource src w) = Some t' \<and> no_dangling (uni_closeStreamSource src w) t'"
    if "r = Some src" for src
    using close_no_dangling [OF t(1,2)] t(4) that \<open>w = v\<close> by blast
  have cut: "no_dangling (x\<lparr>fSDPLines := l, dummy_session := d\<rparr>) t' = no_dangling x t'"
    "no_dangling (x\<lparr>dummy_session := d\<rparr>) t' = no_dangling x t'"
    "no_dangling (x\<lparr>fSDPLines := l\<rparr>) t' = no_dangling x t'" for x l d t'
    by (simp_all add: no_dangling_def)
  have run: "uni_sdpLines lines_of base u = (fst (base u1), (snd (base u1))\<lparr>dummy_session := False\<rparr>)" for base
    using assms(1) by (auto simp: uni_sdpLines_def u1_def Let_def split: prod.split option.split)
  show ?thesis
    unfolding run using u1 t v w close by (cases r) (auto simp: documented_base_def cut)
qed

lemma uni_sdpLines_inv:
  assumes "uni_inv b u"
  shows "uni_inv b (snd (uni_sdpLines lines_of (documented_base b lines_of) u))"
proof (cases "server_ref u")
  case None
  with assms show ?thesis
    by (auto simp: uni_inv_def uni_sdpLines_def documented_base_def uni_createNewStreamSource_def with_server_def)
next
  case (Some s)
  have "dummy_session (snd (uni_sdpLines lines_of base u)) = False" for base
    by (simp add: uni_sdpLines_def split: prod.split)
  then show ?thesis
    using assms Some sdpLines_inv [of b s] sdpLines_agree [OF Some, of lines_of b]
      sdpLines_no_dangling [OF Some, of lines_of b]
    by (auto simp: uni_inv_def)
qed

lemma server_step_inv:
  assumes "uni_inv b u" and "server_ref u = Some s" and "srv_inv b t" and "grows s t"
  shows "uni_inv b (u\<lparr>server_ref := Some t\<rparr>)"
proof -
  have "no_dangling u t" using assms grows_no_dangling by (auto simp: uni_inv_def)
  then show ?thesis using assms by (simp add: uni_inv_def no_dangling_def)
qed

interpretation uni_machine: stepper "uni_step b lines_of" "uni_inv b"
  for b lines_of
proof
  fix u e
  assume inv: "uni_inv b u"
  show "uni_inv b (uni_step b lines_of u e)"
  proof (cases "server_ref u")
    case None
    with inv show ?thesis
      using uni_sdpLines_inv [OF inv] by (cases e)
        (auto simp: uni_inv_def with_server_def uni_createNewStreamSource_def uni_createNewRTPSink_def
          uni_closeStreamSource_def server_gone_def Let_def)
  next
    case (Some s)
    then have s: "\<not> dummy_session u" "srv_inv b s" "no_dangling u s" using inv by (simp_all add: uni_inv_def)
    note step = server_step_inv [OF inv Some]
    show ?thesis
    proof (cases e)
      case (Publisher e')
      with step [OF server_machine.step_inv [OF s(2)] srv_step_grows] Some show ?thesis by (simp add: with_server_def)
    next
      case OpenRealSource
      obtain r rate v where v: "uni_createNewStreamSource b 0 u = ((r, rate), v)" by (metis prod.exhaust)
      from source_no_dangling [OF Some s(3) v] createNewStreamSource_inv [OF s(2), of False] s(1) v OpenRealSource
      show ?thesis by (auto simp: uni_inv_def)
    next
      case OpenRealSink
      obtain k t where "createNewRTPSink b False s = (k, t)" by (metis prod.exhaust)
      with step [of t] createNewRTPSink_inv [OF s(2), of False] createNewRTPSink_grows [of s b False] Some s(1) OpenRealSink
      show ?thesis by (simp add: uni_createNewRTPSink_def with_server_def)
    next
      case (CloseRealSource src)
      have "uni_inv b (uni_closeStreamSource src u)" if "src \<in> set (handed_out u)"
      proof -
        have "src < next_addr s" using that s(3) by (auto simp: no_dangling_def)
        from close_no_dangling [OF Some s(3) this] closeStreamSource_inv [OF s(2)] s(1) Some show ?thesis
          by (auto simp: uni_inv_def uni_closeStreamSource_def with_server_def Let_def)
      qed
      with inv CloseRealSource show ?thesis by simp
    next
      case DescribeStream
      with uni_sdpLines_inv [OF inv] show ?thesis by simp
    next
      case ServerGone
      with s(1) show ?thesis by (simp add: uni_inv_def server_gone_def)
    qed
  qed
qed

text \<open>
  C14: no frame goes to a source that was destroyed. live555 destroys a source when it gives it
  back; whatever the publisher, the clients and the descriptions do, and in any order, no
  stream of the server has such a source, and every injector that gets frames is open.
\<close>

theorem streams_not_dangling:
  assumes "reachable_server b s" and "foldl (uni_step b lines_of) (UnicastServerMediaSubsession s port) es = u"
    and "server_ref u = Some t"
  shows "fst ` set (streams t) \<inter> set (given_back u) = {} \<and>
    (\<forall>p \<in> snd ` set (streams t). \<not> is_shutdown (injectors t p)) \<and> \<not> dummy_session u"
proof -
  have "uni_inv b (UnicastServerMediaSubsession s port)"
    using reachable_server_inv [OF assms(1)] by (simp add: uni_inv_def UnicastServerMediaSubsession_def no_dangling_def)
  from uni_machine.run_inv [OF this] assms(2) have "uni_inv b u" by blast
  with assms(3) show ?thesis by (auto simp: uni_inv_def no_dangling_def srv_inv_defs)
qed

section \<open>Witnesses\<close>

text \<open>A client has just got its source, and has no sink yet, when the next one asks.\<close>

definition early :: server where
  "early = foldl (srv_step full_build)
     (case create_server True (\<lambda>_. ''0'') 0 1354 of Inr s \<Rightarrow> s) [Start plain_host H264 False, OpenSource]"

lemma early_reachable: "reachable_server full_build early"
proof -
  obtain s0 where "create_server True (\<lambda>_. ''0'') 0 1354 = Inr s0" by (simp add: create_server_def)
  moreover from this have "early = foldl (srv_step full_build) s0 [Start plain_host H264 False, OpenSource]"
    by (simp add: early_def)
  ultimately show ?thesis unfolding reachable_server_def by blast
qed

lemma early_is: "streams early = [(3, 2)] \<and> rtp_sink early = None \<and> next_addr early = 4 \<and> s_codec early = H264"
  by (simp add: early_def server_ops op_defs plain_host_def Let_def on_injector_def new_injector_def)

theorem describing_disturbs_no_client_witness:
  "\<exists>t. server_ref (snd (uni_sdpLines (\<lambda>k. ''m=video'') (documented_base full_build (\<lambda>k. ''m=video''))
      (UnicastServerMediaSubsession early 50000))) = Some t \<and> streams t = [(3, 2)] \<and>
    injectors t 2 = injectors early 2 \<and> rtp_sink t = None"
proof -
  have "server_ref (UnicastServerMediaSubsession early 50000) = Some early"
    by (simp add: UnicastServerMediaSubsession_def)
  from describing_disturbs_no_client [OF early_reachable this documented_fair] early_is show ?thesis
    by (auto simp: hasActiveStreams_def)
qed

theorem sdpLines_agree_witness:
  "\<exists>t. server_ref (snd (uni_sdpLines (\<lambda>k. ''m=video'') (documented_base full_build (\<lambda>k. ''m=video''))
      (UnicastServerMediaSubsession early 50000))) = Some t"
  using sdpLines_agree [of "UnicastServerMediaSubsession early 50000" early]
  by (simp add: UnicastServerMediaSubsession_def)

theorem destroy_complete_witness: "is_shutdown (injectors (destroy_StreamServer early) 2)"
  using destroy_complete [OF early_reachable] early_is by simp

definition one_client :: unicast where
  "one_client = foldl (uni_step full_build (\<lambda>_. ''m=video'')) (UnicastServerMediaSubsession early 50000)
     [OpenRealSource, CloseRealSource 5]"

lemma one_client_is: "\<exists>t. server_ref one_client = Some t \<and> streams t = [(3, 2)] \<and> given_back one_client = [5]"
  using early_is
  by (simp add: one_client_def UnicastServerMediaSubsession_def uni_createNewStreamSource_def uni_closeStreamSource_def
      with_server_def createNewStreamSource_def createDiscreteFramer_def new_source_def newStreamSource_def
      closeStreamSource_def Let_def)

theorem streams_not_dangling_witness:
  "\<exists>t. server_ref one_client = Some t \<and> fst ` set (streams t) \<inter> {5} = {} \<and>
    \<not> is_shutdown (injectors t 2)"
proof -
  obtain t where t: "server_ref one_client = Some t" "streams t = [(3, 2)]" "given_back one_client = [5]"
    using one_client_is by blast
  from streams_not_dangling [OF early_reachable one_client_def [symmetric] t(1)] t show ?thesis by simp
qed

end
