(* ===== verification/Client_Handlers.thy ===== *)
theory Client_Handlers
  imports Subscriber_Plugin
begin

text \<open>
  The handlers of \<open>StreamClient\<close> (\<^verbatim>\<open>src/src/stream_client.h\<close>, \<^verbatim>\<open>src/src/stream_client.cpp\<close>):
  functions that the owner of a client registers, and that the client calls when something
  happens, if they were registered. Theory \<open>Stream_Client\<close> records what happens as notes; here
  a note finds its handler, and the handlers that the subscriber registers
  (\<^verbatim>\<open>internalCallback\<close> in \<^verbatim>\<open>src/src/subscriber_plugin.cpp\<close>) do what \<open>notify\<close> says.
\<close>

section \<open>Registration\<close>

text \<open>An empty \<^verbatim>\<open>std::function\<close> is \<open>None\<close>; \<open>'h\<close> is what a handler does.\<close>

record 'h handlers =
  subsession_started_handler :: "(video_codec \<Rightarrow> nat \<Rightarrow> 'h) option"
  subsession_finished_handler :: "(nat \<Rightarrow> 'h) option"
  session_failed_handler :: "(int \<Rightarrow> string \<Rightarrow> 'h) option"
  session_ready_handler :: "'h option"
  session_started_handler :: "'h option"
  session_finished_handler :: "'h option"
  session_timeout_handler :: "'h option"
  receive_stream_data_handler :: "(video_codec \<Rightarrow> nat \<Rightarrow> frame_data \<Rightarrow> 'h) option"

definition no_handlers :: "'h handlers" where
  "no_handlers =
     \<lparr>subsession_started_handler = None, subsession_finished_handler = None, session_failed_handler = None,
      session_ready_handler = None, session_started_handler = None, session_finished_handler = None,
      session_timeout_handler = None, receive_stream_data_handler = None\<rparr>"

definition setSubsessionStartedHandler :: "(video_codec \<Rightarrow> nat \<Rightarrow> 'h) \<Rightarrow> 'h handlers \<Rightarrow> 'h handlers" where
  "setSubsessionStartedHandler handler hs = hs\<lparr>subsession_started_handler := Some handler\<rparr>"

definition setSubsessionFinishedHandler :: "(nat \<Rightarrow> 'h) \<Rightarrow> 'h handlers \<Rightarrow> 'h handlers" where
  "setSubsessionFinishedHandler handler hs = hs\<lparr>subsession_finished_handler := Some handler\<rparr>"

definition setSessionFailedHandler :: "(int \<Rightarrow> string \<Rightarrow> 'h) \<Rightarrow> 'h handlers \<Rightarrow> 'h handlers" where
  "setSessionFailedHandler handler hs = hs\<lparr>session_failed_handler := Some handler\<rparr>"

definition setSessionReadyHandler :: "'h \<Rightarrow> 'h handlers \<Rightarrow> 'h handlers" where
  "setSessionReadyHandler handler hs = hs\<lparr>session_ready_handler := Some handler\<rparr>"

definition setSessionStartedHandler :: "'h \<Rightarrow> 'h handlers \<Rightarrow> 'h handlers" where
  "setSessionStartedHandler handler hs = hs\<lparr>session_started_handler := Some handler\<rparr>"

definition setSessionFinishedHandler :: "'h \<Rightarrow> 'h handlers \<Rightarrow> 'h handlers" where
  "setSessionFinishedHandler handler hs = hs\<lparr>session_finished_handler := Some handler\<rparr>"

definition setSessionTimeoutHandler :: "'h \<Rightarrow> 'h handlers \<Rightarrow> 'h handlers" where
  "setSessionTimeoutHandler handler hs = hs\<lparr>session_timeout_handler := Some handler\<rparr>"

definition setReceiveStreamDataHandler ::
  "(video_codec \<Rightarrow> nat \<Rightarrow> frame_data \<Rightarrow> 'h) \<Rightarrow> 'h handlers \<Rightarrow> 'h handlers" where
  "setReceiveStreamDataHandler handler hs = hs\<lparr>receive_stream_data_handler := Some handler\<rparr>"

lemmas setters = setSubsessionStartedHandler_def setSubsessionFinishedHandler_def
  setSessionFailedHandler_def setSessionReadyHandler_def setSessionStartedHandler_def
  setSessionFinishedHandler_def setSessionTimeoutHandler_def setReceiveStreamDataHandler_def

section \<open>Dispatch\<close>

text \<open>
  The handler that is called for a note. Requests and the workaround for code 454, which
  returns before the handler is asked for, have none.
\<close>

definition dispatch :: "'h handlers \<Rightarrow> rtsp_note \<Rightarrow> 'h option" where
  "dispatch hs n =
     (case n of
        SubsessionStarted codec i \<Rightarrow> map_option (\<lambda>h. h codec i) (subsession_started_handler hs)
      | SubsessionFinished i \<Rightarrow> map_option (\<lambda>h. h i) (subsession_finished_handler hs)
      | SessionFailed code message \<Rightarrow> map_option (\<lambda>h. h code message) (session_failed_handler hs)
      | SessionReady \<Rightarrow> session_ready_handler hs
      | SessionStarted \<Rightarrow> session_started_handler hs
      | SessionFinished \<Rightarrow> session_finished_handler hs
      | SessionTimeout \<Rightarrow> session_timeout_handler hs
      | ReceiveData codec i f \<Rightarrow> map_option (\<lambda>h. h codec i f) (receive_stream_data_handler hs)
      | _ \<Rightarrow> None)"

text \<open>A call of the client; \<^verbatim>\<open>continueAfterSETUP\<close> catches what the handler for a started
  subsession throws.\<close>

definition call_handler :: "('s, unit) op handlers \<Rightarrow> rtsp_note \<Rightarrow> ('s, unit) op" where
  "call_handler hs n =
     (case dispatch hs n of
        None \<Rightarrow> ret ()
      | Some h \<Rightarrow> (case n of SubsessionStarted codec i \<Rightarrow> handle h (\<lambda>e. ret ()) | _ \<Rightarrow> h))"

primrec call_handlers :: "('s, unit) op handlers \<Rightarrow> rtsp_note list \<Rightarrow> ('s, unit) op" where
  "call_handlers hs [] = ret ()"
| "call_handlers hs (n # ns) = thn (call_handler hs n) (call_handlers hs ns)"

section \<open>The subscriber's handlers\<close>

definition register_handlers ::
  "'w dec_ffmpeg \<Rightarrow> ('w subscriber, unit) op handlers \<Rightarrow> ('w subscriber, unit) op handlers" where
  "register_handlers ff hs =
     setSessionFinishedHandler sub_sessionFinished
    (setSessionFailedHandler (\<lambda>code message. sub_sessionFailed)
    (setSessionStartedHandler sub_sessionStarted
    (setSubsessionStartedHandler (\<lambda>codec i. subsessionStarted ff codec)
    (setSessionTimeoutHandler sub_sessionTimeout
    (setReceiveStreamDataHandler (\<lambda>codec i f. receiveDataStream f) hs)))))"

definition asked_for :: "rtsp_note \<Rightarrow> bool" where
  "asked_for n =
     (case n of
        SubsessionStarted _ _ \<Rightarrow> True
      | SessionFailed _ _ \<Rightarrow> True
      | SessionStarted \<Rightarrow> True
      | SessionFinished \<Rightarrow> True
      | SessionTimeout \<Rightarrow> True
      | ReceiveData _ _ _ \<Rightarrow> True
      | _ \<Rightarrow> False)"

lemma dispatch_registered:
  "dispatch (register_handlers ff no_handlers) n =
     (case n of
        SubsessionStarted codec i \<Rightarrow> Some (subsessionStarted ff codec)
      | ReceiveData codec i f \<Rightarrow> Some (receiveDataStream f)
      | SessionStarted \<Rightarrow> Some sub_sessionStarted
      | SessionTimeout \<Rightarrow> Some sub_sessionTimeout
      | SessionFailed code msg \<Rightarrow> Some sub_sessionFailed
      | SessionFinished \<Rightarrow> Some sub_sessionFinished
      | _ \<Rightarrow> None)"
  by (cases n) (simp_all add: dispatch_def register_handlers_def setters no_handlers_def)

lemma call_registered: "call_handler (register_handlers ff no_handlers) n = notify ff n"
  by (cases n) (simp_all add: call_handler_def dispatch_registered notify_def)

section \<open>Properties\<close>

text \<open>
  Every event reaches the subscriber. A new client calls, for any sequence of events, exactly
  the handlers that \<open>notify\<close> describes; no event that the subscriber has a handler for is
  lost, and the events of \<open>sessionReady\<close> and \<open>subsessionFinished\<close> have no effect.
\<close>

theorem handlers_refine_notify:
  "call_handlers (register_handlers ff no_handlers) ns = notify_all ff ns \<and>
   (\<forall>n. dispatch (register_handlers ff no_handlers) n \<noteq> None \<longleftrightarrow> asked_for n)"
proof
  show "call_handlers (register_handlers ff no_handlers) ns = notify_all ff ns"
    by (induction ns) (simp_all add: call_registered)
  show "\<forall>n. dispatch (register_handlers ff no_handlers) n \<noteq> None \<longleftrightarrow> asked_for n"
    by (simp add: dispatch_registered asked_for_def split: rtsp_note.split)
qed

text \<open>Registering again replaces: only the handler that was registered last is called.\<close>

theorem registering_again: "register_handlers ff (register_handlers ff' hs) = register_handlers ff hs"
  by (simp add: register_handlers_def setters)

text \<open>A client without handlers is silent.\<close>

lemma no_handlers_silent: "call_handlers no_handlers ns s = (Inr (), s)"
proof (induction ns)
  case (Cons n ns)
  have "call_handler no_handlers n s = (Inr (), s)"
    by (cases n) (simp_all add: call_handler_def dispatch_def no_handlers_def ret_def)
  with Cons show ?case by (simp add: op_defs)
qed (simp add: op_defs)

end
