(* ===== verification/Node_Parameters.thy ===== *)
theory Node_Parameters
  imports Complex_Main Publisher_Plugin Subscriber_Plugin Parameter_Names
begin

text \<open>
  The parameters of the node: what \<open>setupParameters\<close> of both plugins
  (\<^verbatim>\<open>src/src/publisher_plugin.cpp\<close>, \<^verbatim>\<open>src/src/subscriber_plugin.cpp\<close>) declares, and what
  \<open>updateParameters\<close> reads back into a configuration. The node belongs to ROS and is an
  argument; \<open>sound_ros\<close> states what ROS documents of it.

  A \<^verbatim>\<open>double\<close> is read as the rational number that it denotes; the conversions between
  seconds and milliseconds, which round, are arguments, too.
\<close>

section \<open>Values and nodes\<close>

datatype param_value = PBool bool | PInt int | PDouble rat | PString string | PStrings "string list"

datatype param_type = BoolType | IntType | DoubleType | StringType | StringsType

primrec type_of :: "param_value \<Rightarrow> param_type" where
  "type_of (PBool b) = BoolType"
| "type_of (PInt i) = IntType"
| "type_of (PDouble d) = DoubleType"
| "type_of (PString s) = StringType"
| "type_of (PStrings ss) = StringsType"

datatype param_range = NoRange | IntRange int int | DoubleRange rat rat

fun fits :: "param_value \<Rightarrow> param_range \<Rightarrow> bool" where
  "fits (PInt i) (IntRange lo hi) = (lo \<le> i \<and> i \<le> hi)"
| "fits (PDouble d) (DoubleRange lo hi) = (lo \<le> d \<and> d \<le> hi)"
| "fits _ _ = True"

definition wrong_type :: fault where
  "wrong_type = Throw (StdException ''parameter has an invalid type'')"

fun as_bool :: "param_value \<Rightarrow> fault + bool" where
  "as_bool (PBool b) = Inr b" | "as_bool _ = Inl wrong_type"

fun as_int :: "param_value \<Rightarrow> fault + int" where
  "as_int (PInt i) = Inr i" | "as_int _ = Inl wrong_type"

fun as_double :: "param_value \<Rightarrow> fault + rat" where
  "as_double (PDouble d) = Inr d" | "as_double _ = Inl wrong_type"

fun as_string :: "param_value \<Rightarrow> fault + string" where
  "as_string (PString s) = Inr s" | "as_string _ = Inl wrong_type"

fun as_strings :: "param_value \<Rightarrow> fault + string list" where
  "as_strings (PStrings ss) = Inr ss" | "as_strings _ = Inl wrong_type"

text \<open>What the code uses of a node, and \<open>set_parameter\<close>, which others use.\<close>

record 'n ros =
  has_parameter :: "'n \<Rightarrow> string \<Rightarrow> bool"
  describe_parameter :: "'n \<Rightarrow> string \<Rightarrow> (param_type \<times> param_range) option"
  get_parameter :: "'n \<Rightarrow> string \<Rightarrow> fault + param_value"
  declare_parameter :: "string \<Rightarrow> param_value \<Rightarrow> param_range \<Rightarrow> ('n, unit) op"
  set_parameter :: "string \<Rightarrow> param_value \<Rightarrow> 'n \<Rightarrow> 'n"

text \<open>
  A declared parameter has a value of its type and within its range from then on. Declaring
  one changes no other; it throws, for example, when the user gives the parameter a value of
  another type. Setting one changes no declaration.
\<close>

definition declared_well ::
  "'n ros \<Rightarrow> 'n \<Rightarrow> string \<Rightarrow> param_value \<Rightarrow> param_range \<Rightarrow> (fault + unit) \<times> 'n \<Rightarrow> bool" where
  "declared_well ros n p d r result \<longleftrightarrow>
     (case result of
        (Inr _, m) \<Rightarrow> describe_parameter ros m = (describe_parameter ros n)(p \<mapsto> (type_of d, r))
      | (Inl f, m) \<Rightarrow> (\<exists>e. f = Throw e) \<and> m = n)"

definition sound_ros :: "'n ros \<Rightarrow> bool" where
  "sound_ros ros \<longleftrightarrow>
     (\<forall>n p. has_parameter ros n p \<longleftrightarrow> describe_parameter ros n p \<noteq> None) \<and>
     (\<forall>n p t r. describe_parameter ros n p = Some (t, r) \<longrightarrow>
        (\<exists>v. get_parameter ros n p = Inr v \<and> type_of v = t \<and> fits v r)) \<and>
     (\<forall>n p d r. declared_well ros n p d r (declare_parameter ros p d r n)) \<and>
     (\<forall>n p v. describe_parameter ros (set_parameter ros p v n) = describe_parameter ros n)"

lemma has_declared: "sound_ros ros \<Longrightarrow> has_parameter ros n p \<longleftrightarrow> describe_parameter ros n p \<noteq> None"
  by (simp add: sound_ros_def)

lemma value_of_declared:
  "sound_ros ros \<Longrightarrow> describe_parameter ros n p = Some (t, r) \<Longrightarrow>
    \<exists>v. get_parameter ros n p = Inr v \<and> type_of v = t \<and> fits v r"
  by (simp add: sound_ros_def)

lemma wp_declare:
  assumes "sound_ros ros"
    and "\<And>m. describe_parameter ros m = (describe_parameter ros n)(p \<mapsto> (type_of d, r)) \<Longrightarrow> Q () m"
    and "\<And>e. E (Throw e) n"
  shows "wp (declare_parameter ros p d r) Q E n"
proof -
  obtain x m where x: "declare_parameter ros p d r n = (x, m)" by (metis prod.exhaust)
  have "declared_well ros n p d r (declare_parameter ros p d r n)"
    using assms(1) by (simp add: sound_ros_def)
  with x assms(2,3) show ?thesis by (cases x) (auto simp: wp_def declared_well_def)
qed

definition set_many :: "'n ros \<Rightarrow> (string \<times> param_value) list \<Rightarrow> 'n \<Rightarrow> 'n" where
  "set_many ros = fold (\<lambda>(p, v). set_parameter ros p v)"

lemma describe_set_many:
  "sound_ros ros \<Longrightarrow> describe_parameter ros (set_many ros sets n) = describe_parameter ros n"
  unfolding set_many_def by (induction sets arbitrary: n) (auto simp: sound_ros_def)

section \<open>Declaring\<close>

type_synonym param_decl = "string \<times> param_value \<times> param_range"

text \<open>\<^verbatim>\<open>if (!node->has_parameter(name)) node->declare_parameter(name, ...)\<close>, one after another.\<close>

primrec declare_missing :: "'n ros \<Rightarrow> param_decl list \<Rightarrow> ('n, unit) op" where
  "declare_missing ros [] = ret ()"
| "declare_missing ros (x # xs) =
     (case x of (p, d, r) \<Rightarrow>
        bnd (gets (\<lambda>n. has_parameter ros n p)) (\<lambda>there.
        thn (whenb (\<not> there) (declare_parameter ros p d r))
            (declare_missing ros xs)))"

text \<open>Somebody else may have declared a parameter already, if in the same way.\<close>

definition undisputed :: "'n ros \<Rightarrow> param_decl list \<Rightarrow> 'n \<Rightarrow> bool" where
  "undisputed ros xs n \<longleftrightarrow>
     (\<forall>(p, d, r) \<in> set xs. describe_parameter ros n p \<in> {None, Some (type_of d, r)})"

definition all_declared :: "'n ros \<Rightarrow> param_decl list \<Rightarrow> 'n \<Rightarrow> bool" where
  "all_declared ros xs n \<longleftrightarrow>
     (\<forall>(p, d, r) \<in> set xs. describe_parameter ros n p = Some (type_of d, r))"

definition declarations :: "param_decl list \<Rightarrow> string \<rightharpoonup> param_type \<times> param_range" where
  "declarations xs = map_of (map (\<lambda>(p, d, r). (p, type_of d, r)) xs)"

text \<open>Declaring adds what is missing, and overrides nothing.\<close>

lemma wp_declare_missing:
  assumes "sound_ros ros"
  shows "wp (declare_missing ros xs)
    (\<lambda>_ m. describe_parameter ros m = declarations xs ++ describe_parameter ros n)
    (\<lambda>f m. \<exists>e. f = Throw e) n"
proof (induction xs arbitrary: n)
  case Nil
  then show ?case by (simp add: wp_ret declarations_def)
next
  case (Cons x xs)
  obtain p d r where x: "x = (p, d, r)" by (metis prod_cases3)
  show ?case
  proof (cases "describe_parameter ros n p")
    case None
    have "wp (declare_missing ros xs)
      (\<lambda>_ m. describe_parameter ros m = declarations (x # xs) ++ describe_parameter ros n)
      (\<lambda>f m. \<exists>e. f = Throw e) n'"
      if "describe_parameter ros n' = (describe_parameter ros n)(p \<mapsto> (type_of d, r))" for n'
      by (rule wp_mono [OF Cons.IH])
        (use None in \<open>auto simp: that declarations_def x map_add_def fun_eq_iff split: option.splits\<close>)
    with None show ?thesis
      by (auto simp: x wp_bnd wp_thn wp_gets wp_whenb has_declared [OF assms] intro!: wp_declare [OF assms])
  next
    case (Some y)
    then have "declarations (x # xs) ++ describe_parameter ros n = declarations xs ++ describe_parameter ros n"
      by (auto simp: declarations_def x map_add_def fun_eq_iff split: option.splits)
    with Some Cons.IH [of n] show ?thesis
      by (simp add: x wp_bnd wp_thn wp_gets wp_whenb has_declared [OF assms])
  qed
qed

lemma declares_all:
  assumes "sound_ros ros" and "distinct (map fst xs)" and "undisputed ros xs n"
    and "declare_missing ros xs n = (Inr (), m)"
  shows "all_declared ros xs m"
proof -
  have "describe_parameter ros m = declarations xs ++ describe_parameter ros n"
    using wp_declare_missing [OF assms(1), of xs n] assms(4) by (simp add: wp_def)
  moreover have "declarations xs p = Some (type_of d, r)" if "(p, d, r) \<in> set xs" for p d r
  proof -
    have "distinct (map fst (map (\<lambda>(p, d, r). (p, type_of d, r)) xs))"
      using assms(2) by (simp add: case_prod_unfold comp_def)
    moreover have "(p, type_of d, r) \<in> set (map (\<lambda>(p, d, r). (p, type_of d, r)) xs)" using that by force
    ultimately show ?thesis unfolding declarations_def by (rule map_of_is_SomeI)
  qed
  ultimately show ?thesis
    using assms(3) by (fastforce simp: all_declared_def undisputed_def map_add_def split: option.split)
qed

lemma all_declared_later: "sound_ros ros \<Longrightarrow> all_declared ros xs (set_many ros sets n) = all_declared ros xs n"
  by (simp add: all_declared_def describe_set_many)

section \<open>What the plugins declare\<close>

text \<open>\<open>base\<close> is \<^verbatim>\<open>param_base_name_\<close>, \<open>cfg\<close> the configuration that gives the defaults.\<close>

definition sub_declarations :: "(int \<Rightarrow> rat) \<Rightarrow> sub_config \<Rightarrow> string \<Rightarrow> param_decl list" where
  "sub_declarations seconds cfg base =
     [(base @ ''.use_hw_decoder'', PBool (use_hw_decoder cfg), NoRange),
      (base @ ''.reconnect_policy'', PInt (reconnect_policy cfg), IntRange 0 3),
      (base @ ''.timeout'', PDouble (seconds (timeout cfg)), DoubleRange 0 60),
      (base @ ''.reconnect_minwait'', PDouble (seconds (reconnect_minwait cfg)), DoubleRange 0 60),
      (base @ ''.reconnect_maxwait'', PDouble (seconds (reconnect_maxwait cfg)), DoubleRange 0 600)]"

definition pub_declarations :: "pub_config \<Rightarrow> string \<Rightarrow> param_decl list" where
  "pub_declarations cfg base =
     [(base @ ''.codec'', PString ''H264'', NoRange),
      (base @ ''.target_bitrate'', PInt (sint (target_bitrate cfg)), IntRange 0 100000000),
      (base @ ''.expected_framerate'', PInt (sint (expected_framerate cfg)), IntRange 1 100),
      (base @ ''.use_hw_encoder'', PBool (p_hw_encoder cfg), NoRange),
      (base @ ''.udp_port'', PInt (sint (p_udp_port cfg)), IntRange 0 65535),
      (base @ ''.udp_packet_size'', PInt (sint (p_packet_size cfg)), IntRange 576 9000),
      (base @ ''.use_ip_multicast'', PBool (use_ip_multicast cfg), NoRange)]"

section \<open>What they read\<close>

definition get_as :: "'n ros \<Rightarrow> (param_value \<Rightarrow> fault + 'a) \<Rightarrow> string \<Rightarrow> ('n, 'a) op" where
  "get_as ros as p = (\<lambda>n. (case get_parameter ros n p of Inl e \<Rightarrow> Inl e | Inr v \<Rightarrow> as v, n))"

definition read_sub_config :: "'n ros \<Rightarrow> (rat \<Rightarrow> int) \<Rightarrow> string \<Rightarrow> ('n, sub_config) op" where
  "read_sub_config ros millis base =
     bnd (get_as ros as_bool (base @ ''.use_hw_decoder'')) (\<lambda>hw.
     bnd (get_as ros as_int (base @ ''.reconnect_policy'')) (\<lambda>policy.
     bnd (get_as ros as_double (base @ ''.timeout'')) (\<lambda>t.
     bnd (get_as ros as_double (base @ ''.reconnect_minwait'')) (\<lambda>lo.
     bnd (get_as ros as_double (base @ ''.reconnect_maxwait'')) (\<lambda>hi.
       ret \<lparr>use_hw_decoder = hw, reconnect_policy = policy, timeout = millis t,
         reconnect_minwait = millis lo, reconnect_maxwait = millis hi\<rparr>)))))"

definition read_pub_params :: "'n ros \<Rightarrow> string \<Rightarrow> ('n, pub_params) op" where
  "read_pub_params ros base =
     bnd (get_as ros as_string (base @ ''.codec'')) (\<lambda>codec.
     bnd (get_as ros as_int (base @ ''.target_bitrate'')) (\<lambda>bitrate.
     bnd (get_as ros as_int (base @ ''.expected_framerate'')) (\<lambda>framerate.
     bnd (get_as ros as_bool (base @ ''.use_hw_encoder'')) (\<lambda>hw.
     bnd (get_as ros as_int (base @ ''.udp_port'')) (\<lambda>port.
     bnd (get_as ros as_int (base @ ''.udp_packet_size'')) (\<lambda>packet_size.
     bnd (get_as ros as_bool (base @ ''.use_ip_multicast'')) (\<lambda>multicast.
       ret \<lparr>par_codec = codec, par_bitrate = bitrate, par_framerate = framerate, par_hw = hw,
         par_port = port, par_packet_size = packet_size, par_multicast = multicast\<rparr>)))))))"

lemma wp_get_as:
  assumes "sound_ros ros" and "describe_parameter ros n p = Some (t, r)"
    and "\<And>v. type_of v = t \<Longrightarrow> fits v r \<Longrightarrow> case as v of Inl f \<Rightarrow> E f n | Inr a \<Rightarrow> Q a n"
  shows "wp (get_as ros as p) Q E n"
proof -
  obtain v where "get_parameter ros n p = Inr v" "type_of v = t" "fits v r"
    using value_of_declared [OF assms(1,2)] by blast
  with assms(3) [of v] show ?thesis by (simp add: wp_def get_as_def split: sum.splits)
qed

lemma wp_get_bool:
  assumes "sound_ros ros" and "describe_parameter ros n p = Some (BoolType, r)" and "\<And>b. Q b n"
  shows "wp (get_as ros as_bool p) Q E n"
proof (rule wp_get_as [OF assms(1,2)])
  show "case as_bool v of Inl f \<Rightarrow> E f n | Inr a \<Rightarrow> Q a n" if "type_of v = BoolType" for v
    using that assms(3) by (cases v) simp_all
qed

lemma wp_get_string:
  assumes "sound_ros ros" and "describe_parameter ros n p = Some (StringType, r)" and "\<And>b. Q b n"
  shows "wp (get_as ros as_string p) Q E n"
proof (rule wp_get_as [OF assms(1,2)])
  show "case as_string v of Inl f \<Rightarrow> E f n | Inr a \<Rightarrow> Q a n" if "type_of v = StringType" for v
    using that assms(3) by (cases v) simp_all
qed

lemma wp_get_strings:
  assumes "sound_ros ros" and "describe_parameter ros n p = Some (StringsType, r)" and "\<And>b. Q b n"
  shows "wp (get_as ros as_strings p) Q E n"
proof (rule wp_get_as [OF assms(1,2)])
  show "case as_strings v of Inl f \<Rightarrow> E f n | Inr a \<Rightarrow> Q a n" if "type_of v = StringsType" for v
    using that assms(3) by (cases v) simp_all
qed

lemma wp_get_int:
  assumes "sound_ros ros" and "describe_parameter ros n p = Some (IntType, IntRange lo hi)"
    and "\<And>i. lo \<le> i \<Longrightarrow> i \<le> hi \<Longrightarrow> Q i n"
  shows "wp (get_as ros as_int p) Q E n"
proof (rule wp_get_as [OF assms(1,2)])
  show "case as_int v of Inl f \<Rightarrow> E f n | Inr a \<Rightarrow> Q a n" if "type_of v = IntType" "fits v (IntRange lo hi)" for v
    using that assms(3) by (cases v) simp_all
qed

lemma wp_get_double:
  assumes "sound_ros ros" and "describe_parameter ros n p = Some (DoubleType, DoubleRange lo hi)"
    and "\<And>d. lo \<le> d \<Longrightarrow> d \<le> hi \<Longrightarrow> Q d n"
  shows "wp (get_as ros as_double p) Q E n"
proof (rule wp_get_as [OF assms(1,2)])
  show "case as_double v of Inl f \<Rightarrow> E f n | Inr a \<Rightarrow> Q a n"
    if "type_of v = DoubleType" "fits v (DoubleRange lo hi)" for v
    using that assms(3) by (cases v) simp_all
qed

lemma wrong_type_throws:
  assumes "sound_ros ros" and "describe_parameter ros n p = Some (t, r)" and "t \<noteq> DoubleType"
  shows "get_as ros as_double p n = (Inl wrong_type, n)"
proof -
  obtain v where v: "get_parameter ros n p = Inr v" "type_of v = t"
    using value_of_declared [OF assms(1,2)] by blast
  with assms(3) show ?thesis by (cases v) (simp_all add: get_as_def)
qed

text \<open>Rounding keeps the order, and whole seconds have whole milliseconds.\<close>

definition rounding :: "(rat \<Rightarrow> int) \<Rightarrow> bool" where
  "rounding millis \<longleftrightarrow> mono millis \<and> (\<forall>n \<in> {0, 60, 600}. millis (of_int n) = 1000 * n)"

lemma rounding_bounds:
  assumes "rounding millis" and "n \<in> {60, 600}" and "0 \<le> d" "d \<le> of_int n"
  shows "0 \<le> millis d \<and> millis d \<le> 1000 * n"
proof -
  have m: "mono millis" "millis 0 = 0" "millis (of_int n) = 1000 * n"
    using assms(1,2) by (auto simp: rounding_def)
  show ?thesis using monoD [OF m(1) assms(3)] monoD [OF m(1) assms(4)] m(2,3) by simp
qed

section \<open>Properties\<close>

text \<open>
  C18: the subscriber's configuration is always within its ranges. After \<open>setupParameters\<close> the
  parameters can be read, whatever values were requested since, unless somebody else
  declared one of them in another way; and the configuration that \<open>updateParameters\<close> makes
  of them is one that the theorems about the subscriber ask for.
\<close>

theorem sub_parameters_in_range:
  assumes "sound_ros ros" and "rounding millis" and "undisputed ros (sub_declarations seconds cfg base) n"
    and "declare_missing ros (sub_declarations seconds cfg base) n = (Inr (), m)"
  shows "\<exists>new. fst (read_sub_config ros millis base (set_many ros sets m)) = Inr new \<and> setupParameters new"
proof -
  let ?m = "set_many ros sets m"
  have "distinct (map fst (sub_declarations seconds cfg base))" by (simp add: sub_declarations_def)
  from declares_all [OF assms(1) this assms(3,4)]
  have "all_declared ros (sub_declarations seconds cfg base) ?m" by (simp add: all_declared_later [OF assms(1)])
  then have "wp (read_sub_config ros millis base) (\<lambda>new _. setupParameters new) (\<lambda>_ _. False) ?m"
    using rounding_bounds [OF assms(2), of 60] rounding_bounds [OF assms(2), of 600]
    unfolding read_sub_config_def wp_bnd wp_ret
    by (intro wp_get_bool [OF assms(1)] wp_get_int [OF assms(1)] wp_get_double [OF assms(1)])
       (auto simp: all_declared_def sub_declarations_def setupParameters_def)
  then show ?thesis by (auto simp: wp_def split: prod.splits sum.splits)
qed

text \<open>The same for the publisher.\<close>

theorem pub_parameters_in_range:
  assumes "sound_ros ros" and "undisputed ros (pub_declarations cfg base) n"
    and "declare_missing ros (pub_declarations cfg base) n = (Inr (), m)"
  shows "\<exists>params. fst (read_pub_params ros base (set_many ros sets m)) = Inr params \<and> pub_setupParameters params"
proof -
  let ?m = "set_many ros sets m"
  have "distinct (map fst (pub_declarations cfg base))" by (simp add: pub_declarations_def)
  from declares_all [OF assms(1) this assms(2,3)]
  have "all_declared ros (pub_declarations cfg base) ?m" by (simp add: all_declared_later [OF assms(1)])
  then have "wp (read_pub_params ros base) (\<lambda>new _. pub_setupParameters new) (\<lambda>_ _. False) ?m"
    unfolding read_pub_params_def wp_bnd wp_ret
    by (intro wp_get_bool [OF assms(1)] wp_get_int [OF assms(1)] wp_get_string [OF assms(1)])
       (auto simp: all_declared_def pub_declarations_def pub_setupParameters_def)
  then show ?thesis by (auto simp: wp_def split: prod.splits sum.splits)
qed

text \<open>
  A parameter that somebody else declared with another type keeps that type, and reading the
  configuration throws, no matter what is requested for the parameter. The exception leaves
  \<open>updateParameters\<close>, which reads the parameters before its \<^verbatim>\<open>try\<close> block.
\<close>

theorem sub_parameters_disputed:
  assumes "sound_ros ros" and "describe_parameter ros n (base @ ''.timeout'') = Some (t, r)" "t \<noteq> DoubleType"
    and "undisputed ros (filter (\<lambda>(p, _). p \<noteq> base @ ''.timeout'') (sub_declarations seconds cfg base)) n"
    and "declare_missing ros (sub_declarations seconds cfg base) n = (Inr (), m)"
  shows "fst (read_sub_config ros millis base (set_many ros sets m)) = Inl wrong_type"
proof -
  let ?m = "set_many ros sets m"
  have m: "describe_parameter ros ?m = declarations (sub_declarations seconds cfg base) ++ describe_parameter ros n"
    using wp_declare_missing [OF assms(1), of "sub_declarations seconds cfg base" n] assms(5)
    by (simp add: wp_def describe_set_many [OF assms(1)])
  then have "describe_parameter ros ?m (base @ ''.timeout'') = Some (t, r)"
    using assms(2) by (simp add: map_add_def)
  from wrong_type_throws [OF assms(1) this assms(3)]
  have time: "get_as ros as_double (base @ ''.timeout'') ?m = (Inl wrong_type, ?m)" .
  have "describe_parameter ros ?m (base @ ''.use_hw_decoder'') = Some (BoolType, NoRange)"
    "describe_parameter ros ?m (base @ ''.reconnect_policy'') = Some (IntType, IntRange 0 3)"
    using assms(4) by (auto simp: m undisputed_def sub_declarations_def declarations_def map_add_def split: option.split)
  then have "wp (read_sub_config ros millis base) (\<lambda>_ _. False) (\<lambda>f _. f = wrong_type) ?m"
    unfolding read_sub_config_def wp_bnd wp_ret
    by (intro wp_get_bool [OF assms(1)] wp_get_int [OF assms(1)]) (auto simp: wp_def time)
  then show ?thesis by (auto simp: wp_def split: prod.splits sum.splits)
qed

section \<open>Witnesses\<close>

text \<open>A node as a map from names to values and ranges; every value is within its range.\<close>

typedef map_node = "{n :: string \<rightharpoonup> param_value \<times> param_range. \<forall>p v r. n p = Some (v, r) \<longrightarrow> fits v r}"
  by (rule exI [of _ Map.empty]) simp

setup_lifting type_definition_map_node

lift_definition empty_node :: map_node is "\<lambda>_. None" by simp

lift_definition node_lookup :: "map_node \<Rightarrow> string \<Rightarrow> (param_value \<times> param_range) option" is "\<lambda>n. n" .

lift_definition node_store :: "string \<Rightarrow> param_value \<Rightarrow> param_range \<Rightarrow> map_node \<Rightarrow> map_node" is
  "\<lambda>p v r n. if fits v r then n(p \<mapsto> (v, r)) else n"
  by (auto split: if_splits)

lemma lookup_empty [simp]: "node_lookup empty_node p = None"
  by transfer simp

lemma lookup_store [simp]:
  "node_lookup (node_store p v r n) q = (if fits v r \<and> q = p then Some (v, r) else node_lookup n q)"
  by transfer simp

lemma lookup_fits: "node_lookup n p = Some (v, r) \<Longrightarrow> fits v r"
  by transfer blast

definition simple_ros :: "map_node ros" where
  "simple_ros =
     \<lparr>has_parameter = (\<lambda>n p. node_lookup n p \<noteq> None),
      describe_parameter = (\<lambda>n p. map_option (\<lambda>(v, r). (type_of v, r)) (node_lookup n p)),
      get_parameter = (\<lambda>n p. case node_lookup n p of None \<Rightarrow> Inl NullDeref | Some (v, r) \<Rightarrow> Inr v),
      declare_parameter = (\<lambda>p d r n.
        if fits d r then (Inr (), node_store p d r n)
        else (Inl (Throw (StdException ''invalid parameter value'')), n)),
      set_parameter = (\<lambda>p v n. case node_lookup n p of
        None \<Rightarrow> n
      | Some (w, r) \<Rightarrow> if type_of v = type_of w then node_store p v r n else n)\<rparr>"

lemma simple_ros_sound: "sound_ros simple_ros"
  unfolding sound_ros_def
proof (intro conjI allI impI)
  fix n p t r
  assume "describe_parameter simple_ros n p = Some (t, r)"
  then show "\<exists>v. get_parameter simple_ros n p = Inr v \<and> type_of v = t \<and> fits v r"
    by (auto simp: simple_ros_def dest: lookup_fits)
next
  show "declared_well simple_ros n p d r (declare_parameter simple_ros p d r n)" for n p d r
    by (auto simp: declared_well_def simple_ros_def fun_eq_iff)
next
  show "describe_parameter simple_ros (set_parameter simple_ros p v n) = describe_parameter simple_ros n" for n p v
    by (auto simp: simple_ros_def fun_eq_iff split: option.split)
qed (simp add: simple_ros_def)

lemma simple_ros_declares:
  "\<forall>(p, d, r) \<in> set xs. fits d r \<Longrightarrow> \<exists>m. declare_missing simple_ros xs n = (Inr (), m)"
proof (induction xs arbitrary: n)
  case (Cons x xs)
  obtain p d r where x: "x = (p, d, r)" by (metis prod_cases3)
  from Cons have "\<exists>m. declare_missing simple_ros xs n' = (Inr (), m)" for n' by simp
  with Cons.prems show ?case
    by (auto simp: x op_defs simple_ros_def)
qed (simp add: ret_def)

definition exact_seconds :: "int \<Rightarrow> rat" where "exact_seconds n = of_int n / 1000"

definition exact_millis :: "rat \<Rightarrow> int" where "exact_millis d = \<lfloor>1000 * d\<rfloor>"

lemma exact_rounding: "rounding exact_millis"
  by (auto simp: rounding_def exact_millis_def mono_def intro!: floor_mono)

theorem sub_parameters_in_range_witness:
  "\<exists>m new. declare_missing simple_ros (sub_declarations exact_seconds default_config ''cam.rtsp'') empty_node = (Inr (), m) \<and>
    fst (read_sub_config simple_ros exact_millis ''cam.rtsp''
      (set_many simple_ros [(''cam.rtsp.timeout'', PDouble 5), (''cam.rtsp.timeout'', PInt 7)] m)) = Inr new \<and>
    setupParameters new"
proof -
  let ?xs = "sub_declarations exact_seconds default_config ''cam.rtsp''"
  have "\<forall>(p, d, r) \<in> set ?xs. fits d r"
    by (simp add: sub_declarations_def exact_seconds_def default_config_def ReconnectOnTimeout_def)
  then obtain m where m: "declare_missing simple_ros ?xs empty_node = (Inr (), m)" using simple_ros_declares by blast
  have "undisputed simple_ros ?xs empty_node" by (simp add: undisputed_def simple_ros_def)
  from sub_parameters_in_range [OF simple_ros_sound exact_rounding this m] m show ?thesis by blast
qed

theorem pub_parameters_in_range_witness:
  "\<exists>m params. declare_missing simple_ros (pub_declarations pub_default_config ''cam.rtsp'') empty_node = (Inr (), m) \<and>
    fst (read_pub_params simple_ros ''cam.rtsp''
      (set_many simple_ros [(''cam.rtsp.udp_port'', PInt 70000)] m)) = Inr params \<and>
    pub_setupParameters params"
proof -
  let ?xs = "pub_declarations pub_default_config ''cam.rtsp''"
  have "\<forall>(p, d, r) \<in> set ?xs. fits d r"
    by (simp add: pub_declarations_def pub_default_config_def)
  then obtain m where m: "declare_missing simple_ros ?xs empty_node = (Inr (), m)" using simple_ros_declares by blast
  have "undisputed simple_ros ?xs empty_node" by (simp add: undisputed_def simple_ros_def)
  from pub_parameters_in_range [OF simple_ros_sound this m] m show ?thesis by blast
qed

theorem sub_parameters_disputed_witness:
  "\<exists>m. fst (read_sub_config simple_ros exact_millis ''cam.rtsp''
    (set_many simple_ros [(''cam.rtsp.timeout'', PDouble 5)] m)) = Inl wrong_type"
proof -
  let ?xs = "sub_declarations exact_seconds default_config ''cam.rtsp''"
  let ?n = "node_store ''cam.rtsp.timeout'' (PInt 2) NoRange empty_node"
  have "\<forall>(p, d, r) \<in> set ?xs. fits d r"
    by (simp add: sub_declarations_def exact_seconds_def default_config_def ReconnectOnTimeout_def)
  then obtain m where m: "declare_missing simple_ros ?xs ?n = (Inr (), m)" using simple_ros_declares by blast
  have "describe_parameter simple_ros ?n (''cam.rtsp'' @ ''.timeout'') = Some (IntType, NoRange)"
    by (simp add: simple_ros_def)
  moreover have "undisputed simple_ros (filter (\<lambda>(p, _). p \<noteq> ''cam.rtsp'' @ ''.timeout'') ?xs) ?n"
    by (simp add: undisputed_def simple_ros_def sub_declarations_def)
  ultimately show ?thesis
    using sub_parameters_disputed [OF simple_ros_sound _ _ _ m] by fastforce
qed

end
