(* ===== verification/Topics.thy ===== *)
theory Topics
  imports Publisher_Facts Subscriber_Plugin
begin

text \<open>
  The topic between publisher and subscriber: its name, the quality of service that both ends
  ask for (\<^verbatim>\<open>advertiseImpl\<close> in \<^verbatim>\<open>src/src/publisher_plugin.cpp\<close>, \<^verbatim>\<open>subscribeImpl\<close> in
  \<^verbatim>\<open>src/src/subscriber_plugin.cpp\<close>), and the URL that arrives. The middleware is an argument,
  \<open>late\<close>, of which \<open>sound_dds\<close> states what the DDS specification promises.
\<close>

section \<open>Quality of service\<close>

record qos =
  reliable :: bool
  keep_last :: bool
  depth :: nat
  transient_local :: bool

text \<open>What the plugins make of the settings of their users.\<close>

definition advertise_qos :: "qos \<Rightarrow> qos" where
  "advertise_qos custom =
     custom\<lparr>reliable := True, keep_last := True, depth := 1, transient_local := True\<rparr>"

definition subscribe_qos :: "qos \<Rightarrow> qos" where
  "subscribe_qos custom =
     custom\<lparr>reliable := True, keep_last := True, depth := 1, transient_local := True\<rparr>"

definition getTransportName :: string where "getTransportName = ''rtsp''"

text \<open>\<^verbatim>\<open>image_transport\<close> appends the name of the transport to the topic, as documented.\<close>

definition transport_topic :: "string \<Rightarrow> string" where
  "transport_topic base_topic = base_topic @ ''/'' @ getTransportName"

section \<open>The middleware\<close>

datatype 'i message = UrlMsg string | ImageMsg 'i

text \<open>A ROS publisher, with what it has published so far.\<close>

record 'i topic_pub =
  on_topic :: string
  offered :: qos
  messages :: "'i message list"

definition compatible :: "qos \<Rightarrow> qos \<Rightarrow> bool" where
  "compatible off req \<longleftrightarrow> (reliable req \<longrightarrow> reliable off) \<and> (transient_local req \<longrightarrow> transient_local off)"

definition only_on_topic :: "'i topic_pub list \<Rightarrow> 'i topic_pub \<Rightarrow> bool" where
  "only_on_topic ps p \<longleftrightarrow> filter (\<lambda>q. on_topic q = on_topic p) ps = [p]"

text \<open>
  \<open>late ps topic req\<close> is what a subscription gets that starts after everything was published.
  A publisher that is alone on the topic and keeps one message for late subscribers gives it to
  every reliable one that asks for it.
\<close>

definition sound_dds :: "('i topic_pub list \<Rightarrow> string \<Rightarrow> qos \<Rightarrow> 'i message list) \<Rightarrow> bool" where
  "sound_dds late \<longleftrightarrow>
     (\<forall>ps p req. only_on_topic ps p \<and> compatible (offered p) req \<and> reliable req \<and> transient_local req \<and>
        keep_last (offered p) \<and> depth (offered p) = 1 \<and> messages p \<noteq> [] \<longrightarrow>
        late ps (on_topic p) req = [last (messages p)])"

section \<open>The two ends\<close>

fun urls :: "sent_item list \<Rightarrow> string list" where
  "urls [] = []"
| "urls (Url u # items) = u # urls items"
| "urls (Frame f # items) = urls items"

definition publisher_topic :: "string \<Rightarrow> qos \<Rightarrow> 'w publisher \<Rightarrow> 'i topic_pub" where
  "publisher_topic base_topic custom s =
     \<lparr>on_topic = transport_topic base_topic, offered = advertise_qos custom,
      messages = map UrlMsg (urls (Publisher_Plugin.trail s))\<rparr>"

text \<open>The subscription calls \<open>internalCallback\<close> for every message.\<close>

primrec receive_all :: "'i message list \<Rightarrow> ('w subscriber, unit) op" where
  "receive_all [] = ret ()"
| "receive_all (m # ms) =
     thn (case m of UrlMsg u \<Rightarrow> internalCallback u | ImageMsg i \<Rightarrow> ret ()) (receive_all ms)"

lemma urls_append: "urls (xs @ ys) = urls xs @ urls ys"
  by (induction xs rule: urls.induct) simp_all

lemma announced_last:
  "announced items = Some u \<Longrightarrow> urls items \<noteq> [] \<and> last (urls items) = u"
proof (induction items rule: rev_induct)
  case (snoc x xs)
  then show ?case by (cases x) (simp_all add: announced_def urls_append)
qed (simp add: announced_def)

lemma announced_current:
  assumes "reachable_publisher b ff s" and "p_server s = Some v" and "\<not> update_url s"
  shows "announced (Publisher_Plugin.trail s) = Some (s_url v)"
proof -
  have "pub_inv b ff s" using reachable_good [OF assms(1)] by (simp add: good_def)
  with assms(2,3) show ?thesis by (simp add: pub_inv_def)
qed

lemma internalCallback_connects:
  "\<exists>c l. internalCallback u s = (Inr (), snd (internalCallback u s)) \<and>
     s_client (snd (internalCallback u s)) = Some c \<and> c_url c = u \<and> client c = Some l \<and>
     pending l = Some DESCRIBE \<and> l_timeout l = timeout (s_config s)"
  by (simp add: internalCallback_def on_client_def connect_def send_def emit_def upd_live_def new_client_def
      new_live_def setSessionTimeout_def live_setSessionTimeout_def op_defs Let_def)

text \<open>What a subscription to a topic with one URL does.\<close>

lemma late_url:
  assumes "sound_dds late" and "only_on_topic ps p" and "offered p = advertise_qos custom"
    and "messages p \<noteq> []" "last (messages p) = UrlMsg u"
  shows "\<exists>t c l. receive_all (late ps (on_topic p) (subscribe_qos custom')) s = (Inr (), t) \<and>
     s_client t = Some c \<and> c_url c = u \<and> client c = Some l \<and> pending l = Some DESCRIBE"
proof -
  have "late ps (on_topic p) (subscribe_qos custom') = [UrlMsg u]"
    using assms by (simp add: sound_dds_def compatible_def advertise_qos_def subscribe_qos_def)
  with internalCallback_connects [of u s] show ?thesis
    by (auto simp: wp_def op_defs split: prod.splits)
qed

section \<open>Properties\<close>

text \<open>
  C6: A subscriber that comes late connects to the server of the publisher. When the publisher
  serves a stream and has announced it, a subscription that starts now gets the URL of the
  session that the server has at present, whatever was announced before, and the subscriber
  sends its first request to it.
\<close>

theorem late_subscriber_connects:
  assumes "sound_dds late" and "reachable_publisher b ff s" and "p_server s = Some v" "\<not> update_url s"
    and "only_on_topic ps (publisher_topic base custom s)"
  shows "\<exists>t c l. receive_all (late ps (transport_topic base) (subscribe_qos custom')) sub = (Inr (), t) \<and>
    s_client t = Some c \<and> c_url c = s_url v \<and> client c = Some l \<and> pending l = Some DESCRIBE"
proof -
  let ?p = "publisher_topic base custom s"
  have "messages ?p \<noteq> [] \<and> last (messages ?p) = UrlMsg (s_url v)"
    using announced_last [OF announced_current [OF assms(2-4)]]
    by (auto simp: publisher_topic_def last_map)
  moreover have "on_topic ?p = transport_topic base" "offered ?p = advertise_qos custom"
    by (simp_all add: publisher_topic_def)
  ultimately show ?thesis using late_url [OF assms(1,5)] by metis
qed

section \<open>Witnesses\<close>

text \<open>A middleware for publishers that keep one message.\<close>

definition simple_late :: "'i topic_pub list \<Rightarrow> string \<Rightarrow> qos \<Rightarrow> 'i message list" where
  "simple_late ps topic req =
     concat (map (\<lambda>p. if messages p = [] then [] else [last (messages p)]) (filter (\<lambda>p. on_topic p = topic) ps))"

lemma simple_late_sound: "sound_dds simple_late"
  by (simp add: sound_dds_def simple_late_def only_on_topic_def)

definition default_qos :: qos where
  "default_qos = \<lparr>reliable = False, keep_last = True, depth = 10, transient_local = False\<rparr>"

theorem late_subscriber_connects_witness:
  "\<exists>v t c. p_server encoding = Some v \<and>
    receive_all (simple_late [publisher_topic ''/cam'' default_qos encoding :: unit topic_pub] ''/cam/rtsp'' (subscribe_qos default_qos))
      (new_subscriber ()) = (Inr (), t) \<and>
    s_client t = Some c \<and> c_url c = s_url v"
proof -
  have "pub_inv full_build soft_mp4 encoding" using reachable_good [OF encoding_reachable] by (simp add: good_def)
  then obtain v where v: "p_server encoding = Some v" using encoding_is(1) by (auto simp: pub_inv_def)
  let ?p = "publisher_topic ''/cam'' default_qos encoding :: unit topic_pub"
  have "only_on_topic [?p] ?p" by (simp add: only_on_topic_def)
  from late_subscriber_connects [OF simple_late_sound encoding_reachable v encoding_is(2) this, of default_qos "new_subscriber ()"] v
  show ?thesis unfolding transport_topic_def getTransportName_def by auto
qed

end
