(* ===== verification/Tools.thy ===== *)
theory Tools
  imports Process_Setup Node_Parameters Topics
begin

text \<open>
  The two command line tools: the camera proxy (\<^verbatim>\<open>src/src/rtsp_camera_proxy.cpp\<close>) and the
  stream announcer (\<^verbatim>\<open>src/src/publish_rtsp_stream.cpp\<close>), up to the point where they hand
  over to ROS, and what a subscriber gets of what they publish. Parameters come from a node as
  in theory \<open>Node_Parameters\<close>; the image that both tools show to those who do not know the
  transport is built into the program and decoded by OpenCV, and is the argument \<open>rtsp_only\<close>.
\<close>

section \<open>Numbers in names\<close>

text \<open>\<^verbatim>\<open>std::format("{}", n)\<close> for unsigned numbers.\<close>

fun decimal :: "nat \<Rightarrow> string" where
  "decimal n = (if n < 10 then [char_of (48 + n)] else decimal (n div 10) @ [char_of (48 + n mod 10)])"

declare decimal.simps [simp del]

lemma decimal_small: "n < 10 \<Longrightarrow> decimal n = [char_of (48 + n)]"
  by (simp add: decimal.simps)

lemma decimal_large: "\<not> n < 10 \<Longrightarrow> decimal n = decimal (n div 10) @ [char_of (48 + n mod 10)]"
  by (subst decimal.simps) simp

definition undecimal :: "string \<Rightarrow> nat" where
  "undecimal cs = foldl (\<lambda>n ch. 10 * n + (of_char ch - 48)) 0 cs"

lemma undecimal_decimal: "undecimal (decimal n) = n"
proof (induction n rule: less_induct)
  case (less n)
  show ?case
  proof (cases "n < 10")
    case True
    then show ?thesis by (simp add: decimal_small undecimal_def of_char_of)
  next
    case False
    then have "undecimal (decimal (n div 10)) = n div 10" by (intro less.IH) simp
    with False show ?thesis by (simp add: decimal_large undecimal_def of_char_of)
  qed
qed

lemma decimal_inject: "decimal m = decimal n \<longleftrightarrow> m = n"
  by (metis undecimal_decimal)

lemma decimal_no_slash: "CHR ''/'' \<notin> set (decimal n)"
proof (induction n rule: less_induct)
  case (less n)
  have digit: "CHR ''/'' \<noteq> char_of (48 + d)" if "d < 10" for d :: nat
  proof
    assume "CHR ''/'' = char_of (48 + d)"
    then have "(of_char (CHR ''/'') :: nat) = of_char (char_of (48 + d) :: char)" by simp
    with that show False by (simp add: of_char_of)
  qed
  show ?case
  proof (cases "n < 10")
    case True
    with digit show ?thesis by (simp add: decimal_small)
  next
    case False
    then have "CHR ''/'' \<notin> set (decimal (n div 10))" by (intro less.IH) simp
    with False digit [of "n mod 10"] show ?thesis by (simp add: decimal_large)
  qed
qed

section \<open>The camera proxy\<close>

text \<open>\<^verbatim>\<open>rclcpp::QoS(rclcpp::KeepLast(1))\<close>, which is reliable by default, with the calls on it.\<close>

definition latched_qos :: qos where
  "latched_qos = \<lparr>reliable = True, keep_last = True, depth = 1, transient_local = True\<rparr>"

text \<open>What the proxy does for a camera: the proxied session in the RTSP server, and what it
  publishes, the image and the URL.\<close>

record 'i camera =
  camera_uri :: string
  stream_name :: string
  tunnel_port :: "16 word"
  camera_pub_raw :: "'i topic_pub"
  camera_pub_rtsp :: "'i topic_pub"

definition publish_once :: "string \<Rightarrow> 'i message \<Rightarrow> 'i topic_pub" where
  "publish_once topic m = \<lparr>on_topic = topic, offered = latched_qos, messages = [m]\<rparr>"

text \<open>The loop over the cameras, from the number \<open>n\<close> on.\<close>

primrec proxy_loop ::
  "'i \<Rightarrow> (string \<Rightarrow> string) \<Rightarrow> (string \<Rightarrow> int \<Rightarrow> string) \<Rightarrow> int \<Rightarrow> bool \<Rightarrow> nat \<Rightarrow> string list \<Rightarrow> 'i camera list" where
  "proxy_loop rtsp_only resolve url_of sock tcp n [] = []"
| "proxy_loop rtsp_only resolve url_of sock tcp n (uri # uris) =
     (let base = ''camera'' @ decimal n; topic = resolve base
      in \<lparr>camera_uri = uri, stream_name = base, tunnel_port = (if tcp then 0xFFFF else 0),
          camera_pub_raw = publish_once topic (ImageMsg rtsp_only),
          camera_pub_rtsp = publish_once (topic @ ''/rtsp'') (UrlMsg (url_of base sock))\<rparr> #
         proxy_loop rtsp_only resolve url_of sock tcp (n + 1) uris)"

definition proxy_socket ::
  "(bool \<Rightarrow> string \<Rightarrow> candidate list option) \<Rightarrow> (string \<Rightarrow> string option) \<Rightarrow> int set \<Rightarrow> int" where
  "proxy_socket lookup getenv fds =
     (case getenv ''ROS_HOSTNAME'' of
        Some var \<Rightarrow> fst (create_host_override_socket lookup (Some var) False fds)
      | None \<Rightarrow>
          (case getenv ''ROS_IP'' of
             Some var \<Rightarrow> fst (create_host_override_socket lookup (Some var) True fds)
           | None \<Rightarrow> -1))"

text \<open>\<^verbatim>\<open>main\<close> with its parameters, up to the event loops: its result if it ends at once, or the
  cameras it serves; \<open>bound port\<close> tells whether live555 could open the port.\<close>

definition camera_proxy ::
  "'i \<Rightarrow> (string \<Rightarrow> string) \<Rightarrow> (string \<Rightarrow> int \<Rightarrow> string) \<Rightarrow> (int \<Rightarrow> bool) \<Rightarrow> int \<Rightarrow> int \<Rightarrow> bool \<Rightarrow> string list \<Rightarrow>
   int + 'i camera list" where
  "camera_proxy rtsp_only resolve url_of bound sock server_port tcp cameras =
     (if cameras = [] then Inl 1
      else if \<not> bound server_port then Inl 1
      else Inr (proxy_loop rtsp_only resolve url_of sock tcp 0 cameras))"

text \<open>The parameters, which the program declares and reads at once.\<close>

definition declare_and_get :: "'n ros \<Rightarrow> (param_value \<Rightarrow> fault + 'a) \<Rightarrow> param_decl \<Rightarrow> ('n, 'a) op" where
  "declare_and_get ros as x =
     (case x of (p, d, r) \<Rightarrow> thn (declare_parameter ros p d r) (get_as ros as p))"

definition proxy_parameters :: "'n ros \<Rightarrow> ('n, int \<times> bool \<times> string list) op" where
  "proxy_parameters ros =
     bnd (declare_and_get ros as_int (''server_port'', PInt 0, IntRange 0 65535)) (\<lambda>server_port.
     bnd (declare_and_get ros as_bool (''tcp'', PBool False, NoRange)) (\<lambda>tcp.
     bnd (declare_and_get ros as_strings (''cameras'', PStrings [], NoRange)) (\<lambda>cameras.
       ret (server_port, tcp, cameras))))"

definition proxy_main ::
  "'n ros \<Rightarrow> 'i \<Rightarrow> (string \<Rightarrow> string) \<Rightarrow> (string \<Rightarrow> int \<Rightarrow> string) \<Rightarrow> (int \<Rightarrow> bool) \<Rightarrow> int \<Rightarrow>
   ('n, int + 'i camera list) op" where
  "proxy_main ros rtsp_only resolve url_of bound sock =
     bnd (proxy_parameters ros) (\<lambda>(server_port, tcp, cameras).
       ret (camera_proxy rtsp_only resolve url_of bound sock server_port tcp cameras))"

lemma proxy_loop_nth:
  "i < length uris \<Longrightarrow> proxy_loop rtsp_only resolve url_of sock tcp n uris ! i =
     (let base = ''camera'' @ decimal (n + i)
      in \<lparr>camera_uri = uris ! i, stream_name = base, tunnel_port = (if tcp then 0xFFFF else 0),
          camera_pub_raw = publish_once (resolve base) (ImageMsg rtsp_only),
          camera_pub_rtsp = publish_once (resolve base @ ''/rtsp'') (UrlMsg (url_of base sock))\<rparr>)"
  by (induction uris arbitrary: n i) (auto simp: Let_def nth_Cons split: nat.split)

lemma length_proxy_loop: "length (proxy_loop rtsp_only resolve url_of sock tcp n uris) = length uris"
  by (induction uris arbitrary: n) (simp_all add: Let_def)

lemma camera_proxy_nth:
  assumes "camera_proxy rtsp_only resolve url_of bound sock port tcp uris = Inr cams"
  shows "length cams = length uris"
    and "i < length cams \<Longrightarrow> cams ! i =
      \<lparr>camera_uri = uris ! i, stream_name = ''camera'' @ decimal i, tunnel_port = (if tcp then 0xFFFF else 0),
       camera_pub_raw = publish_once (resolve (''camera'' @ decimal i)) (ImageMsg rtsp_only),
       camera_pub_rtsp = publish_once (resolve (''camera'' @ decimal i) @ ''/rtsp'')
         (UrlMsg (url_of (''camera'' @ decimal i) sock))\<rparr>"
proof -
  have cams: "cams = proxy_loop rtsp_only resolve url_of sock tcp 0 uris"
    using assms by (simp add: camera_proxy_def split: if_splits)
  then show len: "length cams = length uris" by (simp add: length_proxy_loop)
  assume "i < length cams"
  with len proxy_loop_nth [of i uris rtsp_only resolve url_of sock tcp 0] show "cams ! i =
      \<lparr>camera_uri = uris ! i, stream_name = ''camera'' @ decimal i, tunnel_port = (if tcp then 0xFFFF else 0),
       camera_pub_raw = publish_once (resolve (''camera'' @ decimal i)) (ImageMsg rtsp_only),
       camera_pub_rtsp = publish_once (resolve (''camera'' @ decimal i) @ ''/rtsp'')
         (UrlMsg (url_of (''camera'' @ decimal i) sock))\<rparr>"
    by (simp add: cams Let_def)
qed

text \<open>
  Every camera has a stream and topics of its own. The proxy serves the cameras in the order
  of the parameter, and neither the names of their streams nor their topics collide, as long
  as ROS resolves different names to different topics.
\<close>

theorem proxy_streams_distinct:
  assumes "camera_proxy rtsp_only resolve url_of bound sock port tcp uris = Inr cams" and "inj_on resolve UNIV"
  shows "map camera_uri cams = uris \<and> distinct (map stream_name cams) \<and>
    distinct (map (on_topic \<circ> camera_pub_raw) cams) \<and> distinct (map (on_topic \<circ> camera_pub_rtsp) cams)"
proof -
  note cam = camera_proxy_nth [OF assms(1)]
  have "map camera_uri cams = uris"
    by (rule nth_equalityI) (simp_all add: cam)
  then show ?thesis
    using assms(2) by (auto simp: distinct_conv_nth cam publish_once_def decimal_inject inj_eq)
qed

theorem proxy_streams_distinct_witness:
  "\<exists>cams. camera_proxy () (\<lambda>n. CHR ''/'' # n) (\<lambda>n _. n) (\<lambda>_. True) (-1) 0 False [''rtsp://a'', ''rtsp://b''] = Inr cams \<and>
    distinct (map stream_name cams)"
proof -
  obtain cams where c: "camera_proxy () (\<lambda>n. CHR ''/'' # n) (\<lambda>n _. n) (\<lambda>_. True) (-1) 0 False
      [''rtsp://a'', ''rtsp://b''] = Inr cams" by (simp add: camera_proxy_def)
  have "inj_on (\<lambda>n :: string. CHR ''/'' # n) UNIV" by (simp add: inj_def)
  from proxy_streams_distinct [OF c this] c show ?thesis by blast
qed

text \<open>Everything that the proxy publishes.\<close>

definition proxy_topics :: "'i camera list \<Rightarrow> 'i topic_pub list" where
  "proxy_topics cams = map camera_pub_raw cams @ map camera_pub_rtsp cams"

lemma filter_one:
  assumes "distinct (map f xs)" and "x \<in> set xs"
  shows "filter (\<lambda>y. f y = f x) xs = [x]"
  using assms by (induction xs) (auto simp: filter_empty_conv image_iff dest: sym)

text \<open>
  What ROS makes of the names of the cameras keeps their topics apart: no two cameras have the same
  topic, and none has the topic under which the URL of another one is announced. For names that are
  not remapped that is always so; a user can spoil it by a remapping.
\<close>

definition topics_apart :: "(string \<Rightarrow> string) \<Rightarrow> nat \<Rightarrow> bool" where
  "topics_apart resolve n \<longleftrightarrow> (\<forall>j < n. \<forall>k < n.
     (resolve (''camera'' @ decimal j) = resolve (''camera'' @ decimal k) \<longrightarrow> j = k) \<and>
     resolve (''camera'' @ decimal j) \<noteq> resolve (''camera'' @ decimal k) @ ''/rtsp'')"

lemma unremapped_topics_apart:
  assumes "\<And>j. j < n \<Longrightarrow> resolve (''camera'' @ decimal j) = ns @ ''/camera'' @ decimal j"
  shows "topics_apart resolve n"
proof -
  have "decimal j \<noteq> decimal k @ ''/rtsp''" for j k
  proof
    assume "decimal j = decimal k @ ''/rtsp''"
    then have "CHR ''/'' \<in> set (decimal j)" by simp
    with decimal_no_slash show False by blast
  qed
  then show ?thesis unfolding topics_apart_def
    by (intro allI impI) (simp only: assms append_assoc same_append_eq decimal_inject, simp)
qed

lemma camera_topic_alone:
  assumes "camera_proxy rtsp_only resolve url_of bound sock port tcp uris = Inr cams"
    and apart: "topics_apart resolve (length uris)" and i: "i < length cams"
  shows "only_on_topic (proxy_topics cams) (camera_pub_rtsp (cams ! i))"
proof -
  note cam = camera_proxy_nth [OF assms(1)]
  let ?p = "camera_pub_rtsp (cams ! i)"
  have "on_topic q \<noteq> on_topic ?p" if "q \<in> set (map camera_pub_raw cams)" for q
  proof -
    from that obtain j where "j < length cams" "q = camera_pub_raw (cams ! j)"
      by (auto simp: in_set_conv_nth)
    with i apart show ?thesis by (simp add: cam publish_once_def topics_apart_def)
  qed
  then have "filter (\<lambda>q. on_topic q = on_topic ?p) (map camera_pub_raw cams) = []"
    by (auto simp: filter_empty_conv)
  moreover have "filter (\<lambda>q. on_topic q = on_topic ?p) (map camera_pub_rtsp cams) = [?p]"
  proof (rule filter_one)
    show "distinct (map on_topic (map camera_pub_rtsp cams))"
      using apart by (auto simp: distinct_conv_nth cam publish_once_def topics_apart_def)
  qed (use i in simp)
  ultimately show ?thesis by (simp add: only_on_topic_def proxy_topics_def)
qed

lemma latched_is_advertised: "latched_qos = advertise_qos default_qos"
  by (simp add: latched_qos_def advertise_qos_def default_qos_def)

text \<open>
  C19: A subscriber finds the camera behind the image. Whoever subscribes to the topic on which
  the proxy shows its placeholder image for a camera, with the transport \<open>rtsp\<close>, connects to the
  stream that the proxy serves for this camera, however late. (The topics to which ROS resolves the
  names of the cameras must not collide with each other or with \<^verbatim>\<open>/rtsp\<close> below each other, as they
  never do unless the user remaps them so, and the middleware must keep its promise for transient
  local topics.)
\<close>

theorem subscriber_finds_camera:
  assumes "sound_dds late" and "camera_proxy rtsp_only resolve url_of bound sock port tcp uris = Inr cams"
    and "topics_apart resolve (length uris)" and "i < length uris"
  shows "camera_uri (cams ! i) = uris ! i \<and>
    (\<exists>t c l. receive_all (late (proxy_topics cams) (transport_topic (on_topic (camera_pub_raw (cams ! i))))
        (subscribe_qos custom)) sub = (Inr (), t) \<and>
      s_client t = Some c \<and> c_url c = url_of (stream_name (cams ! i)) sock \<and> client c = Some l \<and>
      pending l = Some DESCRIBE)"
proof -
  note cam = camera_proxy_nth [OF assms(2)]
  have i: "i < length cams" using assms(4) cam(1) by simp
  let ?p = "camera_pub_rtsp (cams ! i)"
  have "offered ?p = advertise_qos default_qos" "messages ?p = [UrlMsg (url_of (stream_name (cams ! i)) sock)]"
    "on_topic ?p = transport_topic (on_topic (camera_pub_raw (cams ! i)))"
    using i by (simp_all add: cam publish_once_def latched_is_advertised transport_topic_def getTransportName_def)
  with late_url [OF assms(1) camera_topic_alone [OF assms(2,3) i]] i show ?thesis
    by (metis (no_types, lifting) cam(2) camera.select_convs(1) last.simps list.distinct(1))
qed

text \<open>The port that the proxy opens is one, whatever the user gives as parameter.\<close>

lemma wp_declare_and_get:
  assumes "sound_ros ros"
    and "\<And>m. describe_parameter ros m p = Some (type_of d, r) \<Longrightarrow> wp (get_as ros as p) Q E m"
    and "\<And>e m. E (Throw e) m"
  shows "wp (declare_and_get ros as (p, d, r)) Q E n"
  unfolding declare_and_get_def prod.case wp_thn using assms by (auto intro!: wp_declare [OF assms(1)])

theorem proxy_parameters_in_range:
  assumes "sound_ros ros"
  shows "case fst (proxy_parameters ros n) of
      Inr (server_port, _) \<Rightarrow> 0 \<le> server_port \<and> server_port \<le> 65535
    | Inl f \<Rightarrow> (\<exists>e. f = Throw e)"
proof -
  have "wp (proxy_parameters ros) (\<lambda>(server_port, _) _. 0 \<le> server_port \<and> server_port \<le> 65535)
    (\<lambda>f _. \<exists>e. f = Throw e) n"
    unfolding proxy_parameters_def wp_bnd wp_ret
    by (intro wp_declare_and_get [OF assms] wp_get_int [OF assms] wp_get_bool [OF assms] wp_get_strings [OF assms])
      auto
  then show ?thesis by (auto simp: wp_def split: prod.splits sum.splits)
qed

section \<open>The stream announcer\<close>

datatype complaint = MissingUrl | NotRemapped | ExtraArguments | NoRtspUrl

text \<open>The name of the node: the program's name without its directory.\<close>

definition node_name :: "string \<Rightarrow> string" where
  "node_name self =
     (if CHR ''/'' \<in> set self then rev (takeWhile (\<lambda>ch. ch \<noteq> CHR ''/'') (rev self)) else self)"

lemma node_name_file:
  "CHR ''/'' \<notin> set (node_name self)" "\<exists>dir. self = dir @ node_name self \<and> (dir = [] \<or> last dir = CHR ''/'')"
proof -
  show "CHR ''/'' \<notin> set (node_name self)" by (auto simp: node_name_def dest: set_takeWhileD)
  let ?t = "takeWhile (\<lambda>ch. ch \<noteq> CHR ''/'') (rev self)" and ?d = "dropWhile (\<lambda>ch. ch \<noteq> CHR ''/'') (rev self)"
  show "\<exists>dir. self = dir @ node_name self \<and> (dir = [] \<or> last dir = CHR ''/'')"
  proof (cases "CHR ''/'' \<in> set self")
    case True
    then have "?d \<noteq> []" by (auto simp: dropWhile_eq_Nil_conv)
    then have "last (rev ?d) = CHR ''/''" using hd_dropWhile [of "\<lambda>ch. ch \<noteq> CHR ''/''" "rev self"] by (simp add: last_rev)
    moreover have "self = rev ?d @ rev ?t"
      by (metis rev_append rev_rev_ident takeWhile_dropWhile_id)
    ultimately show ?thesis using True by (auto simp: node_name_def)
  next
    case False
    then show ?thesis by (simp add: node_name_def)
  qed
qed

text \<open>\<^verbatim>\<open>main\<close> before it spins: what it complains about, and the result if it ends at once or
  else what it publishes.\<close>

definition publish_rtsp_stream ::
  "'i \<Rightarrow> (string \<Rightarrow> string) \<Rightarrow> string list \<Rightarrow> complaint list \<times> (int + 'i topic_pub list)" where
  "publish_rtsp_stream rtsp_only resolve args =
     (let topic = resolve ''image'' in
      if length args < 2 then ([MissingUrl], Inl 2)
      else
        let url = args ! 1 in
        ((if topic = ''image'' then [NotRemapped] else []) @
         (if length args > 2 then [ExtraArguments] else []) @
         (if take 7 url \<noteq> ''rtsp://'' then [NoRtspUrl] else []),
         Inr [publish_once topic (ImageMsg rtsp_only), publish_once (topic @ ''/rtsp'') (UrlMsg url)]))"

text \<open>
  The warning about a topic that was not remapped is never given: ROS resolves a topic name to
  an absolute one, which is never the relative name that the code looks for.
\<close>

theorem announcer_never_warns:
  assumes "\<And>name. take 1 (resolve name) = ''/''"
  shows "NotRemapped \<notin> set (fst (publish_rtsp_stream rtsp_only resolve args))"
proof
  assume "NotRemapped \<in> set (fst (publish_rtsp_stream rtsp_only resolve args))"
  then have "resolve ''image'' = ''image''"
    by (auto simp: publish_rtsp_stream_def Let_def split: if_splits)
  with assms [of "''image''"] show False by simp
qed

text \<open>Who subscribes to the topic of the announcer connects to the URL on its command line.\<close>

theorem subscriber_finds_announced:
  assumes "sound_dds late" and "snd (publish_rtsp_stream rtsp_only resolve args) = Inr ps"
  shows "\<exists>t c l. receive_all (late ps (transport_topic (resolve ''image'')) (subscribe_qos custom)) sub = (Inr (), t) \<and>
    s_client t = Some c \<and> c_url c = args ! 1 \<and> client c = Some l \<and> pending l = Some DESCRIBE"
proof -
  let ?p = "publish_once (resolve ''image'' @ ''/rtsp'') (UrlMsg (args ! 1))"
  have ps: "ps = [publish_once (resolve ''image'') (ImageMsg rtsp_only), ?p]"
    using assms(2) by (simp add: publish_rtsp_stream_def Let_def split: if_splits)
  have "only_on_topic ps ?p" by (simp add: ps only_on_topic_def publish_once_def)
  moreover have "offered ?p = advertise_qos default_qos" "messages ?p = [UrlMsg (args ! 1)]"
    "on_topic ?p = transport_topic (resolve ''image'')"
    by (simp_all add: publish_once_def latched_is_advertised transport_topic_def getTransportName_def)
  ultimately show ?thesis using late_url [OF assms(1)] by (metis last.simps list.distinct(1))
qed

section \<open>Witnesses\<close>

text \<open>A resolver that knows absolute names, a rule that remaps the first camera, and a namespace.\<close>

definition some_resolver :: "string \<Rightarrow> string" where
  "some_resolver name =
     (if name = ''camera0'' then ''/door'' else if take 1 name = ''/'' then name else ''/ns/'' @ name)"

theorem subscriber_finds_camera_witness:
  "\<exists>cams t c. camera_proxy () some_resolver (\<lambda>n _. ''rtsp://proxy/'' @ n) (\<lambda>_. True) (-1) 8554 False
      [''rtsp://a'', ''rtsp://b''] = Inr cams \<and>
    receive_all (simple_late (proxy_topics cams) (transport_topic (on_topic (camera_pub_raw (cams ! 1))))
      (subscribe_qos default_qos)) (new_subscriber ()) = (Inr (), t) \<and>
    s_client t = Some c \<and> c_url c = ''rtsp://proxy/'' @ stream_name (cams ! 1)"
proof -
  obtain cams where c: "camera_proxy () some_resolver (\<lambda>n _. ''rtsp://proxy/'' @ n) (\<lambda>_. True) (-1) 8554 False
      [''rtsp://a'', ''rtsp://b''] = Inr cams" by (simp add: camera_proxy_def)
  have "char_of (49 :: nat) = CHR ''1''" "char_of (48 :: nat) = CHR ''0''"
    by code_simp+
  then have "topics_apart some_resolver (length [''rtsp://a'', ''rtsp://b''])"
    by (simp add: topics_apart_def some_resolver_def decimal_small numeral_2_eq_2 All_less_Suc)
  from subscriber_finds_camera [OF simple_late_sound c this, of 1 default_qos "new_subscriber ()"]
  obtain t d where "receive_all (simple_late (proxy_topics cams) (transport_topic (on_topic (camera_pub_raw (cams ! 1))))
      (subscribe_qos default_qos)) (new_subscriber ()) = (Inr (), t)"
    "s_client t = Some d" "c_url d = ''rtsp://proxy/'' @ stream_name (cams ! 1)" by auto
  with c show ?thesis by blast
qed

theorem announcer_never_warns_witness:
  "NotRemapped \<notin> set (fst (publish_rtsp_stream () (\<lambda>n. CHR ''/'' # n) [''tool'', ''rtsp://a'']))"
  by (rule announcer_never_warns) simp

theorem proxy_parameters_in_range_witness:
  "case fst (proxy_parameters simple_ros empty_node) of
      Inr (server_port, _) \<Rightarrow> 0 \<le> server_port \<and> server_port \<le> 65535
    | Inl f \<Rightarrow> (\<exists>e. f = Throw e)"
  by (rule proxy_parameters_in_range [OF simple_ros_sound])

theorem subscriber_finds_announced_witness:
  "\<exists>t c. receive_all (simple_late
      [publish_once ''/image'' (ImageMsg ()), publish_once (''/image'' @ ''/rtsp'') (UrlMsg ''rtsp://a'')]
      (transport_topic ''/image'') (subscribe_qos default_qos)) (new_subscriber ()) = (Inr (), t) \<and>
    s_client t = Some c \<and> c_url c = ''rtsp://a''"
proof -
  have "snd (publish_rtsp_stream () (\<lambda>n. CHR ''/'' # n) [''tool'', ''rtsp://a'']) =
      Inr [publish_once ''/image'' (ImageMsg ()), publish_once (''/image'' @ ''/rtsp'') (UrlMsg ''rtsp://a'')]"
    by (simp add: publish_rtsp_stream_def)
  from subscriber_finds_announced [OF simple_late_sound this, of default_qos "new_subscriber ()"]
  show ?thesis by auto
qed

end
