(* ===== verification/Image_Path.thy ===== *)
theory Image_Path
  imports Publisher_Facts Subscriber_Facts
begin

text \<open>
  From the publisher to the decoder: an image goes through the encoder into the injector of a
  client (\<^verbatim>\<open>PublisherPlugin::publish\<close>, \<^verbatim>\<open>StreamServer::sendFrame\<close>), over the network, through the
  extractor of the subscriber's client into its queue (\<^verbatim>\<open>FrameExtractor::deliverFrame\<close>,
  \<^verbatim>\<open>StreamClient::receiveStreamData\<close>, \<^verbatim>\<open>SubscriberPlugin::receiveDataStream\<close>). This theory puts
  the models of the components together; the network between them is live555's and RTP's, and
  here it delivers what the injector gave it.
\<close>

section \<open>The server's end\<close>

text \<open>An injector that is emptied hands over its frames in order.\<close>

lemma fifo_inv_from:
  "inj_inv s \<Longrightarrow> fifo_inv fs s \<Longrightarrow> inj_event.Shutdown \<notin> set es \<Longrightarrow>
    fifo_inv (fs @ injected es) (foldl inj_step s es)"
proof (induction es arbitrary: s fs)
  case (Cons e es)
  have "fifo_inv (fs @ injected [e]) (inj_step s e)"
    using Cons.prems by (intro fifo_inv_step) auto
  from Cons.IH [OF inj_step_inv [OF Cons.prems(1)] this] Cons.prems(3)
  have "fifo_inv ((fs @ injected [e]) @ injected es) (foldl inj_step (inj_step s e) es)" by simp
  moreover have "injected (e # es) = injected [e] @ injected es" using injected_append [of "[e]" es] by simp
  ultimately show ?case by simp
qed simp

definition arrivals :: "inj_sys \<Rightarrow> arrival list" where
  "arrivals s = map (\<lambda>(m, d). (d_bytes d, d_time d)) (consumed s)"

text \<open>
  What the consumer gets of an injector that it drains: each frame, cut to the size that the
  consumer had room for when it was handed over, with its time.
\<close>

definition cut_to :: "nat list \<Rightarrow> frame_data list \<Rightarrow> byte list list" where
  "cut_to ms fs = map2 (\<lambda>m f. take m (payload f)) ms fs"

lemma cut_all:
  assumes "length ms = length fs" and "\<forall>(m, f) \<in> set (zip ms fs). flength f \<le> m"
  shows "cut_to ms fs = map payload fs"
  using assms by (induction ms fs rule: list_induct2) (simp_all add: cut_to_def payload_def)

lemma drained_arrivals:
  assumes "inj_inv s" "\<not> is_shutdown (inj s)" "consumed s = []"
    and "inj_event.Shutdown \<notin> set es" "injected es = []" "frame_queue (inj (foldl inj_step s es)) = []"
  shows "length (consumed (foldl inj_step s es)) = length (frame_queue (inj s))"
    and "arrivals (foldl inj_step s es) = map2 (\<lambda>m f. (take m (payload f), presentation_time (fstamp f)))
      (map fst (consumed (foldl inj_step s es))) (frame_queue (inj s))"
proof -
  let ?c = "consumed (foldl inj_step s es)" and ?fs = "frame_queue (inj s)"
  have "fifo_inv ?fs s" using assms(2,3) by (simp add: fifo_inv_def)
  from fifo_inv_from [OF assms(1) this assms(4)] assms(5,6)
  have len: "length ?c = length ?fs" and snds: "map snd ?c = map2 delivery_of (map fst ?c) ?fs"
    by (auto simp: fifo_inv_def)
  from len show "length ?c = length ?fs" .
  have "(case ?c ! i of (m, d) \<Rightarrow> (d_bytes d, d_time d)) =
      (take (fst (?c ! i)) (payload (?fs ! i)), presentation_time (fstamp (?fs ! i)))"
    if i: "i < length ?fs" for i
  proof -
    have "snd (?c ! i) = delivery_of (fst (?c ! i)) (?fs ! i)"
      using arg_cong [OF snds, of "\<lambda>xs. xs ! i"] i len by simp
    then show ?thesis by (simp add: case_prod_unfold delivery_of_def)
  qed
  with len show "arrivals (foldl inj_step s es) =
      map2 (\<lambda>m f. (take m (payload f), presentation_time (fstamp f))) (map fst ?c) ?fs"
    by (intro nth_equalityI) (simp_all add: arrivals_def)
qed

section \<open>The client's end\<close>

text \<open>The extractor of a subsession, and the bytes that arrived and are not decoded yet.\<close>

definition sink_of :: "'w subscriber \<Rightarrow> nat \<Rightarrow> extractor option" where
  "sink_of s i = Option.bind (s_client s) (\<lambda>c. Option.bind (subsession_at c i) ss_sink)"

definition waiting_bytes :: "'w subscriber \<Rightarrow> nat \<Rightarrow> byte list" where
  "waiting_bytes s i =
     concat (map payload (queue s)) @ (case sink_of s i of None \<Rightarrow> [] | Some x \<Rightarrow> buffer x)"

primrec receive_stream ::
  "'w dec_ffmpeg \<Rightarrow> (string \<Rightarrow> byte list list) \<Rightarrow> (int \<Rightarrow> nat \<Rightarrow> fault + stamp) \<Rightarrow> nat \<Rightarrow> nat \<Rightarrow> arrival list \<Rightarrow>
   ('w subscriber, unit) op" where
  "receive_stream ff parse mk_time pad i [] = ret ()"
| "receive_stream ff parse mk_time pad i (a # as) =
     thn (from_client ff parse mk_time pad (Arrives i a)) (receive_stream ff parse mk_time pad i as)"

lemma ext_step_extends: "\<exists>new. received (ext_step mk_time pad x a) = received x @ new"
proof -
  obtain bytes tv where a: "a = (bytes, tv)" by (rule prod.exhaust)
  show ?thesis
    by (cases rule: ext_step_cases [of mk_time pad x bytes tv]) (simp_all add: a ext_step_eq)
qed

lemma queue_pushes [simp]: "queue (fold pushFrame fs s) = queue s @ fs"
  by (rule subscriber_queue.contents_fold_push)

lemma client_pushes [simp]: "s_client (fold pushFrame fs s) = s_client s"
  by (induction fs arbitrary: s) (simp_all add: pushFrame_def)

lemma notify_data:
  "notify_all ff (map (\<lambda>(codec, f). ReceiveData codec i f) new) s = (Inr (), fold pushFrame (map snd new) s)"
proof (induction new arbitrary: s)
  case (Cons n new)
  obtain codec f where n: "n = (codec, f)" by (rule prod.exhaust)
  have "notify ff (ReceiveData codec i f) s = (Inr (), pushFrame f s)"
    by (simp add: notify_def receiveDataStream_def upd_def)
  with Cons.IH [of "pushFrame f s"] show ?case by (simp add: n op_defs)
qed (simp add: ret_def)

text \<open>One delivery: the extractor makes a step, and its new frames are queued.\<close>

lemma arrival_queued:
  assumes "sink_of s i = Some x"
  shows "\<exists>t new. from_client ff parse mk_time pad (Arrives i a) s = (Inr (), t) \<and>
    received (ext_step mk_time pad x a) = received x @ new \<and>
    sink_of t i = Some (ext_step mk_time pad x a) \<and> queue t = queue s @ map snd new"
proof -
  obtain c l subs ss where c: "s_client s = Some c" "client c = Some l" "sdp_session l = Some subs" "i < length subs"
    "subs ! i = ss" "ss_sink ss = Some x"
    using assms by (auto simp: sink_of_def subsession_at_def split: option.splits bind_splits if_splits)
  obtain new where new: "received (ext_step mk_time pad x a) = received x @ new" using ext_step_extends by blast
  have at: "subsession_at c i = Some ss" using c by (simp add: subsession_at_def)
  let ?y = "ext_step mk_time pad x a" and ?c = "arrive mk_time pad i a c"
  have trail: "Stream_Client.trail ?c = Stream_Client.trail c @ map (\<lambda>(codec, f). ReceiveData codec i f) new"
    by (simp add: arrive_def at c(6) new Let_def)
  have sink: "Option.bind (subsession_at ?c i) ss_sink = Some ?y"
    using c by (simp add: arrive_def at Let_def subsession_at_def upd_subsession_def)
  let ?t = "fold pushFrame (map snd new) (s\<lparr>s_client := Some ?c\<rparr>)"
  have "from_client ff parse mk_time pad (Arrives i a) s = (Inr (), ?t)"
    using notify_data [of ff i new "s\<lparr>s_client := Some ?c\<rparr>"]
    by (simp add: from_client_def from_network_def with_handler_def client_op_def on_client_def op_defs c(1)
        notes_of_def trail)
  moreover have "sink_of ?t i = Some ?y" using sink by (simp add: sink_of_def)
  ultimately show ?thesis using new by (intro exI [of _ ?t] exI [of _ new]) simp
qed

lemma arrival_bytes:
  assumes "sink_of s i = Some x" "room_inv x" "length (fst a) \<le> BUFFER_SIZE - 52" "convertible mk_time a"
  shows "\<exists>t y. from_client ff parse mk_time pad (Arrives i a) s = (Inr (), t) \<and> sink_of t i = Some y \<and> room_inv y \<and>
    x_codec y = x_codec x \<and> waiting_bytes t i = waiting_bytes s i @ fst a @ code_of (x_codec x)"
proof -
  let ?y = "ext_step mk_time pad x a"
  obtain t new where t: "from_client ff parse mk_time pad (Arrives i a) s = (Inr (), t)"
    "received ?y = received x @ new" "sink_of t i = Some ?y" "queue t = queue s @ map snd new"
    using arrival_queued [OF assms(1)] by blast
  have req: "requested x = Some (BUFFER_SIZE - length (buffer x))" "length (fst a) \<le> BUFFER_SIZE - length (buffer x)"
    using assms(2,3) by (auto simp: room_inv_def)
  note bytes = ext_step_bytes [OF req assms(4), of pad]
  have "concat (map (payload \<circ> snd) new) @ buffer ?y = buffer x @ fst a @ code_of (x_codec x)"
    using bytes by (simp add: stream_bytes_def t(2))
  then have "waiting_bytes t i = waiting_bytes s i @ fst a @ code_of (x_codec x)"
    by (simp add: waiting_bytes_def t(3,4) assms(1) comp_def)
  with t(1,3) bytes show ?thesis by auto
qed

lemma stream_received:
  assumes "sink_of s i = Some x" "room_inv x"
    and "\<forall>a \<in> set as. length (fst a) \<le> BUFFER_SIZE - 52 \<and> convertible mk_time a"
  shows "\<exists>t. receive_stream ff parse mk_time pad i as s = (Inr (), t) \<and>
    waiting_bytes t i = waiting_bytes s i @ concat (map (\<lambda>a. fst a @ code_of (x_codec x)) as)"
  using assms
proof (induction as arbitrary: s x)
  case (Cons a as)
  then obtain u y where u: "from_client ff parse mk_time pad (Arrives i a) s = (Inr (), u)" "sink_of u i = Some y"
    "room_inv y" "x_codec y = x_codec x" "waiting_bytes u i = waiting_bytes s i @ fst a @ code_of (x_codec x)"
    using arrival_bytes [of s i x a mk_time ff parse pad] by auto
  from Cons.IH [OF u(2,3)] Cons.prems(3) u show ?case by (auto simp: op_defs)
qed (simp add: ret_def)

section \<open>The whole path\<close>

text \<open>Times between 0 and the end of the 32 bits for seconds.\<close>

lemma stamp_roundtrip:
  assumes "0 \<le> t" "t < 2147483648000000000" and "\<And>s n. 0 \<le> s \<Longrightarrow> mk_time s n = Inr (s * 1000000000 + int n)"
  shows "ext_stamp mk_time (presentation_time t) = Inr (t - t mod 1000)"
proof -
  define n where "n = nat t"
  have t: "t = int n" and n: "n < 2147483648000000000" using assms(1,2) by (simp_all add: n_def)
  have nsec: "unat (word_of_int t :: 64 word) = n"
    unfolding t using n by (simp add: unat_of_nat)
  let ?sec = "n div 1000000000" and ?usec = "n mod 1000000000 div 1000"
  have sec: "?sec < 2147483648" using n by (simp add: div_less_iff_less_mult)
  have s: "sint (word_of_nat ?sec :: 32 word) = int ?sec"
  proof -
    have "sint (word_of_nat ?sec :: 32 word) = signed_take_bit 31 (int ?sec)" by (simp add: signed_of_nat)
    also have "\<dots> = int ?sec" using sec by (intro signed_take_bit_int_eq_self) simp_all
    finally show ?thesis .
  qed
  have small: "unat (word_of_nat m :: 32 word) = m" if "m < 2 ^ 32" for m
    using that by (simp add: unat_of_nat)
  have "1000 * ?usec < 2 ^ 32"
  proof -
    have "1000 * ?usec \<le> n mod 1000000000" by (simp add: mult.commute)
    also have "\<dots> < 1000000000" by simp
    finally show ?thesis by simp
  qed
  then have u: "unat (word_of_nat (1000 * ?usec) :: 32 word) = 1000 * ?usec" by (rule small)
  have "n = ?sec * 1000000000 + (1000 * ?usec + n mod 1000)"
  proof -
    have "n mod 1000000000 = 1000 * ?usec + n mod 1000000000 mod 1000" by simp
    moreover have "n mod 1000000000 mod 1000 = n mod 1000" by (rule mod_mod_cancel) simp
    moreover have "n = ?sec * 1000000000 + n mod 1000000000" by simp
    ultimately show ?thesis by linarith
  qed
  then have "int n = int (?sec * 1000000000 + (1000 * ?usec + n mod 1000))" by (rule arg_cong)
  then have "int n = int ?sec * 1000000000 + (int (1000 * ?usec) + int (n mod 1000))"
    by (simp only: of_nat_add of_nat_mult of_nat_numeral)
  moreover have "int (n mod 1000) = int n mod 1000" by (simp add: zmod_int)
  ultimately have "int ?sec * 1000000000 + int (1000 * ?usec) = t - t mod 1000"
    unfolding t by linarith
  with assms(3) [of "int ?sec" "1000 * ?usec"] show ?thesis
    unfolding ext_stamp_def presentation_time_def nsec Let_def fst_conv snd_conv s u by simp
qed

text \<open>
  C1: an image reaches the decoder's queue. Let an image be published while a client plays, with no
  call of live555 coming between, by a publisher that has not failed. Then the frames that were
  still queued for the client are followed by those that the encoder made of the image, in
  order, or by none if encoding failed. Let the event loop then hand over the frames of this
  client, in whatever turns, until none is left, and the network deliver what was handed over.
  Then nothing goes wrong at the subscriber, and the bytes that wait for its decoder grow by
  exactly these frames, in order, each cut to the size that the sender's side of live555 had
  room for when it asked for the frame (whole, when it had room), and behind the start code that
  its codec asks for (which the extractor puts in front of the next one). The conditions: the injector and
  the extractor are in a state that they can be in between two calls (\<open>inj_inv\<close>, \<open>room_inv\<close>); what is handed
  over at once has at most 131020 bytes, which the extractor always has room for; and the time
  stamps lie between 1970 and 2038, the seconds that fit into 31 bits.
\<close>

theorem image_reaches_decoder:
  assumes publisher: "reachable_publisher b ff s" "p_server s = Some v" "\<not> p_failed s"
      "publish b ff img [] s = (Inr (), t)" "p_server t = Some v'"
    and playing: "(src, p) \<in> set (streams v)"
    and loop: "inj_inv sys" "inj sys = injectors v' p" "consumed sys = []" "injected es = []"
      "inj_event.Shutdown \<notin> set es" "frame_queue (inj (foldl inj_step sys es)) = []"
    and small: "\<forall>a \<in> set (arrivals (foldl inj_step sys es)). length (fst a) \<le> BUFFER_SIZE - 52"
    and stamps: "\<forall>f \<in> set (frame_queue (injectors v p)). 0 \<le> fstamp f \<and> fstamp f < 2147483648000000000"
      "0 \<le> i_stamp img" "i_stamp img < 2147483648000000000"
    and receiver: "sink_of sub i = Some x" "room_inv x"
    and time: "\<And>s n. 0 \<le> s \<Longrightarrow> mk_time s n = Inr (s * 1000000000 + int n)"
  shows "\<exists>fs sub'.
    (if p_failed t then fs = [] else encoded ff img (announcing v s) fs) \<and> (\<forall>f \<in> set fs. fstamp f = i_stamp img) \<and>
    frame_queue (injectors v' p) = frame_queue (injectors v p) @ fs \<and>
    length (consumed (foldl inj_step sys es)) = length (frame_queue (injectors v p) @ fs) \<and>
    receive_stream dff parse mk_time pad i (arrivals (foldl inj_step sys es)) sub = (Inr (), sub') \<and>
    waiting_bytes sub' i = waiting_bytes sub i @
      concat (map (\<lambda>bytes. bytes @ code_of (x_codec x))
        (cut_to (map fst (consumed (foldl inj_step sys es))) (frame_queue (injectors v p) @ fs)))"
proof -
  have active: "hasActiveStreams v" using playing by (auto simp: hasActiveStreams_def)
  obtain fs where fs: "if p_failed t then fs = [] \<and> p_encoder t = None else encoded ff img (announcing v s) fs"
    "\<forall>f \<in> set fs. frame_ok (padding ff) f \<and> fstamp f = i_stamp img"
    and v': "streams v' = streams v" "frame_queue (injectors v' p) = frame_queue (injectors v p) @ fs"
    using publish_queues [OF publisher(1-3) active publisher(4)] playing publisher(5) by force
  have "reachable_publisher b ff t"
    using reachable_stepI [OF publisher(1), of "Publish img []"]
    by (simp add: allowed_event_def pub_op_def pub_step_def publisher(4))
  then have "pub_inv b ff t" using reachable_good by (auto simp: good_def)
  then have "srv_inv b v'" using publisher(5) by (simp add: pub_inv_def srv_fit_def)
  with playing v'(1) have open_inj: "\<not> is_shutdown (inj sys)" by (auto simp: loop(2) srv_inv_defs)
  let ?q = "frame_queue (injectors v p) @ fs" and ?as = "arrivals (foldl inj_step sys es)"
  let ?ms = "map fst (consumed (foldl inj_step sys es))"
  note drained = drained_arrivals [OF loop(1) open_inj loop(3,5,4,6), unfolded loop(2) v'(2)]
  have "convertible mk_time (bytes, presentation_time (fstamp f))" if "f \<in> set ?q" for f bytes
    using stamps fs(2) that stamp_roundtrip [of "fstamp f" mk_time, OF _ _ time]
    by (fastforce simp: convertible_def)
  then have "\<forall>a \<in> set ?as. length (fst a) \<le> BUFFER_SIZE - 52 \<and> convertible mk_time a"
    using small by (auto simp: drained(2) dest!: set_zip_rightD)
  from stream_received [OF receiver this, of dff parse pad] obtain sub' where
    "receive_stream dff parse mk_time pad i ?as sub = (Inr (), sub')"
    "waiting_bytes sub' i = waiting_bytes sub i @ concat (map (\<lambda>a. fst a @ code_of (x_codec x)) ?as)" by blast
  moreover have "map (\<lambda>a. fst a @ code_of (x_codec x)) ?as = map (\<lambda>bytes. bytes @ code_of (x_codec x)) (cut_to ?ms ?q)"
    by (simp add: drained(2) cut_to_def case_prod_unfold comp_def)
  ultimately show ?thesis using fs v'(2) drained(1) by (intro exI [of _ fs] exI [of _ sub']) auto
qed

section \<open>Witness\<close>

lemma first_image_injector:
  "\<exists>v. p_server (snd first_image) = Some v \<and>
    injectors v 2 = new_injector\<lparr>frame_queue := [mp4_packet], trigger_pending := True\<rparr>"
  by (simp add: watched_def pub_eval encode_eval send_loop_eq mp4_used_def injectFrame_def new_injector_def)

lemma playing_sink:
  "\<exists>x. sink_of (sub_at_work sub_playing) 1 = Some x \<and> room_inv x \<and> \<not> is_h26x (x_codec x)"
  "waiting_bytes (sub_at_work sub_playing) 1 = []"
  unfolding sub_run_def sub_start_soft sink_of_def waiting_bytes_def
  by (simp_all add: sub_decoding_eval subsession_at_def room_inv_def is_h26x_def)

theorem image_reaches_decoder_witness:
  "\<exists>v sub. p_server (snd first_image) = Some v \<and>
    receive_stream soft no_sprops plain_time 64 1
      (arrivals (foldl inj_step \<lparr>inj = injectors v 2, consumed = [], closed = False\<rparr> [Request BUFFER_SIZE]))
      (sub_at_work sub_playing) = (Inr (), sub) \<and>
    waiting_bytes sub 1 = [0, 0, 0, 1, 7]"
proof -
  obtain v where v: "p_server watched = Some v" "streams v = [(3, 2)]" "frame_queue (injectors v 2) = []"
    using watched_is(1) by blast
  obtain v' where v': "p_server (snd first_image) = Some v'"
    "injectors v' 2 = new_injector\<lparr>frame_queue := [mp4_packet], trigger_pending := True\<rparr>"
    using first_image_injector by blast
  have go: "first_image = (Inr (), snd first_image)" using first_image_ok(1) by (metis prod.collapse)
  obtain x where x: "sink_of (sub_at_work sub_playing) 1 = Some x" "room_inv x" "\<not> is_h26x (x_codec x)"
    using playing_sink(1) by blast
  have stamps: "0 \<le> i_stamp (tiny_image 5 [7])" "i_stamp (tiny_image 5 [7]) < 2147483648000000000"
    by (simp_all add: tiny_image_def)
  let ?sys = "\<lparr>inj = injectors v' 2, consumed = [], closed = False\<rparr>"
  have playing: "(3, 2) \<in> set (streams v)" by (simp add: v(2))
  let ?done = "foldl inj_step ?sys [Request BUFFER_SIZE]"
  have loop: "inj_inv ?sys" "frame_queue (inj ?done) = []"
    "consumed ?done = [(BUFFER_SIZE, delivery_of BUFFER_SIZE mp4_packet)]"
    by (simp_all add: v'(2) inj_inv_def inj_step_def run_doGetNextFrame run_deliver inj_deliverFrame_def
        new_injector_def mp4_packet_def mk_frame_def payload_def delivery_of_def delivered_def BUFFER_SIZE_def Let_def)
  have small: "\<forall>a \<in> set (arrivals ?done). length (fst a) \<le> BUFFER_SIZE - 52"
    unfolding arrivals_def loop(3) by (simp add: delivery_of_def mp4_packet_def BUFFER_SIZE_def)
  have old: "\<forall>f \<in> set (frame_queue (injectors v 2)). 0 \<le> fstamp f \<and> fstamp f < 2147483648000000000"
    by (simp add: v(3))
  have "\<exists>fs sub. frame_queue (injectors v' 2) = frame_queue (injectors v 2) @ fs \<and>
      receive_stream soft no_sprops plain_time 64 1 (arrivals ?done) (sub_at_work sub_playing) = (Inr (), sub) \<and>
      waiting_bytes sub 1 = waiting_bytes (sub_at_work sub_playing) 1 @
        concat (map (\<lambda>bytes. bytes @ code_of (x_codec x))
          (cut_to [BUFFER_SIZE] (frame_queue (injectors v 2) @ fs)))"
    using image_reaches_decoder [OF watched_reachable v(1) watched_is(2) go v'(1) playing loop(1) _ _ _ _ loop(2)
        small old stamps x(1,2), of plain_time soft no_sprops 64] unfolding loop(3) by auto
  with v'(1) playing_sink(2) x(3) show ?thesis
    by (auto simp: v(3) v'(2) loop(3) code_of_def mp4_packet_def cut_to_def BUFFER_SIZE_def)
qed

end
