(* ===== verification/Spec2Isabelle.thy ===== *)
theory Spec2Isabelle
  imports Prelude Video_Codec Frame_Data Nal_Split Frame_Injector Frame_Extractor Codec_Probe Images
    Stream_Encoder Encoder_Run Stream_Decoder Decoder_Run Stream_Server Stream_Client
    Client_Run Parameter_Names Subscriber_Plugin Subscriber_Run Subscriber_Facts
    Publisher_Plugin Publisher_Run Publisher_Facts Threads Graph_Monitor Frame_Scheduling Subscriber_Threads
    Lifetime Lock_Order Process_Setup Server_Subsession Client_Handlers Node_Parameters Topics Tools Image_Path
begin

text \<open>
  \<^bold>\<open>rtsp_image_transport: a verification development.\<close>

  The repository is an image transport for ROS 2. On the sending side a publisher plugin
  encodes camera images with FFmpeg, splits the packets of the encoder into NAL units, hands
  these to the event loop of an RTSP server (live555) and announces the URL of the server on a
  topic. On the receiving side a subscriber plugin learns the URL, connects with an RTSP client
  (live555), puts the payloads that arrive together into frames, decodes them with FFmpeg and
  delivers the images; it watches the connection and connects again. Two command line tools
  announce streams of cameras. All of the code is in \<^verbatim>\<open>src/src/\<close>.

  \<^bold>\<open>How the program is modelled.\<close> Definitions carry the names of the code. A class is a record
  with its members; a method is a function on it. Methods that may throw are operations
  \<open>'s \<Rightarrow> (fault + 'a) \<times> 's\<close> (theory \<open>Prelude\<close>): a \<open>fault\<close> is an exception, with its class and
  text, or what C++ leaves undefined (a null pointer, a read out of bounds, a loop that does
  not return), so that every error path is a value and the state at the time of the error is
  kept. Fixed width integers are words where they can wrap around; time stamps are
  integers, as the 64 bits of ROS never overflow within the ranges considered; making a
  \<^verbatim>\<open>rclcpp::Time\<close> of a negative one throws (\<open>rclcpp_time\<close>). FFmpeg
  is a record of functions over a hidden world, a parameter of every definition that
  uses it; live555, ROS and the operating system are the source of events and of the values of
  events. Nothing about them is assumed but what hypotheses of theorems name:
  \<open>names_ok\<close> and \<open>sound_ffmpeg\<close> (looking up a codec by name gives the codec of that name,
  and decoded frames have a positive size), how FFmpeg answers in one call (\<open>hands_out\<close>,
  \<open>hands_frames\<close>: a list of packets or frames, which may be empty, and then a result that is none),
  that it can make buffers and contexts for scaling (\<open>buffers_at_hand\<close>, \<open>scalers_at_hand\<close>),
  \<open>exhausting\<close> (a decoder gives finitely many frames for a packet),
  and the like; each has an instance in the witnesses. Log messages are left out.

  \<^bold>\<open>Theories.\<close>

  \<^item> \<open>Prelude\<close>: bytes, exceptions (\<^verbatim>\<open>streaming_error.h\<close>), operations with their weakest
    preconditions (collections \<open>wp_rules\<close>, \<open>keeps_rules\<close>), and three interfaces: \<open>fifo\<close>
    (buffers), \<open>stepper\<close> (machines whose steps keep an invariant) and \<open>partial_machine\<close> (the
    same for machines that may stop with a fault). Each is interpreted on the code's models.
  \<^item> \<open>Video_Codec\<close>, \<open>Frame_Data\<close>, \<open>Images\<close>: the data (\<^verbatim>\<open>video_codec.*\<close>, \<^verbatim>\<open>frame_data.*\<close>, image
    encodings of \<^verbatim>\<open>stream_encoder.cpp\<close>); the codec parameter is read as it is written.
  \<^item> \<open>Nal_Split\<close>: \<^verbatim>\<open>scanForStartCode\<close>, \<^verbatim>\<open>splitNALs\<close>. What framed units are split into, where
    any packet is cut and what is left out between its pieces, where the scanner reads out of bounds and what it misses.
  \<^item> \<open>Frame_Injector\<close>, \<open>Frame_Extractor\<close>: the ends of a stream (\<^verbatim>\<open>frame_injector.*\<close>,
    \<^verbatim>\<open>frame_extractor.*\<close>). Order, wake-ups and shutdown of the injector; the buffer of the
    extractor stays in bounds, its frames are well formed and their bytes those received.
  \<^item> \<open>Codec_Probe\<close>, \<open>Stream_Encoder\<close>, \<open>Encoder_Run\<close>: the constructor's walk through the FFmpeg
    encoders as an interface (\<open>probing\<close>, \<open>steady_probing\<close>) shared with the decoder; the encoder
    (\<^verbatim>\<open>stream_encoder.*\<close>, \<^verbatim>\<open>log_level.h\<close>) and what holds over its life: time stamps that
    increase, conversions that fit, every packet queued once.
  \<^item> \<open>Stream_Decoder\<close>, \<open>Decoder_Run\<close>: the same for \<^verbatim>\<open>stream_decoder.*\<close>.
  \<^item> \<open>Stream_Server\<close>: \<^verbatim>\<open>stream_server.*\<close>, its streams, sessions, multicast and ports.
    \<open>Server_Subsession\<close>: the objects through which live555 calls the server back, with their weak
    reference to it; describing a stream disturbs no client, no stream has a source that live555
    destroyed, and callbacks that come after the end of the server do nothing.
  \<^item> \<open>Stream_Client\<close>, \<open>Client_Run\<close>: \<^verbatim>\<open>stream_client.*\<close>, the state machine of an RTSP session;
    every reply leads to a request, to a running session or to an end that is reported.
    \<open>Client_Handlers\<close>: the handlers that the owner of a client registers; those of the subscriber
    do what \<open>notify\<close> says.
  \<^item> \<open>Parameter_Names\<close>, \<open>Subscriber_Plugin\<close>, \<open>Subscriber_Run\<close>, \<open>Subscriber_Facts\<close>:
    \<^verbatim>\<open>subscriber_plugin.*\<close> with its client and its decoder; reconnecting, waiting times,
    decoding in order, errors that are caught, the one that is not (what reading the parameters
    throws) and failures that stay.
  \<^item> \<open>Publisher_Plugin\<close>, \<open>Publisher_Run\<close>, \<open>Publisher_Facts\<close>: \<^verbatim>\<open>publisher_plugin.*\<close> with its
    server and its encoder; agreement of the three, the way of an image to the clients, the
    modes of the publisher as an abstract specification that every operation refines.
  \<^item> \<open>Threads\<close>: the interface \<open>turns\<close> of models in which threads take turns, an inductive step
    relation with an invariant. \<open>Graph_Monitor\<close>: \<^verbatim>\<open>graph_monitor.*\<close>. \<open>Frame_Scheduling\<close>: the
    threads that meet at the queue of the subscriber and its waitable \<^verbatim>\<open>ScheduledCB\<close>;
    \<open>Subscriber_Threads\<close> shows that the turns of \<^verbatim>\<open>processFrame\<close> of \<open>Subscriber_Plugin\<close>
    are turns of these threads, frame by frame, with what the other threads push in between. \<open>Lifetime\<close>:
    who destroys a \<^verbatim>\<open>StreamClient\<close> or \<^verbatim>\<open>StreamServer\<close>, and how its destructor ends.
    \<open>Lock_Order\<close>: the mutexes that every operation locks, and that they lead to no deadlock but
    the wait in \<^verbatim>\<open>GraphMonitor::instance\<close> and the call of the injector into its consumer.
  \<^item> \<open>Node_Parameters\<close>: what \<^verbatim>\<open>setupParameters\<close> of both plugins declares and \<^verbatim>\<open>updateParameters\<close>
    reads, over a node of which \<open>sound_ros\<close> states what ROS documents; configurations are always
    within their ranges. \<open>Topics\<close>: the topic for URLs and its quality of service, over a middleware
    of which \<open>sound_dds\<close> states what DDS promises; a late subscriber connects to the current server.
  \<^item> \<open>Process_Setup\<close>, \<open>Tools\<close>: \<^verbatim>\<open>init.*\<close>, \<^verbatim>\<open>host_override.*\<close>, \<^verbatim>\<open>rtsp_camera_proxy.cpp\<close>,
    \<^verbatim>\<open>publish_rtsp_stream.cpp\<close>; a subscriber finds the camera behind the placeholder image.
  \<^item> \<open>Image_Path\<close>: an image on its way from \<^verbatim>\<open>publish\<close> to the queue of the subscriber, through the
    models of both plugins. This theory: a packet of the encoder on its way through splitter,
    injector and extractor.

  \<^bold>\<open>Interaction.\<close> The state of the publisher holds a server and an encoder, that of the
  subscriber a client and a decoder; their operations are lifted (\<open>on_server\<close>, \<open>on_encoder\<close>,
  \<open>on_client\<close>, \<open>on_decoder\<close>), a null pointer being a fault. The calls of the client into the
  subscriber are recorded and then given to \<open>notify\<close> in their order. Where a second thread can
  come between two steps of a loop, the loop takes the list of what comes between as an
  argument (\<open>pushed\<close> of \<open>process_loop\<close>, \<open>meanwhile\<close> of \<open>send_loop\<close>), so the theorems hold for
  every interleaving at these points; \<open>Graph_Monitor\<close>, \<open>Frame_Scheduling\<close> and \<open>Lifetime\<close>
  interleave all turns of all threads, as does \<open>Lock_Order\<close> for the mutexes.

  \<^bold>\<open>Loops.\<close> No fuel is used. Loops that end for a reason of their own are functions with a
  measure (\<open>scan_loop\<close>, \<open>split_loop\<close>); loops that ask FFmpeg or a queue until it is empty are
  \<open>partial_function (option)\<close>, and that they return is proved: for \<open>receive_loop\<close> and
  \<open>frame_loop\<close> from the assumption that FFmpeg stops giving packets (\<open>encodeVideo_delivers\<close>,
  \<open>decodeVideo_delivers\<close>), for \<open>send_loop\<close> and \<open>process_loop\<close> always (\<open>send_loop_reference\<close>,
  \<open>subscriber_loop_ends\<close>, where a call that does not return is the fault \<open>Diverges\<close>, which the
  latter excludes for an FFmpeg that is \<open>exhausting\<close>).

  \<^bold>\<open>Not modelled.\<close> The descriptions of parameters and that some are read-only, the conversion of
  seconds to milliseconds in floating point (an argument, \<open>rounding\<close>); timers, callback
  groups, publishers and subscriptions as ROS entities, and what their creation may throw; the
  contents of pixels (of an image the size of its data and the rows that \<^verbatim>\<open>sws_scale\<close> may
  read are modelled, \<open>readable\<close>); the methods of the waitable that ROS asks for and that do nothing; log
  messages and \<^verbatim>\<open>withSI\<close>, which only formats one; what live555 does between its callbacks (where
  a theorem needs it, it is stated as \<open>fair_base\<close> or as the events of a machine); the pixels of
  the placeholder image; the event loops of the tools; the network between injector and
  extractor, which in \<open>Image_Path\<close> delivers what it is given. Handlers of the plugins are taken as atomic but for the interleavings
  above. For the publisher a mutex sees to that; the subscriber protects only its queue, and
  handlers that run in the event loop of the client may in fact overlap with those of ROS.
  Accesses to members that no mutex protects are data races and have no meaning in the model.
\<close>

section \<open>From the encoder to the decoder\<close>

text \<open>
  C2: from the encoder to the decoder. A packet of the H.264 or H.265 encoder that is a sequence
  of well-formed units is split, its units go one by one through the injector of a client, in
  any interleaving with the client's requests until none is queued, and arrive at the
  extractor as live555 delivers them (whole, in order). Then the extractor has put together
  the packet again, byte for byte, ready for the next unit, and each unit arrives with the
  time stamp of its image, cut to microseconds.
\<close>

theorem stream_end_to_end:
  assumes units: "us \<noteq> []" "\<forall>u \<in> set us. unit_ok u \<and> length u \<le> BUFFER_SIZE - 52"
    and split: "splitNALs pad [] (framed us) t = Some (fs, n)"
    and channel: "injected es = fs" "inj_event.Shutdown \<notin> set es" "frame_queue (inj (inj_run es)) = []"
    and room: "\<forall>(m, d) \<in> set (consumed (inj_run es)). m \<ge> BUFFER_SIZE - 52"
    and extractor: "FrameExtractor parse alive name None = Inr x" "is_h26x (x_codec x)"
    and time: "0 \<le> t" "t < 2147483648000000000" "\<And>s n. 0 \<le> s \<Longrightarrow> mk_time s n = Inr (s * 1000000000 + int n)"
  shows "stream_bytes (ext_run mk_time pad' x (map (\<lambda>(m, d). (d_bytes d, d_time d)) (consumed (inj_run es)))) =
      framed us @ MPEG_START_CODE \<and>
    map (\<lambda>(m, d). ext_stamp mk_time (d_time d)) (consumed (inj_run es)) = replicate n (Inr (t - t mod 1000))"
proof -
  let ?c = "consumed (inj_run es)"
  have fs: "fs = map (\<lambda>u. mk_frame pad u t) us" "n = length us"
    using splitNALs_units [OF units(1), of pad "[]" t] units(2) split by auto
  have "fifo_inv fs (inj_run es)" using fifo_inv_run [OF channel(2)] channel(1) by simp
  then have len: "length ?c = length us" and snds: "map snd ?c = map2 delivery_of (map fst ?c) fs"
    using channel(3) fs(1) by (auto simp: fifo_inv_def)
  have at: "d_bytes (snd (?c ! i)) = us ! i" "d_time (snd (?c ! i)) = presentation_time t" if i: "i < length us" for i
  proof -
    have "snd (?c ! i) = delivery_of (fst (?c ! i)) (fs ! i)"
      using arg_cong [OF snds, of "\<lambda>xs. xs ! i"] i len fs(1) by simp
    moreover have "fst (?c ! i) \<ge> BUFFER_SIZE - 52"
      using room nth_mem [of i ?c] i len by (auto simp: case_prod_unfold)
    moreover have "length (us ! i) \<le> BUFFER_SIZE - 52" using units(2) i by simp
    ultimately show "d_bytes (snd (?c ! i)) = us ! i" "d_time (snd (?c ! i)) = presentation_time t"
      using i by (simp_all add: delivery_of_def fs(1))
  qed
  let ?as = "map (\<lambda>(m, d). (d_bytes d, d_time d)) ?c"
  have as: "?as = map (\<lambda>u. (u, presentation_time t)) us"
    by (rule nth_equalityI) (simp_all add: len at case_prod_unfold)
  note stamp = stamp_roundtrip [of t mk_time, OF time]
  have fit: "\<forall>a \<in> set ?as. convertible mk_time a \<and> length (fst a) \<le> BUFFER_SIZE - 52"
    using units(2) stamp by (auto simp: as convertible_def)
  have ready: "room_inv (continuePlaying x)" "stream_bytes (continuePlaying x) = MPEG_START_CODE"
    using FrameExtractor_ok [OF extractor(1)] extractor(2)
    by (simp_all add: room_inv_def stream_bytes_def continuePlaying_eq BUFFER_SIZE_def)
  have "stream_bytes (ext_run mk_time pad' x ?as) =
      MPEG_START_CODE @ concat (map (\<lambda>a. fst a @ code_of (x_codec (continuePlaying x))) ?as)"
    using ext_run_bytes [OF ready(1) fit, of pad'] ready(2) by simp
  moreover have "MPEG_START_CODE @ concat (map (\<lambda>u. u @ MPEG_START_CODE) us) = framed us @ MPEG_START_CODE"
    by (induction us) (simp_all add: MPEG_START_CODE_def)
  moreover have "x_codec (continuePlaying x) = x_codec x" by (simp add: continuePlaying_eq)
  ultimately have "stream_bytes (ext_run mk_time pad' x ?as) = framed us @ MPEG_START_CODE"
    using extractor(2) by (simp add: as code_of_def comp_def)
  moreover have "map (\<lambda>(m, d). ext_stamp mk_time (d_time d)) ?c = replicate n (Inr (t - t mod 1000))"
    by (rule nth_equalityI) (simp_all add: len fs(2) at stamp case_prod_unfold)
  ultimately show ?thesis by blast
qed


definition two_units :: "byte list list" where
  "two_units = [[0x67, 0x42], [0x65]]"

definition two_frames :: "frame_data list" where
  "two_frames = map (\<lambda>u. mk_frame 2 u 1000000005) two_units"

definition two_events :: "inj_event list" where
  "two_events = [Inject (mk_frame 2 [0x67, 0x42] 1000000005), Request BUFFER_SIZE,
     Inject (mk_frame 2 [0x65] 1000000005), Request BUFFER_SIZE, TriggerFires]"

lemma two_consumed:
  "consumed (inj_run two_events) = map (\<lambda>f. (BUFFER_SIZE, delivery_of BUFFER_SIZE f)) two_frames"
  "frame_queue (inj (inj_run two_events)) = []"
  by (simp_all add: two_events_def two_frames_def two_units_def inj_step_def inj_init_def new_injector_def
      injectFrame_def run_handler_def doGetNextFrame_def inj_deliverFrame_def apply_call_def delivered_def
      delivery_of_def deliverFrameEvent_def mk_frame_def payload_def BUFFER_SIZE_def Let_def)

theorem stream_end_to_end_witness:
  "\<exists>x. FrameExtractor (\<lambda>_. []) True ''H264'' None = Inr x \<and>
    stream_bytes (ext_run (\<lambda>s n. Inr (s * 1000000000 + int n)) 2 x
      (map (\<lambda>(m, d). (d_bytes d, d_time d)) (consumed (inj_run two_events)))) =
    [0, 0, 0, 1, 0x67, 0x42, 0, 0, 0, 1, 0x65, 0, 0, 0, 1]"
proof -
  obtain x where x: "FrameExtractor (\<lambda>_. []) True ''H264'' None = Inr x" "is_h26x (x_codec x)"
    by (simp add: FrameExtractor_def fromRTSPCodecName_def is_h26x_def Let_def)
  have units: "two_units \<noteq> []" "\<forall>u \<in> set two_units. unit_ok u \<and> length u \<le> BUFFER_SIZE - 52"
    by (auto simp: two_units_def unit_ok_def code_at_def BUFFER_SIZE_def less_Suc_eq)
  have split: "splitNALs 2 [] (framed two_units) 1000000005 = Some (two_frames, 2)"
    using splitNALs_units [OF units(1), of 2 "[]" 1000000005] units(2) by (simp add: two_frames_def two_units_def)
  have es: "injected two_events = two_frames" "inj_event.Shutdown \<notin> set two_events"
    by (simp_all add: two_events_def two_frames_def two_units_def)
  have room: "\<forall>(m, d) \<in> set (consumed (inj_run two_events)). m \<ge> BUFFER_SIZE - 52"
    by (auto simp: two_consumed(1))
  from stream_end_to_end [OF units split es two_consumed(2) room x, of "\<lambda>s n. Inr (s * 1000000000 + int n)" 2] x(1)
  show ?thesis by (simp add: two_units_def MPEG_START_CODE_def)
qed

end
